(* ===== verification/Prelude.thy ===== *)
theory Prelude
  imports Main "HOL-Library.Word" "HOL-Library.Multiset"
begin

text \<open>
  Shared vocabulary of the development: the machine integers, the result type that carries
  every way a C++ operation can fail to return, little-endian layout of integers in memory,
  the byte view of a page, and the list lemmas the components share.

  \<^item> \<open>'a res\<close> is \<open>fault + 'a\<close>: \<open>Inl f\<close> says that the C++ code does not return normally
    (an exception, a null dereference, an access outside an object, an endless loop),
    \<open>Inr x\<close> that it returns \<open>x\<close>. \<open>rbind\<close> sequences two such computations.
  \<^item> \<open>le_enc n x\<close> / \<open>le_dec bs\<close> are what \<open>memcpy\<close> of an \<open>n\<close>-byte integer writes
    and reads on a little-endian machine.
  \<^item> \<open>page_read\<close> / \<open>page_write\<close> are \<open>memcpy\<close> from and to the \<open>data\<close> array of a
    \<open>Page\<close> (\<open>src/include/storage/page.h\<close>); leaving the array is \<open>PageOverrun\<close>.
\<close>

section \<open>Machine integers and faults\<close>

type_synonym u8 = "8 word"
type_synonym u16 = "16 word"
type_synonym u32 = "32 word"
type_synonym u64 = "64 word"

datatype fault =
    NullDeref
  | Segv
  | PageOverrun
  | OutOfBounds
  | EmptyBack
  | BadIterator
  | DivByZero
  | Indeterminate
  | InvalidArgument
  | OutOfRange
  | Diverges
  | BadComparator
  | ExitProcess
  | LengthError

type_synonym 'a res = "fault + 'a"

definition rbind :: "'a res \<Rightarrow> ('a \<Rightarrow> 'b res) \<Rightarrow> 'b res" where
  "rbind m f = (case m of Inl e \<Rightarrow> Inl e | Inr x \<Rightarrow> f x)"

text \<open>A loop over the elements of a list whose body may fault.\<close>

fun rfold :: "('a \<Rightarrow> 's \<Rightarrow> 's res) \<Rightarrow> 'a list \<Rightarrow> 's \<Rightarrow> 's res" where
  "rfold f [] s = Inr s"
| "rfold f (x # xs) s = rbind (f x s) (rfold f xs)"

text \<open>A loop that also collects one result per element.\<close>

fun rmap :: "('a \<Rightarrow> 's \<Rightarrow> ('b \<times> 's) res) \<Rightarrow> 'a list \<Rightarrow> 's \<Rightarrow> ('b list \<times> 's) res" where
  "rmap f [] s = Inr ([], s)"
| "rmap f (x # xs) s = rbind (f x s) (\<lambda>(y, s').
     rbind (rmap f xs s') (\<lambda>(ys, s''). Inr (y # ys, s'')))"

named_theorems res_simps

lemma rbind_Inl [simp, res_simps]: "rbind (Inl e) f = Inl e"
  by (simp add: rbind_def)

lemma rbind_Inr [simp, res_simps]: "rbind (Inr x) f = f x"
  by (simp add: rbind_def)

lemma rbind_eq_Inr: "rbind m f = Inr y \<longleftrightarrow> (\<exists>x. m = Inr x \<and> f x = Inr y)"
  by (cases m) auto

lemma rbind_cong [fundef_cong]:
  "m = m' \<Longrightarrow> (\<And>x. m' = Inr x \<Longrightarrow> f x = f' x) \<Longrightarrow> rbind m f = rbind m' f'"
  by (cases m') auto

lemma rfold_append: "rfold f (xs @ ys) s = rbind (rfold f xs s) (rfold f ys)"
proof (induction xs arbitrary: s)
  case (Cons x xs)
  then show ?case by (cases "f x s") auto
qed simp

text \<open>
  The rule for loops: an invariant on the processed prefix that each iteration extends is
  established for the whole list, and no iteration faults.
\<close>

lemma rfold_invariant:
  assumes base: "P [] s"
    and step: "\<And>ys x zs t. xs = ys @ x # zs \<Longrightarrow> P ys t \<Longrightarrow> \<exists>t'. f x t = Inr t' \<and> P (ys @ [x]) t'"
  shows "\<exists>s'. rfold f xs s = Inr s' \<and> P xs s'"
proof -
  have "\<exists>s'. rfold f zs t = Inr s' \<and> P xs s'" if "xs = ys @ zs" and "P ys t" for ys zs t
    using that
  proof (induction zs arbitrary: ys t)
    case Nil
    then show ?case by simp
  next
    case (Cons z zs)
    obtain t' where "f z t = Inr t'" and "P (ys @ [z]) t'"
      using step [OF Cons.prems] by blast
    then show ?case
      using Cons.IH [of "ys @ [z]" t'] Cons.prems(1) by simp
  qed
  from this [of "[]" xs s] base show ?thesis by simp
qed

lemma rfold_upt:
  assumes "P 0 s" and "\<And>i t. i < n \<Longrightarrow> P i t \<Longrightarrow> \<exists>t'. f i t = Inr t' \<and> P (Suc i) t'"
  shows "\<exists>s'. rfold f [0..<n] s = Inr s' \<and> P n s'"
  using assms
proof (induction n)
  case (Suc n)
  then obtain t where "rfold f [0..<n] s = Inr t" "P n t" by fastforce
  then show ?case using Suc.prems(2) [of n t] by (auto simp: rfold_append)
qed simp

lemma rmap_pure:
  assumes "P s"
    and "\<And>x t. x \<in> set xs \<Longrightarrow> P t \<Longrightarrow> \<exists>t'. f x t = Inr (g x, t') \<and> P t'"
  shows "\<exists>s'. rmap f xs s = Inr (map g xs, s') \<and> P s'"
  using assms
proof (induction xs arbitrary: s)
  case Nil
  then show ?case by simp
next
  case (Cons x xs)
  obtain t' where t': "f x s = Inr (g x, t')" "P t'"
    using Cons.prems by fastforce
  have "\<exists>s'. rmap f xs t' = Inr (map g xs, s') \<and> P s'"
    by (rule Cons.IH) (use t' Cons.prems in auto)
  then show ?case using t' by auto
qed

section \<open>Little-endian integers\<close>

fun le_enc :: "nat \<Rightarrow> nat \<Rightarrow> u8 list" where
  "le_enc 0 x = []"
| "le_enc (Suc n) x = of_nat x # le_enc n (x div 256)"

fun le_dec :: "u8 list \<Rightarrow> nat" where
  "le_dec [] = 0"
| "le_dec (b # bs) = unat b + 256 * le_dec bs"

lemma length_le_enc [simp]: "length (le_enc n x) = n"
  by (induction n arbitrary: x) auto

lemma le_dec_enc: "le_dec (le_enc n x) = x mod 256 ^ n"
proof (induction n arbitrary: x)
  case (Suc n)
  have "unat (of_nat x :: u8) = x mod 256" by (simp add: unat_of_nat)
  then show ?case by (simp add: Suc.IH mod_mult2_eq)
qed simp

lemma le_dec_bound: "le_dec bs < 256 ^ length bs"
proof (induction bs)
  case (Cons b bs)
  have "unat b < 256" using unsigned_less [of b] by simp
  then show ?case using Cons.IH by simp
qed simp

lemma le_enc_dec: "le_enc (length bs) (le_dec bs) = bs"
proof (induction bs)
  case (Cons b bs)
  have "unat b < 256" using unsigned_less [of b] by simp
  moreover have "256 * x = 0" for x :: u8
  proof -
    have "(256 :: u8) = 0" by simp
    then show ?thesis by (simp only: mult_zero_left)
  qed
  ultimately show ?case by (simp add: Cons.IH)
qed simp

text \<open>
  The contract of a fixed-width codec, as \<open>memcpy\<close> of a scalar uses it: the width is
  constant and decoding inverts encoding. It is interpreted below for the integer widths
  that the pages hold.
\<close>

locale byte_codec =
  fixes enc :: "'w \<Rightarrow> u8 list" and dec :: "u8 list \<Rightarrow> 'w" and width :: nat
  assumes enc_width: "length (enc w) = width"
    and dec_enc: "dec (enc w) = w"
    and enc_dec: "length bs = width \<Longrightarrow> enc (dec bs) = bs"
begin

lemma enc_inj: "enc v = enc w \<longleftrightarrow> v = w"
  by (metis dec_enc)

lemma dec_inj: "length bs = width \<Longrightarrow> length cs = width \<Longrightarrow> dec bs = dec cs \<longleftrightarrow> bs = cs"
  by (metis enc_dec)

end

definition enc16 :: "u16 \<Rightarrow> u8 list" where "enc16 w = le_enc 2 (unat w)"
definition dec16 :: "u8 list \<Rightarrow> u16" where "dec16 bs = of_nat (le_dec bs)"
definition enc32 :: "u32 \<Rightarrow> u8 list" where "enc32 w = le_enc 4 (unat w)"
definition dec32 :: "u8 list \<Rightarrow> u32" where "dec32 bs = of_nat (le_dec bs)"
definition enc64 :: "u64 \<Rightarrow> u8 list" where "enc64 w = le_enc 8 (unat w)"
definition dec64 :: "u8 list \<Rightarrow> u64" where "dec64 bs = of_nat (le_dec bs)"

lemma le_enc_of_nat_dec:
  assumes "length bs = n" and "256 ^ n = (2 ^ LENGTH('a::len) :: nat)"
  shows "le_enc n (unat (of_nat (le_dec bs) :: 'a word)) = bs"
proof -
  have "le_dec bs < 2 ^ LENGTH('a)" using le_dec_bound [of bs] assms by simp
  then have "unat (of_nat (le_dec bs) :: 'a word) = le_dec bs"
    by (simp add: unat_of_nat take_bit_eq_mod)
  then show ?thesis using le_enc_dec [of bs] assms(1) by simp
qed

lemma of_nat_dec_enc:
  fixes w :: "'a::len word"
  assumes "256 ^ n = (2 ^ LENGTH('a) :: nat)"
  shows "of_nat (le_dec (le_enc n (unat w))) = w"
  using unsigned_less [of w] by (simp add: le_dec_enc assms)

interpretation c16: byte_codec enc16 dec16 2
  by unfold_locales (simp_all add: enc16_def dec16_def of_nat_dec_enc le_enc_of_nat_dec)

interpretation c32: byte_codec enc32 dec32 4
  by unfold_locales (simp_all add: enc32_def dec32_def of_nat_dec_enc le_enc_of_nat_dec)

interpretation c64: byte_codec enc64 dec64 8
  by unfold_locales (simp_all add: enc64_def dec64_def of_nat_dec_enc le_enc_of_nat_dec)

lemmas codec_simps [simp] =
  c16.enc_width c16.dec_enc c32.enc_width c32.dec_enc c64.enc_width c64.dec_enc

section \<open>The bytes of a page\<close>

type_synonym pagedata = "nat \<Rightarrow> u8"

definition zero_page :: pagedata where
  "zero_page = (\<lambda>_. 0)"

definition page_bytes :: "pagedata \<Rightarrow> nat \<Rightarrow> nat \<Rightarrow> u8 list" where
  "page_bytes pg off n = map pg [off..<off + n]"

definition page_put :: "pagedata \<Rightarrow> nat \<Rightarrow> u8 list \<Rightarrow> pagedata" where
  "page_put pg off bs = (\<lambda>i. if off \<le> i \<and> i < off + length bs then bs ! (i - off) else pg i)"

definition page_read :: "pagedata \<Rightarrow> nat \<Rightarrow> nat \<Rightarrow> u8 list res" where
  "page_read pg off n = (if off + n \<le> 4096 then Inr (page_bytes pg off n) else Inl PageOverrun)"

definition page_write :: "pagedata \<Rightarrow> nat \<Rightarrow> u8 list \<Rightarrow> pagedata res" where
  "page_write pg off bs =
     (if off + length bs \<le> 4096 then Inr (page_put pg off bs) else Inl PageOverrun)"

lemma length_page_bytes [simp]: "length (page_bytes pg off n) = n"
  by (simp add: page_bytes_def)

lemma page_bytes_put_same [simp]: "length bs = n \<Longrightarrow> page_bytes (page_put pg off bs) off n = bs"
  by (auto simp: page_bytes_def page_put_def intro!: nth_equalityI)

lemma page_bytes_put_disjoint [simp]:
  "off + n \<le> off' \<or> off' + length bs \<le> off \<Longrightarrow>
   page_bytes (page_put pg off' bs) off n = page_bytes pg off n"
  by (auto simp: page_bytes_def page_put_def)

lemma page_bytes_zero [simp]: "page_bytes zero_page off n = replicate n 0"
  by (auto simp: page_bytes_def zero_page_def intro!: nth_equalityI)

lemma le_dec_zeros [simp]: "le_dec (replicate n 0) = 0"
  by (induction n) auto

section \<open>Widening conversions\<close>

lemma unat_ucast_widen:
  "LENGTH('a::len) \<le> LENGTH('b::len) \<Longrightarrow> unat (ucast (w :: 'a word) :: 'b word) = unat w"
  using unsigned_less [of w] less_le_trans [of "unat w" "2 ^ LENGTH('a)" "2 ^ LENGTH('b)"]
  by (simp add: unsigned_ucast_eq take_bit_nat_eq_self)

lemma unat_ucast_nums [simp]:
  "unat (ucast (w16 :: u16) :: u32) = unat w16"
  "unat (ucast (w32 :: u32) :: u64) = unat w32"
  by (simp_all add: unat_ucast_widen)

section \<open>Lists\<close>

lemma concat_map_upt_Suc:
  "concat (map f [0..<Suc n]) = concat (map f [0..<n]) @ f n"
  by simp

text \<open>Element \<open>r\<close> of a sequence of full blocks of length \<open>m\<close> is found by division.\<close>

lemma nth_concat_blocks:
  assumes "\<And>i. i < n \<Longrightarrow> length (f i) = m" and "r < n * m"
  shows "concat (map f [0..<n]) ! r = f (r div m) ! (r mod m)"
  using assms
proof (induction n)
  case (Suc n)
  have "map length (map f [0..<n]) = replicate n m"
    using Suc.prems(1) by (auto intro!: nth_equalityI)
  then have len: "length (concat (map f [0..<n])) = n * m"
    by (simp only: length_concat sum_list_replicate of_nat_id)
  show ?case
  proof (cases "r < n * m")
    case True
    with Suc len show ?thesis by (simp add: nth_append)
  next
    case False
    then have "n * m \<le> r" "r < n * m + m" using Suc.prems(2) by auto
    then have "r div m = n" and "r mod m = r - n * m"
      by (simp_all add: div_nat_eqI mult.commute modulo_nat_def)
    then show ?thesis using False len by (simp add: nth_append)
  qed
qed simp

end
