(* ===== verification/TextModel.thy ===== *)
theory TextModel
  imports Prelude
begin

text \<open>
  What the sources use of \<open>std::string\<close>, \<open><sstream>\<close> and \<open><cctype>\<close>, on Isabelle's
  \<open>string\<close> (the characters are the bytes): searching and cutting, \<open>getline\<close>, \<open>operator>>\<close>,
  \<open>isspace\<close> and \<open>toupper\<close> of the C locale, \<open>std::to_string\<close> and \<open>std::stoll\<close>.
\<close>

section \<open>Characters\<close>

definition char_nat :: "char \<Rightarrow> nat" where
  "char_nat c = of_char c"

definition is_space :: "char \<Rightarrow> bool" where
  "is_space c \<longleftrightarrow> char_nat c = 32 \<or> (9 \<le> char_nat c \<and> char_nat c \<le> 13)"

definition is_digit :: "char \<Rightarrow> bool" where
  "is_digit c \<longleftrightarrow> 48 \<le> char_nat c \<and> char_nat c \<le> 57"

definition to_upper :: "char \<Rightarrow> char" where
  "to_upper c = (if 97 \<le> char_nat c \<and> char_nat c \<le> 122 then char_of (char_nat c - 32) else c)"

definition upper :: "string \<Rightarrow> string" where
  "upper s = map to_upper s"

text \<open>What a C string holds: the characters before the first NUL.\<close>

definition c_str :: "string \<Rightarrow> string" where
  "c_str s = takeWhile (\<lambda>c. char_nat c \<noteq> 0) s"

section \<open>Searching and cutting\<close>

text \<open>\<open>find(c)\<close>, \<open>find_first_of\<close> and \<open>find_last_of\<close>: \<open>None\<close> is \<open>npos\<close>.\<close>

fun find_first :: "(char \<Rightarrow> bool) \<Rightarrow> string \<Rightarrow> nat option" where
  "find_first P [] = None"
| "find_first P (c # s) = (if P c then Some 0 else map_option Suc (find_first P s))"

definition find_last :: "(char \<Rightarrow> bool) \<Rightarrow> string \<Rightarrow> nat option" where
  "find_last P s = map_option (\<lambda>i. length s - 1 - i) (find_first P (rev s))"

text \<open>\<open>find(needle)\<close>, the first occurrence of a substring.\<close>

definition starts_with :: "string \<Rightarrow> string \<Rightarrow> bool" where
  "starts_with p s \<longleftrightarrow> take (length p) s = p"

fun find_str :: "string \<Rightarrow> string \<Rightarrow> nat option" where
  "find_str p [] = (if p = [] then Some 0 else None)"
| "find_str p (c # s) = (if starts_with p (c # s) then Some 0 else map_option Suc (find_str p s))"

definition trim_left :: "string \<Rightarrow> string" where
  "trim_left s = dropWhile is_space s"

definition trim_right :: "string \<Rightarrow> string" where
  "trim_right s = rev (dropWhile is_space (rev s))"

definition trim :: "string \<Rightarrow> string" where
  "trim s = trim_right (trim_left s)"

text \<open>Joining with a separator.\<close>

fun sep_by :: "string \<Rightarrow> string list \<Rightarrow> string" where
  "sep_by sep [] = []"
| "sep_by sep [x] = x"
| "sep_by sep (x # y # ys) = x @ sep @ sep_by sep (y # ys)"

section \<open>Streams\<close>

text \<open>\<open>while (std::getline(ss, x, d))\<close>: a final delimiter does not open a last empty item.\<close>

function getlines :: "char \<Rightarrow> string \<Rightarrow> string list" where
  "getlines d s = (if s = [] then []
     else takeWhile (\<lambda>c. c \<noteq> d) s # getlines d (tl (dropWhile (\<lambda>c. c \<noteq> d) s)))"
  by pat_completeness auto
termination
proof (relation "measure (\<lambda>(d, s). length s)")
  fix d and s :: string
  assume "s \<noteq> []"
  then have "length (tl (dropWhile (\<lambda>c. c \<noteq> d) s)) < length s"
    using length_dropWhile_le [of "\<lambda>c. c \<noteq> d" s] by (cases s) auto
  then show "((d, tl (dropWhile (\<lambda>c. c \<noteq> d) s)), d, s) \<in> measure (\<lambda>(d, s). length s)" by simp
qed simp

declare getlines.simps [simp del]

text \<open>\<open>iss >> word\<close>: a failed extraction leaves the word as it was.\<close>

definition next_word :: "string \<Rightarrow> string \<Rightarrow> string \<times> string" where
  "next_word prev s =
     (let t = dropWhile is_space s
      in if t = [] then (prev, []) else (takeWhile (\<lambda>c. \<not> is_space c) t, dropWhile (\<lambda>c. \<not> is_space c) t))"

definition has_word :: "string \<Rightarrow> bool" where
  "has_word s \<longleftrightarrow> dropWhile is_space s \<noteq> []"

section \<open>Numbers\<close>

definition digit_char :: "nat \<Rightarrow> char" where
  "digit_char n = char_of (48 + n)"

definition digit_val :: "char \<Rightarrow> nat" where
  "digit_val c = char_nat c - 48"

fun nat_digits :: "nat \<Rightarrow> string" where
  "nat_digits n = (if n < 10 then [digit_char n] else nat_digits (n div 10) @ [digit_char (n mod 10)])"

declare nat_digits.simps [simp del]

definition to_string :: "int \<Rightarrow> string" where
  "to_string i = (if i < 0 then CHR ''-'' # nat_digits (nat (- i)) else nat_digits (nat i))"

definition digits_value :: "string \<Rightarrow> nat" where
  "digits_value ds = foldl (\<lambda>n c. 10 * n + digit_val c) 0 ds"

text \<open>
  \<open>std::stoll\<close> in base 10: white space, a sign, digits; the rest is ignored. It throws
  \<open>invalid_argument\<close> when there is no digit and \<open>out_of_range\<close> outside 64 bits.
\<close>

definition stoll :: "string \<Rightarrow> int res" where
  "stoll s =
     (let t = dropWhile is_space s; neg = (t \<noteq> [] \<and> hd t = CHR ''-'');
          u = (if t \<noteq> [] \<and> (hd t = CHR ''-'' \<or> hd t = CHR ''+'') then tl t else t);
          ds = takeWhile is_digit u; v = (if neg then - int (digits_value ds) else int (digits_value ds)) in
      if ds = [] then Inl InvalidArgument
      else if v < - (2 ^ 63) \<or> 2 ^ 63 \<le> v then Inl OutOfRange
      else Inr v)"

section \<open>Cutting at a character\<close>

lemma cut_none:
  assumes "d \<notin> set x"
  shows "takeWhile (\<lambda>c. c \<noteq> d) x = x" "dropWhile (\<lambda>c. c \<noteq> d) x = []"
  using assms by (induction x) auto

lemma cut_first:
  assumes "d \<notin> set x"
  shows "takeWhile (\<lambda>c. c \<noteq> d) (x @ d # r) = x" "dropWhile (\<lambda>c. c \<noteq> d) (x @ d # r) = d # r"
  using assms by (induction x) auto

lemma getlines_Nil [simp]: "getlines d [] = []"
  by (simp add: getlines.simps)

lemma getlines_last: "d \<notin> set x \<Longrightarrow> x \<noteq> [] \<Longrightarrow> getlines d x = [x]"
  by (subst getlines.simps) (simp add: cut_none)

lemma getlines_item: "d \<notin> set x \<Longrightarrow> getlines d (x @ d # rest) = x # getlines d rest"
  by (subst getlines.simps) (simp add: cut_first)

section \<open>Facts about characters and numbers\<close>

lemma char_nat_char_of: "n < 256 \<Longrightarrow> char_nat (char_of n) = n"
  by (simp add: char_nat_def)

lemma char_nat_less: "char_nat c < 256"
  unfolding char_nat_def using of_char_mod_256 [of c, where 'a = nat] by (metis mod_less_divisor zero_less_numeral)

lemma digit_char_facts:
  assumes "n < 10"
  shows "is_digit (digit_char n)" "digit_val (digit_char n) = n" "\<not> is_space (digit_char n)"
    "digit_char n \<noteq> CHR ''-''" "digit_char n \<noteq> CHR ''+''"
proof -
  have c: "char_nat (digit_char n) = 48 + n" using assms by (simp add: digit_char_def char_nat_char_of)
  then show "is_digit (digit_char n)" "digit_val (digit_char n) = n" "\<not> is_space (digit_char n)"
    using assms by (simp_all add: is_digit_def digit_val_def is_space_def)
  have "char_nat (CHR ''-'') = 45" "char_nat (CHR ''+'') = 43" by (simp_all add: char_nat_def)
  then show "digit_char n \<noteq> CHR ''-''" "digit_char n \<noteq> CHR ''+''" using c by auto
qed

lemma nat_digits_all: "c \<in> set (nat_digits n) \<Longrightarrow> \<exists>d < 10. c = digit_char d"
proof (induction n rule: nat_digits.induct)
  case (1 n)
  moreover have "\<exists>d < 10. digit_char (n mod 10) = digit_char d" by (intro exI [of _ "n mod 10"]) simp
  ultimately show ?case by (cases "n < 10") (auto simp: nat_digits.simps [of n])
qed

lemma nat_digits_nonempty: "nat_digits n \<noteq> []"
  by (subst nat_digits.simps) simp

lemma digits_value_nat_digits: "digits_value (nat_digits n) = n"
proof (induction n rule: nat_digits.induct)
  case (1 n)
  show ?case
  proof (cases "n < 10")
    case True
    then show ?thesis by (simp add: nat_digits.simps [of n] digits_value_def digit_char_facts)
  next
    case False
    then have "digits_value (nat_digits n) = 10 * digits_value (nat_digits (n div 10)) + digit_val (digit_char (n mod 10))"
      by (simp add: nat_digits.simps [of n] digits_value_def)
    then show ?thesis using "1.IH" False by (simp add: digit_char_facts)
  qed
qed

lemma takeWhile_nat_digits: "takeWhile is_digit (nat_digits n) = nat_digits n"
  using nat_digits_all digit_char_facts(1) by (fastforce simp: takeWhile_eq_all_conv)

lemma hd_nat_digits: "\<exists>d < 10. \<exists>ds. nat_digits n = digit_char d # ds"
proof -
  obtain c ds where c: "nat_digits n = c # ds" using nat_digits_nonempty [of n] by (cases "nat_digits n") auto
  then show ?thesis using nat_digits_all [of c n] by auto
qed

text \<open>Printing and reading a 64-bit integer are inverse.\<close>

lemma stoll_to_string:
  assumes "- (2 ^ 63) \<le> i" and "i < 2 ^ 63"
  shows "stoll (to_string i) = Inr i"
proof (cases "i < 0")
  case True
  have "\<not> is_space (CHR ''-'')" by (simp add: is_space_def char_nat_def)
  then show ?thesis
    using True assms nat_digits_nonempty [of "nat (- i)"]
    by (simp add: stoll_def to_string_def takeWhile_nat_digits digits_value_nat_digits)
next
  case False
  obtain d ds where d: "d < 10" "nat_digits (nat i) = digit_char d # ds" using hd_nat_digits by blast
  note f = digit_char_facts [OF d(1)]
  have tw: "takeWhile is_digit ds = ds" and "digits_value (digit_char d # ds) = nat i"
    using takeWhile_nat_digits [of "nat i"] digits_value_nat_digits [of "nat i"] d(2) f(1) by simp_all
  then show ?thesis
    using False assms f d(2) by (simp add: stoll_def to_string_def Let_def tw)
qed

end
