(* ===== verification/Ast.thy ===== *)
theory Ast
  imports TextModel
begin

text \<open>
  The statements that the parser hands to the executor (\<open>src/include/parser/ast.h\<close>), with the
  fields of the source and their default values.
\<close>

datatype statement_type = ST_NONE | ST_CREATE | ST_INSERT | ST_SELECT | ST_DELETE

record create_stmt =
  cr_table :: string
  cr_columns :: "(string \<times> string) list"

record insert_stmt =
  in_table :: string
  in_raw_values :: string

record where_clause =
  wh_column :: string
  wh_op :: string
  wh_value :: string

record order_by =
  ob_column :: string
  ob_ascending :: bool

record join_clause =
  jn_table :: string
  jn_on_left :: string
  jn_on_right :: string

record select_stmt =
  se_columns :: "string list"
  se_table :: string
  se_where :: "where_clause list"
  se_join :: join_clause
  se_order_by :: order_by
  se_has_join :: bool
  se_has_order :: bool

record delete_stmt =
  de_table :: string

record statement =
  st_type :: statement_type
  st_create :: create_stmt
  st_insert :: insert_stmt
  st_select :: select_stmt
  st_delete :: delete_stmt

definition empty_select :: select_stmt where
  "empty_select = \<lparr>se_columns = [], se_table = [], se_where = [],
     se_join = \<lparr>jn_table = [], jn_on_left = [], jn_on_right = []\<rparr>,
     se_order_by = \<lparr>ob_column = [], ob_ascending = True\<rparr>, se_has_join = False, se_has_order = False\<rparr>"

definition empty_statement :: statement where
  "empty_statement = \<lparr>st_type = ST_NONE, st_create = \<lparr>cr_table = [], cr_columns = []\<rparr>,
     st_insert = \<lparr>in_table = [], in_raw_values = []\<rparr>, st_select = empty_select,
     st_delete = \<lparr>de_table = []\<rparr>\<rparr>"

end
