(* ===== verification/ParserModel.thy ===== *)
theory ParserModel
  imports Ast
begin

text \<open>
  The parser (\<open>src/src/parser/parser.cpp\<close>): \<open>strip_delimiters\<close> and \<open>Parser::parse\<close>, which
  cuts the text at keywords with string searches. A stream from which only words are extracted
  is the list of its words; an extraction that fails leaves the variable as it was.
\<close>

section \<open>Helpers\<close>

text \<open>\<open>find_first_not_of(" \t\n\r")\<close> and \<open>find_last_not_of\<close>.\<close>

definition is_blank :: "char \<Rightarrow> bool" where
  "is_blank c \<longleftrightarrow> char_nat c = 32 \<or> char_nat c = 9 \<or> char_nat c = 10 \<or> char_nat c = 13"

definition strip_delimiters :: "string \<Rightarrow> string" where
  "strip_delimiters s =
     (case (find_first (\<lambda>c. \<not> is_blank c) s, find_last (\<lambda>c. \<not> is_blank c) s) of
        (Some b, Some e) \<Rightarrow>
          let t = take (e - b + 1) (drop b s);
              u = (case find_last (\<lambda>c. c = CHR ''.'') t of None \<Rightarrow> t | Some d \<Rightarrow> drop (d + 1) t);
              v = (case find_first (\<lambda>c. c \<in> set ''(,; '') u of None \<Rightarrow> u | Some p \<Rightarrow> take p u)
          in upper v
      | _ \<Rightarrow> [])"

text \<open>The words that repeated extraction gives.\<close>

function words :: "string \<Rightarrow> string list" where
  "words s = (if has_word s then fst (next_word [] s) # words (snd (next_word [] s)) else [])"
  by pat_completeness auto
termination
proof (relation "measure length")
  fix s
  assume "has_word s"
  then obtain c t where t: "dropWhile is_space s = c # t" by (cases "dropWhile is_space s") (auto simp: has_word_def)
  have "\<not> is_space c" using hd_dropWhile [of is_space s] t by simp
  then have "length (snd (next_word [] s)) \<le> length t"
    using t length_dropWhile_le [of "\<lambda>c. \<not> is_space c" t] by (simp add: next_word_def Let_def)
  moreover have "length (c # t) \<le> length s" using length_dropWhile_le [of is_space s] t by simp
  ultimately show "(snd (next_word [] s), s) \<in> measure length" by simp
qed simp

declare words.simps [simp del]

text \<open>One \<open>iss >> word\<close> on the words that are left.\<close>

fun pop_word :: "string \<Rightarrow> string list \<Rightarrow> string \<times> string list" where
  "pop_word prev [] = (prev, [])"
| "pop_word prev (w # ws) = (w, ws)"

text \<open>The loop at the start: drop semicolons and white space from the end.\<close>

definition clean_sql :: "string \<Rightarrow> string" where
  "clean_sql s = rev (dropWhile (\<lambda>c. c = CHR '';'' \<or> is_space c) (rev s))"

section \<open>The statements\<close>

text \<open>
  The text between the first opening and the last closing parenthesis. With the closing one
  first, the length \<open>end_p - start_p - 1\<close> wraps around and the rest of the text is taken.
\<close>

definition paren_body :: "string \<Rightarrow> string option" where
  "paren_body s = (case (find_first (\<lambda>c. c = CHR ''('') s, find_last (\<lambda>c. c = CHR '')'') s) of
       (Some b, Some e) \<Rightarrow> Some (if b < e then take (e - b - 1) (drop (b + 1) s) else drop (b + 1) s)
     | _ \<Rightarrow> None)"

fun column_defs :: "string list \<Rightarrow> (string \<times> string) list" where
  "column_defs [] = []"
| "column_defs (d # ds) = (case words d of
       n # ty # _ \<Rightarrow> (strip_delimiters n, strip_delimiters ty) # column_defs ds
     | _ \<Rightarrow> column_defs ds)"

definition parse_create :: "string \<Rightarrow> string \<Rightarrow> string list \<Rightarrow> create_stmt" where
  "parse_create sql word0 ws0 =
     (let (word1, ws1) = pop_word word0 ws0; (word2, ws2) = pop_word word1 ws1;
          name = (if upper word2 = ''IF''
                  then (let (w3, ws3) = pop_word word2 ws2; (w4, ws4) = pop_word w3 ws3 in fst (pop_word w4 ws4))
                  else word2)
      in \<lparr>cr_table = strip_delimiters name,
          cr_columns = (case paren_body sql of None \<Rightarrow> [] | Some cols \<Rightarrow> column_defs (getlines (CHR '','') cols))\<rparr>)"

text \<open>The second of the two words after the keyword: \<open>INTO table\<close>, \<open>FROM table\<close>.\<close>

definition second_word :: "string \<Rightarrow> string list \<Rightarrow> string" where
  "second_word word0 ws0 = (let (word1, ws1) = pop_word word0 ws0 in fst (pop_word word1 ws1))"

definition parse_insert :: "string \<Rightarrow> string \<Rightarrow> string list \<Rightarrow> insert_stmt" where
  "parse_insert sql word0 ws0 =
     \<lparr>in_table = strip_delimiters (second_word word0 ws0),
      in_raw_values = (case find_str ''VALUES'' sql of None \<Rightarrow> [] | Some v \<Rightarrow> drop (v + 6) sql)\<rparr>"

definition parse_join :: "string \<Rightarrow> select_stmt \<Rightarrow> select_stmt" where
  "parse_join rest s = (case find_str '' INNER JOIN '' rest of None \<Rightarrow> s
     | Some j \<Rightarrow>
        (let join_part = drop (j + 12) rest; s1 = s\<lparr>se_has_join := True\<rparr> in
         case find_str '' ON '' join_part of None \<Rightarrow> s1
         | Some p \<Rightarrow>
            (let s2 = s1\<lparr>se_join := (se_join s1)\<lparr>jn_table := strip_delimiters (take p join_part)\<rparr>\<rparr>;
                 cond_part = drop (p + 4) join_part;
                 on_cond = (case (case find_str '' WHERE '' cond_part of None \<Rightarrow> find_str '' ORDER BY '' cond_part | Some w \<Rightarrow> Some w)
                            of None \<Rightarrow> cond_part | Some w \<Rightarrow> take w cond_part) in
             case find_first (\<lambda>c. c = CHR ''='') on_cond of None \<Rightarrow> s2
             | Some e \<Rightarrow> s2\<lparr>se_join := (se_join s2)\<lparr>jn_on_left := strip_delimiters (take e on_cond),
                 jn_on_right := strip_delimiters (drop (e + 1) on_cond)\<rparr>\<rparr>)))"

text \<open>The conditions: three words each, the word between two of them is skipped.\<close>

fun where_clauses :: "string list \<Rightarrow> where_clause list" where
  "where_clauses (col # op # val # ws) =
     (if strip_delimiters col = ''AND'' then where_clauses ws
      else \<lparr>wh_column = strip_delimiters col, wh_op = op, wh_value = val\<rparr> # where_clauses (tl ws))"
| "where_clauses _ = []"

definition parse_where :: "string \<Rightarrow> where_clause list" where
  "parse_where rest = (case find_str '' WHERE '' rest of None \<Rightarrow> []
     | Some w \<Rightarrow>
        (let where_clause = drop (w + 7) rest;
             cut = (case find_str '' ORDER BY '' where_clause of None \<Rightarrow> where_clause | Some p \<Rightarrow> take p where_clause)
         in where_clauses (words cut)))"

definition parse_order :: "string \<Rightarrow> select_stmt \<Rightarrow> select_stmt" where
  "parse_order rest s = (case find_str '' ORDER BY '' rest of None \<Rightarrow> s
     | Some p \<Rightarrow> s\<lparr>se_has_order := True, se_order_by :=
          (case words (drop (p + 10) rest) of [] \<Rightarrow> se_order_by s
           | [c] \<Rightarrow> (se_order_by s)\<lparr>ob_column := strip_delimiters c\<rparr>
           | c # d # _ \<Rightarrow> \<lparr>ob_column = strip_delimiters c, ob_ascending = (strip_delimiters d \<noteq> ''DESC'')\<rparr>)\<rparr>)"

text \<open>\<open>stream\<close>: what the stream still holds after the keyword; only its first line is read.\<close>

definition parse_select :: "string \<Rightarrow> select_stmt" where
  "parse_select stream =
     (let line = takeWhile (\<lambda>c. char_nat c \<noteq> 10) stream in
      case find_str '' FROM '' line of None \<Rightarrow> empty_select
      | Some f \<Rightarrow>
         (let rest = drop (f + 6) line;
              s0 = empty_select\<lparr>se_columns := map strip_delimiters (getlines (CHR '','') (take f line)),
                     se_table := (if has_word rest then strip_delimiters (fst (next_word [] rest)) else [])\<rparr>
          in parse_order rest ((parse_join rest s0)\<lparr>se_where := parse_where rest\<rparr>)))"

section \<open>The whole\<close>

definition is_valid :: "statement \<Rightarrow> string \<Rightarrow> bool" where
  "is_valid stmt sql = (case st_type stmt of
       ST_CREATE \<Rightarrow> \<not> (cr_table (st_create stmt) = [] \<or> cr_columns (st_create stmt) = [])
     | ST_INSERT \<Rightarrow> \<not> (in_table (st_insert stmt) = [] \<or> in_raw_values (st_insert stmt) = [])
     | ST_SELECT \<Rightarrow> \<not> (se_table (st_select stmt) = [] \<or> se_columns (st_select stmt) = [])
     | ST_DELETE \<Rightarrow> de_table (st_delete stmt) \<noteq> []
     | ST_NONE \<Rightarrow> sql = [])"

definition parse :: "string \<Rightarrow> statement" where
  "parse sql0 =
     (let sql = clean_sql sql0 in
      if \<not> has_word sql then empty_statement
      else
        let (word0, stream) = next_word [] sql; word = upper word0; ws = words stream;
            stmt = (if word = ''CREATE'' then empty_statement\<lparr>st_type := ST_CREATE, st_create := parse_create sql word ws\<rparr>
              else if word = ''INSERT'' then empty_statement\<lparr>st_type := ST_INSERT, st_insert := parse_insert sql word ws\<rparr>
              else if word = ''DELETE'' then empty_statement\<lparr>st_type := ST_DELETE,
                st_delete := \<lparr>de_table = strip_delimiters (second_word word ws)\<rparr>\<rparr>
              else if word = ''SELECT'' then empty_statement\<lparr>st_type := ST_SELECT, st_select := parse_select stream\<rparr>
              else empty_statement)
        in if is_valid stmt sql then stmt else stmt\<lparr>st_type := ST_NONE\<rparr>)"

end
