(* ===== verification/PagerModel.thy ===== *)
theory PagerModel
  imports Prelude
begin

text \<open>
  The pager (\<open>src/src/storage/pager.cpp\<close>, \<open>src/include/storage/pager.h\<close>, \<open>page.h\<close>): one
  file, mapped once at its full size of 1 GB, handed out in pages of 4096 bytes.

  The mapping is an array of pages (\<open>pg_mem\<close>), the file behind it another (\<open>pg_disk\<close>):
  \<open>msync\<close> copies from the first to the second. The element type \<open>'p\<close> is the view the
  client casts a page to. A \<open>Page*\<close> is the byte offset from \<open>file_data\<close>, \<open>None\<close> for
  \<open>nullptr\<close>; the offset is computed in 32-bit arithmetic, as the code does. An access
  outside the mapping is \<open>Segv\<close>. The results of \<open>open\<close>, \<open>ftruncate\<close> and \<open>mmap\<close> are
  arguments of the constructor.
\<close>

definition PAGE_SIZE :: u32 where "PAGE_SIZE = 4096"

definition MAX_FILE_SIZE :: nat where "MAX_FILE_SIZE = 2 ^ 30"

type_synonym ptr = "nat option"

record 'p pager =
  pg_mem :: "nat \<Rightarrow> 'p"
  pg_disk :: "nat \<Rightarrow> 'p"
  pg_num_pages :: u32

definition pager_open :: "bool \<Rightarrow> bool \<Rightarrow> bool \<Rightarrow> (nat \<Rightarrow> 'p) \<Rightarrow> 'p pager res" where
  "pager_open open_ok ftruncate_ok mmap_ok contents =
     (if \<not> open_ok then Inl ExitProcess
      else if \<not> ftruncate_ok then Inl ExitProcess
      else if \<not> mmap_ok then Inl ExitProcess
      else Inr \<lparr>pg_mem = contents, pg_disk = contents, pg_num_pages = 0\<rparr>)"

definition page_addr :: "u32 \<Rightarrow> nat" where
  "page_addr page_id = unat (page_id * PAGE_SIZE)"

definition pager_get_page :: "'p pager \<Rightarrow> u32 \<Rightarrow> ptr" where
  "pager_get_page pg page_id =
     (if page_id \<ge> pg_num_pages pg then None else Some (page_addr page_id))"

definition pager_allocate_page :: "'p pager \<Rightarrow> u32 \<times> 'p pager" where
  "pager_allocate_page pg = (pg_num_pages pg, pg\<lparr>pg_num_pages := pg_num_pages pg + 1\<rparr>)"

definition in_mapping :: "nat \<Rightarrow> bool" where
  "in_mapping a \<longleftrightarrow> a + unat PAGE_SIZE \<le> MAX_FILE_SIZE"

definition pager_flush :: "'p pager \<Rightarrow> u32 \<Rightarrow> 'p pager" where
  "pager_flush pg page_id =
     (let a = page_addr page_id; i = a div unat PAGE_SIZE
      in if in_mapping a then pg\<lparr>pg_disk := (pg_disk pg)(i := pg_mem pg i)\<rparr> else pg)"

definition pager_flush_all :: "'p pager \<Rightarrow> 'p pager" where
  "pager_flush_all pg =
     pg\<lparr>pg_disk := (\<lambda>i. if i < MAX_FILE_SIZE div unat PAGE_SIZE then pg_mem pg i else pg_disk pg i)\<rparr>"

text \<open>The destructor: \<open>msync\<close> of the whole mapping; what is left is the file.\<close>

definition pager_close :: "'p pager \<Rightarrow> (nat \<Rightarrow> 'p)" where
  "pager_close pg = pg_disk (pager_flush_all pg)"

definition pager_clear :: "'p pager \<Rightarrow> 'p pager" where
  "pager_clear pg = pg\<lparr>pg_num_pages := 0\<rparr>"

definition pager_get_num_pages :: "'p pager \<Rightarrow> u32" where
  "pager_get_num_pages pg = pg_num_pages pg"

text \<open>Reading and writing the page behind a pointer.\<close>

definition pager_deref :: "'p pager \<Rightarrow> ptr \<Rightarrow> 'p res" where
  "pager_deref pg p = (case p of None \<Rightarrow> Inl NullDeref
     | Some a \<Rightarrow> if in_mapping a then Inr (pg_mem pg (a div unat PAGE_SIZE)) else Inl Segv)"

definition pager_assign :: "'p pager \<Rightarrow> ptr \<Rightarrow> 'p \<Rightarrow> 'p pager res" where
  "pager_assign pg p x = (case p of None \<Rightarrow> Inl NullDeref
     | Some a \<Rightarrow> if in_mapping a
                 then Inr (pg\<lparr>pg_mem := (pg_mem pg)(a div unat PAGE_SIZE := x)\<rparr>)
                 else Inl Segv)"

section \<open>Addresses\<close>

text \<open>The mapping holds \<open>2 ^ 18\<close> pages; ids below that bound are pairwise distinct addresses.\<close>

definition max_pages :: nat where "max_pages = 2 ^ 18"

named_theorems pager_defs

lemmas pager_consts [pager_defs] = PAGE_SIZE_def MAX_FILE_SIZE_def max_pages_def in_mapping_def

lemma page_addr_small: "unat pid < 2 ^ 20 \<Longrightarrow> page_addr pid = 4096 * unat pid"
  by (simp add: page_addr_def PAGE_SIZE_def unat_word_ariths)

lemma page_addr_div [simp]: "unat pid < max_pages \<Longrightarrow> page_addr pid div unat PAGE_SIZE = unat pid"
  by (simp add: page_addr_small max_pages_def) (simp add: PAGE_SIZE_def)

lemma in_mapping_iff: "unat pid < 2 ^ 20 \<Longrightarrow> in_mapping (page_addr pid) \<longleftrightarrow> unat pid < max_pages"
  by (simp add: page_addr_small pager_defs) arith

lemma in_mapping_small [simp]: "unat pid < max_pages \<Longrightarrow> in_mapping (page_addr pid)"
  using in_mapping_iff [of pid] by (simp add: max_pages_def)

lemma page_addr_inj:
  "unat p < max_pages \<Longrightarrow> unat q < max_pages \<Longrightarrow> page_addr p = page_addr q \<longleftrightarrow> p = q"
  by (auto simp: page_addr_small max_pages_def word_unat_eq_iff)

lemma pager_deref_page [simp]:
  "unat pid < max_pages \<Longrightarrow> pager_deref pg (Some (page_addr pid)) = Inr (pg_mem pg (unat pid))"
  by (simp add: pager_deref_def)

lemma pager_assign_page [simp]:
  "unat pid < max_pages \<Longrightarrow>
   pager_assign pg (Some (page_addr pid)) x = Inr (pg\<lparr>pg_mem := (pg_mem pg)(unat pid := x)\<rparr>)"
  by (simp add: pager_assign_def)

lemma pager_flush_simps [simp]:
  "pg_mem (pager_flush pg pid) = pg_mem pg"
  "pg_num_pages (pager_flush pg pid) = pg_num_pages pg"
  by (simp_all add: pager_flush_def Let_def)

lemma pager_flush_disk:
  "unat pid < max_pages \<Longrightarrow>
   pg_disk (pager_flush pg pid) = (pg_disk pg)(unat pid := pg_mem pg (unat pid))"
  by (simp add: pager_flush_def Let_def)

text \<open>Allocation hands out the next id, and its page is then valid.\<close>

lemma unat_next_page [simp]: "unat n \<le> max_pages \<Longrightarrow> unat (n + 1 :: u32) = Suc (unat n)"
  by (simp add: unat_word_ariths max_pages_def)

lemma page_less_unat: "p < q \<longleftrightarrow> unat p < unat q" for p q :: u32
  by (rule word_less_nat_alt)

end
