(* ===== verification/CacheModel.thy ===== *)
theory CacheModel
  imports PagerModel
begin

text \<open>
  The page cache (\<open>src/src/cache/lru_cache.cpp\<close>, \<open>cache_manager.cpp\<close>).

  \<open>LRUCache\<close> keeps a \<open>std::list\<close> of entries, most recently used first, and an
  \<open>unordered_map\<close> from page ids to iterators into that list. A list node is identified by a
  number, its iterator: \<open>lru_list\<close> is the list of nodes with their iterators and \<open>lru_map\<close>
  the map. Following an iterator of a node that is not in the list is \<open>BadIterator\<close>,
  \<open>back()\<close> of the empty list is \<open>EmptyBack\<close>. Every public operation holds
  \<open>cache_mutex\<close> from its first to its last statement, so each is one atomic step.

  \<open>'p cachemgr\<close> is a \<open>CacheManager\<close>: the cache and the pager both hold references to.
\<close>

section \<open>State\<close>

record centry =
  ce_page_id :: u32
  ce_page :: ptr
  ce_dirty :: bool

type_synonym lnode = "nat \<times> centry"

record lru =
  lru_capacity :: nat
  lru_list :: "lnode list"
  lru_map :: "u32 \<rightharpoonup> nat"
  lru_fresh :: nat

record 'p cachemgr =
  cm_lru :: lru
  cm_pager :: "'p pager"

section \<open>LRUCache\<close>

definition lru_new :: "nat \<Rightarrow> lru" where
  "lru_new capacity = \<lparr>lru_capacity = capacity, lru_list = [], lru_map = Map.empty, lru_fresh = 0\<rparr>"

text \<open>\<open>lru_list.splice(lru_list.begin(), lru_list, it)\<close>: the node moves to the front.\<close>

definition lru_splice :: "nat \<Rightarrow> lnode list \<Rightarrow> lnode list res" where
  "lru_splice it xs = (case map_of xs it of None \<Rightarrow> Inl BadIterator
     | Some e \<Rightarrow> Inr ((it, e) # filter (\<lambda>x. fst x \<noteq> it) xs))"

definition lru_get :: "lru \<Rightarrow> u32 \<Rightarrow> (ptr \<times> lru) res" where
  "lru_get c page_id = (case lru_map c page_id of None \<Rightarrow> Inr (None, c)
     | Some it \<Rightarrow> rbind (lru_splice it (lru_list c)) (\<lambda>xs.
         case map_of xs it of None \<Rightarrow> Inl BadIterator
         | Some e \<Rightarrow> Inr (ce_page e, c\<lparr>lru_list := xs\<rparr>)))"

definition evict_internal :: "'p cachemgr \<Rightarrow> 'p cachemgr res" where
  "evict_internal s =
     (let c = cm_lru s in
      if lru_list c = [] then Inl EmptyBack
      else let e = snd (last (lru_list c));
               pg = (if ce_dirty e then pager_flush (cm_pager s) (ce_page_id e) else cm_pager s)
           in Inr (s\<lparr>cm_lru := c\<lparr>lru_list := butlast (lru_list c),
                                 lru_map := (lru_map c)(ce_page_id e := None)\<rparr>,
                     cm_pager := pg\<rparr>))"

definition lru_set_node :: "nat \<Rightarrow> ptr \<Rightarrow> bool \<Rightarrow> lnode list \<Rightarrow> lnode list" where
  "lru_set_node it page dirty xs =
     map (\<lambda>(i, e). (i, if i = it then e\<lparr>ce_page := page, ce_dirty := dirty\<rparr> else e)) xs"

definition lru_put :: "'p cachemgr \<Rightarrow> u32 \<Rightarrow> ptr \<Rightarrow> bool \<Rightarrow> 'p cachemgr res" where
  "lru_put s page_id page dirty =
     (let c = cm_lru s in
      case lru_map c page_id of
        Some it \<Rightarrow> rbind (lru_splice it (lru_set_node it page dirty (lru_list c)))
                     (\<lambda>xs. Inr (s\<lparr>cm_lru := c\<lparr>lru_list := xs\<rparr>\<rparr>))
      | None \<Rightarrow>
          rbind (if length (lru_list c) \<ge> lru_capacity c then evict_internal s else Inr s) (\<lambda>s'.
            let c' = cm_lru s'; it = lru_fresh c' in
            Inr (s'\<lparr>cm_lru := c'\<lparr>
              lru_list := (it, \<lparr>ce_page_id = page_id, ce_page = page, ce_dirty = dirty\<rparr>) # lru_list c',
              lru_map := (lru_map c')(page_id \<mapsto> it),
              lru_fresh := Suc it\<rparr>\<rparr>)))"

definition lru_exists :: "lru \<Rightarrow> u32 \<Rightarrow> bool" where
  "lru_exists c page_id \<longleftrightarrow> lru_map c page_id \<noteq> None"

fun flush_entries :: "lnode list \<Rightarrow> 'p pager \<Rightarrow> lnode list \<times> 'p pager" where
  "flush_entries [] pg = ([], pg)"
| "flush_entries ((i, e) # xs) pg =
     (if ce_dirty e
      then let (ys, pg') = flush_entries xs (pager_flush pg (ce_page_id e))
           in ((i, e\<lparr>ce_dirty := False\<rparr>) # ys, pg')
      else let (ys, pg') = flush_entries xs pg in ((i, e) # ys, pg'))"

definition flush_all_internal :: "'p cachemgr \<Rightarrow> 'p cachemgr" where
  "flush_all_internal s =
     (let (xs, pg) = flush_entries (lru_list (cm_lru s)) (cm_pager s)
      in s\<lparr>cm_lru := (cm_lru s)\<lparr>lru_list := xs\<rparr>, cm_pager := pg\<rparr>)"

definition lru_flush_all :: "'p cachemgr \<Rightarrow> 'p cachemgr" where
  "lru_flush_all s = flush_all_internal s"

definition lru_clear :: "'p cachemgr \<Rightarrow> 'p cachemgr" where
  "lru_clear s =
     (let s' = flush_all_internal s
      in s'\<lparr>cm_lru := (cm_lru s')\<lparr>lru_list := [], lru_map := Map.empty\<rparr>\<rparr>)"

definition lru_evict :: "'p cachemgr \<Rightarrow> 'p cachemgr res" where
  "lru_evict s = evict_internal s"

section \<open>CacheManager\<close>

definition cm_new :: "'p pager \<Rightarrow> nat \<Rightarrow> 'p cachemgr" where
  "cm_new pg capacity = \<lparr>cm_lru = lru_new capacity, cm_pager = pg\<rparr>"

definition cm_get_page :: "'p cachemgr \<Rightarrow> u32 \<Rightarrow> (ptr \<times> 'p cachemgr) res" where
  "cm_get_page s page_id =
     rbind (lru_get (cm_lru s) page_id) (\<lambda>(page, c).
       let s1 = s\<lparr>cm_lru := c\<rparr> in
       if page \<noteq> None then Inr (page, s1)
       else let page' = pager_get_page (cm_pager s1) page_id in
            rbind (lru_put s1 page_id page' False) (\<lambda>s2. Inr (page', s2)))"

definition cm_mark_dirty :: "'p cachemgr \<Rightarrow> u32 \<Rightarrow> 'p cachemgr res" where
  "cm_mark_dirty s page_id =
     rbind (lru_get (cm_lru s) page_id) (\<lambda>(page, c).
       let s1 = s\<lparr>cm_lru := c\<rparr> in
       if page \<noteq> None then lru_put s1 page_id page True else Inr s1)"

definition cm_flush :: "'p cachemgr \<Rightarrow> 'p cachemgr" where
  "cm_flush s = lru_flush_all s"

definition cm_clear :: "'p cachemgr \<Rightarrow> 'p cachemgr" where
  "cm_clear s = lru_clear s"

section \<open>The list and the map agree\<close>

definition lru_inv :: "lru \<Rightarrow> bool" where
  "lru_inv c \<longleftrightarrow>
     distinct (map fst (lru_list c)) \<and>
     distinct (map (ce_page_id \<circ> snd) (lru_list c)) \<and>
     (\<forall>pid it. lru_map c pid = Some it \<longleftrightarrow>
        (\<exists>e. (it, e) \<in> set (lru_list c) \<and> ce_page_id e = pid)) \<and>
     (\<forall>(i, e) \<in> set (lru_list c). i < lru_fresh c) \<and>
     length (lru_list c) \<le> lru_capacity c \<and> 0 < lru_capacity c"

lemma lru_invI:
  assumes "distinct (map fst (lru_list c))" "distinct (map (ce_page_id \<circ> snd) (lru_list c))"
    "\<And>pid it. lru_map c pid = Some it \<longleftrightarrow> (\<exists>e. (it, e) \<in> set (lru_list c) \<and> ce_page_id e = pid)"
    "\<And>i e. (i, e) \<in> set (lru_list c) \<Longrightarrow> i < lru_fresh c"
    "length (lru_list c) \<le> lru_capacity c" "0 < lru_capacity c"
  shows "lru_inv c"
  using assms unfolding lru_inv_def by blast

lemma lru_invD:
  assumes "lru_inv c"
  shows "distinct (map fst (lru_list c))" "distinct (map (ce_page_id \<circ> snd) (lru_list c))"
    "\<And>pid it. lru_map c pid = Some it \<longleftrightarrow> (\<exists>e. (it, e) \<in> set (lru_list c) \<and> ce_page_id e = pid)"
    "\<And>i e. (i, e) \<in> set (lru_list c) \<Longrightarrow> i < lru_fresh c"
    "length (lru_list c) \<le> lru_capacity c" "0 < lru_capacity c"
  using assms unfolding lru_inv_def by blast+

text \<open>
  What the cache means: the entries in order of recency. The specification below works on
  that list alone; the refinement lemmas show that the code, with its iterators, does the same.
\<close>

definition lru_entries :: "lru \<Rightarrow> centry list" where
  "lru_entries c = map snd (lru_list c)"

definition lru_find :: "u32 \<Rightarrow> centry list \<Rightarrow> centry option" where
  "lru_find pid es = find (\<lambda>e. ce_page_id e = pid) es"

definition lru_rest :: "u32 \<Rightarrow> centry list \<Rightarrow> centry list" where
  "lru_rest pid es = filter (\<lambda>e. ce_page_id e \<noteq> pid) es"

definition spec_touch :: "u32 \<Rightarrow> centry list \<Rightarrow> centry list" where
  "spec_touch pid es = (case lru_find pid es of None \<Rightarrow> es | Some e \<Rightarrow> e # lru_rest pid es)"

definition spec_put :: "nat \<Rightarrow> centry \<Rightarrow> centry list \<Rightarrow> centry list" where
  "spec_put cap e es =
     (case lru_find (ce_page_id e) es of
        Some _ \<Rightarrow> e # lru_rest (ce_page_id e) es
      | None \<Rightarrow> e # (if length es \<ge> cap then butlast es else es))"

lemma lru_find_None_iff: "lru_find pid es = None \<longleftrightarrow> pid \<notin> ce_page_id ` set es"
  by (auto simp: lru_find_def find_None_iff)

lemma lru_find_SomeD: "lru_find pid es = Some e \<Longrightarrow> e \<in> set es \<and> ce_page_id e = pid"
  by (auto simp: lru_find_def find_Some_iff)

lemma lru_find_unique:
  assumes "distinct (map ce_page_id es)" and "e \<in> set es" and "ce_page_id e = pid"
  shows "lru_find pid es = Some e"
proof (cases "lru_find pid es")
  case None
  then show ?thesis using assms by (auto simp: lru_find_None_iff)
next
  case (Some e')
  then show ?thesis
    using assms lru_find_SomeD [OF Some] by (metis distinct_map inj_onD)
qed

lemma lru_inv_new: "0 < cap \<Longrightarrow> lru_inv (lru_new cap)"
  by (simp add: lru_inv_def lru_new_def)

lemma lru_inv_distinct_ids: "lru_inv c \<Longrightarrow> distinct (map ce_page_id (lru_entries c))"
  by (simp add: lru_inv_def lru_entries_def)

text \<open>A map hit is a node of the list, and its position in the list is where the id is.\<close>

lemma lru_map_node:
  assumes "lru_inv c"
  shows "(case lru_map c pid of None \<Rightarrow> lru_find pid (lru_entries c) = None
          | Some it \<Rightarrow> \<exists>e. (it, e) \<in> set (lru_list c) \<and> map_of (lru_list c) it = Some e \<and>
                         lru_find pid (lru_entries c) = Some e \<and> ce_page_id e = pid)"
proof (cases "lru_map c pid")
  case None
  have "pid \<notin> ce_page_id ` set (lru_entries c)"
  proof
    assume "pid \<in> ce_page_id ` set (lru_entries c)"
    then obtain it e where "(it, e) \<in> set (lru_list c)" "ce_page_id e = pid"
      by (auto simp: lru_entries_def)
    then have "lru_map c pid = Some it" using assms by (auto simp: lru_inv_def)
    with None show False by simp
  qed
  then show ?thesis using None by (simp add: lru_find_None_iff)
next
  case (Some it)
  then obtain e where e: "(it, e) \<in> set (lru_list c)" "ce_page_id e = pid"
    using assms by (auto simp: lru_inv_def)
  then have "map_of (lru_list c) it = Some e" using assms by (simp add: lru_inv_def)
  moreover have "lru_find pid (lru_entries c) = Some e"
    using lru_find_unique [OF lru_inv_distinct_ids [OF assms]] e by (force simp: lru_entries_def)
  ultimately show ?thesis using Some e by auto
qed

text \<open>Removing a node by its iterator removes exactly the entry with its page id.\<close>

lemma node_id_iff:
  assumes "distinct (map fst xs)" and "distinct (map (ce_page_id \<circ> snd) xs)"
    and "(it, e) \<in> set xs" and "x \<in> set xs"
  shows "fst x \<noteq> it \<longleftrightarrow> ce_page_id (snd x) \<noteq> ce_page_id e"
  using assms by (metis comp_apply distinct_map fst_conv inj_onD snd_conv)

lemma filter_node_entries:
  assumes "distinct (map fst xs)" and "distinct (map (ce_page_id \<circ> snd) xs)"
    and "(it, e) \<in> set xs"
  shows "map snd (filter (\<lambda>x. fst x \<noteq> it) xs) = lru_rest (ce_page_id e) (map snd xs)"
proof -
  have "filter (\<lambda>x. fst x \<noteq> it) xs = filter (\<lambda>x. ce_page_id (snd x) \<noteq> ce_page_id e) xs"
    by (rule filter_cong [OF refl]) (rule node_id_iff [OF assms])
  then show ?thesis by (simp add: lru_rest_def filter_map comp_def)
qed

text \<open>
  Moving a node to the front, with its page and dirty bit possibly rewritten, keeps the
  invariant: the set of nodes is the same up to the entry of the moved one.
\<close>

lemma lru_inv_front:
  assumes inv: "lru_inv c" and e: "(it, e) \<in> set (lru_list c)" and id: "ce_page_id e' = ce_page_id e"
  shows "lru_inv (c\<lparr>lru_list := (it, e') # filter (\<lambda>x. fst x \<noteq> it) (lru_list c)\<rparr>)"
proof -
  let ?xs = "lru_list c" and ?ys = "filter (\<lambda>x. fst x \<noteq> it) (lru_list c)"
  note d = lru_invD(1,2) [OF inv] and map = lru_invD(3) [OF inv]
  have ids: "ce_page_id (snd x) \<noteq> ce_page_id e" if "x \<in> set ?ys" for x
    using that node_id_iff [OF d e, of x] by simp
  have uniq: "(\<exists>e. (it, e) \<in> set ?xs \<and> ce_page_id e = pid) \<longleftrightarrow> ce_page_id e = pid" for pid
  proof
    assume "\<exists>e. (it, e) \<in> set ?xs \<and> ce_page_id e = pid"
    then obtain e'' where "(it, e'') \<in> set ?xs" "ce_page_id e'' = pid" by (elim exE conjE)
    then show "ce_page_id e = pid" using eq_key_imp_eq_value [OF d(1) e] by simp
  qed (use e in auto)
  let ?c = "c\<lparr>lru_list := (it, e') # ?ys\<rparr>"
  show ?thesis
  proof (rule lru_invI)
    show "distinct (map fst (lru_list ?c))"
      using d by (auto simp: distinct_map_filter)
    have "ce_page_id e' \<notin> (ce_page_id \<circ> snd) ` set ?ys"
    proof
      assume "ce_page_id e' \<in> (ce_page_id \<circ> snd) ` set ?ys"
      then obtain x where "x \<in> set ?ys" "ce_page_id e' = ce_page_id (snd x)"
        unfolding image_iff comp_apply by (elim bexE)
      then show False using ids [of x] id by simp
    qed
    then show "distinct (map (ce_page_id \<circ> snd) (lru_list ?c))"
      using d by (simp add: distinct_map_filter image_comp)
    show "lru_map ?c pid = Some i \<longleftrightarrow> (\<exists>e. (i, e) \<in> set (lru_list ?c) \<and> ce_page_id e = pid)" for pid i
      using map uniq id by (cases "i = it") simp_all
    show "i < lru_fresh ?c" if "(i, x) \<in> set (lru_list ?c)" for i x
      using that lru_invD(4) [OF inv] e by auto
    show "length (lru_list ?c) \<le> lru_capacity ?c"
      using length_filter_less [OF e, of "\<lambda>x. fst x \<noteq> it"] lru_invD(5) [OF inv] by simp
    show "0 < lru_capacity ?c" using lru_invD(6) [OF inv] by simp
  qed
qed

section \<open>Refinement of the recency list\<close>

theorem lru_get_refines:
  assumes inv: "lru_inv c"
  shows "\<exists>c'. lru_get c pid = Inr (Option.bind (lru_find pid (lru_entries c)) ce_page, c') \<and>
              lru_inv c' \<and> lru_entries c' = spec_touch pid (lru_entries c) \<and>
              lru_capacity c' = lru_capacity c"
proof (cases "lru_map c pid")
  case None
  then show ?thesis
    using lru_map_node [OF inv, of pid] inv by (simp add: lru_get_def spec_touch_def)
next
  case (Some it)
  then obtain e where e: "(it, e) \<in> set (lru_list c)" "map_of (lru_list c) it = Some e"
      "lru_find pid (lru_entries c) = Some e" "ce_page_id e = pid"
    using lru_map_node [OF inv, of pid] by auto
  let ?c = "c\<lparr>lru_list := (it, e) # filter (\<lambda>x. fst x \<noteq> it) (lru_list c)\<rparr>"
  have "lru_get c pid = Inr (ce_page e, ?c)"
    using Some e by (simp add: lru_get_def lru_splice_def)
  moreover have "lru_inv ?c" using lru_inv_front [OF inv e(1) refl] .
  moreover have "lru_entries ?c = spec_touch pid (lru_entries c)"
    using e filter_node_entries [OF lru_invD(1,2) [OF inv] e(1)]
    by (simp add: spec_touch_def lru_entries_def)
  ultimately show ?thesis using e by auto
qed

lemma set_node_map_of:
  "map_of xs it = Some e \<Longrightarrow>
   map_of (lru_set_node it page dirty xs) it = Some (e\<lparr>ce_page := page, ce_dirty := dirty\<rparr>)"
  by (induction xs) (auto simp: lru_set_node_def split: if_splits)

lemma set_node_filter:
  "filter (\<lambda>x. fst x \<noteq> it) (lru_set_node it page dirty xs) = filter (\<lambda>x. fst x \<noteq> it) xs"
  by (induction xs) (auto simp: lru_set_node_def)

text \<open>Evicting from a non-empty list drops the last node and its map entry, and nothing else.\<close>

lemma evict_internal_inv:
  assumes inv: "lru_inv (cm_lru s)" and ne: "lru_list (cm_lru s) \<noteq> []"
  shows "\<exists>s'. evict_internal s = Inr s' \<and> lru_inv (cm_lru s') \<and>
          lru_entries (cm_lru s') = butlast (lru_entries (cm_lru s)) \<and>
          lru_capacity (cm_lru s') = lru_capacity (cm_lru s) \<and>
          length (lru_list (cm_lru s')) < lru_capacity (cm_lru s') \<and>
          cm_pager s' = (let e = last (lru_entries (cm_lru s))
             in if ce_dirty e then pager_flush (cm_pager s) (ce_page_id e) else cm_pager s)"
proof -
  let ?c = "cm_lru s"
  obtain xs it e where xs: "lru_list ?c = xs @ [(it, e)]"
    using ne by (metis rev_exhaust surj_pair)
  let ?c' = "?c\<lparr>lru_list := xs, lru_map := (lru_map ?c)(ce_page_id e := None)\<rparr>"
  note d = lru_invD [OF inv, unfolded xs]
  have "lru_inv ?c'"
  proof (rule lru_invI)
    show "lru_map ?c' pid = Some i \<longleftrightarrow> (\<exists>e. (i, e) \<in> set (lru_list ?c') \<and> ce_page_id e = pid)" for pid i
    proof (cases "pid = ce_page_id e")
      case True
      have "ce_page_id e' \<noteq> ce_page_id e" if "(i, e') \<in> set xs" for e'
        using d(2) that by (auto simp: rev_image_eqI)
      then show ?thesis using True by auto
    next
      case False
      then show ?thesis using d(3) [of pid i] by auto
    qed
    show "i < lru_fresh ?c'" if "(i, x) \<in> set (lru_list ?c')" for i x
      using that d(4) [of i x] by simp
  qed (use d(1,2,5,6) in simp_all)
  moreover have "evict_internal s = Inr (s\<lparr>cm_lru := ?c', cm_pager :=
      (if ce_dirty e then pager_flush (cm_pager s) (ce_page_id e) else cm_pager s)\<rparr>)"
    by (simp add: evict_internal_def Let_def xs)
  ultimately show ?thesis using d(5) by (simp add: lru_entries_def xs)
qed

lemma lru_inv_push:
  assumes inv: "lru_inv c" and new: "lru_map c pid = None" and len: "length (lru_list c) < lru_capacity c"
    and e: "ce_page_id e = pid"
  shows "lru_inv (c\<lparr>lru_list := (lru_fresh c, e) # lru_list c,
                    lru_map := (lru_map c)(pid \<mapsto> lru_fresh c), lru_fresh := Suc (lru_fresh c)\<rparr>)"
    (is "lru_inv ?c")
proof (rule lru_invI)
  note d = lru_invD [OF inv]
  have fresh: "lru_fresh c \<notin> fst ` set (lru_list c)" using d(4) by fastforce
  then show "distinct (map fst (lru_list ?c))" using d(1) by simp
  have "pid \<notin> ce_page_id ` snd ` set (lru_list c)" using new d(3) by force
  then show "distinct (map (ce_page_id \<circ> snd) (lru_list ?c))"
    using d(2) e by (auto simp: image_comp)
  show "lru_map ?c p = Some i \<longleftrightarrow> (\<exists>e. (i, e) \<in> set (lru_list ?c) \<and> ce_page_id e = p)" for p i
    using d(3) [of p i] new fresh e by (cases "p = pid") (auto simp: image_iff)
  show "i < lru_fresh ?c" if "(i, x) \<in> set (lru_list ?c)" for i x
    using that d(4) [of i x] by (auto simp: less_Suc_eq)
qed (use len lru_invD(6) [OF inv] in auto)

text \<open>
  \<open>put\<close> on the recency list: a hit rewrites the entry and moves it to the front, a miss
  pushes a new entry, after evicting the last one when the cache is full. Only the eviction
  of a dirty entry touches the pager.
\<close>

definition spec_put_pager :: "nat \<Rightarrow> u32 \<Rightarrow> centry list \<Rightarrow> 'p pager \<Rightarrow> 'p pager" where
  "spec_put_pager cap pid es pg =
     (if lru_find pid es = None \<and> length es \<ge> cap \<and> ce_dirty (last es)
      then pager_flush pg (ce_page_id (last es)) else pg)"

text \<open>What \<open>put\<close> promises, for the entry \<open>e\<close> it stores.\<close>

definition put_ok :: "'p cachemgr \<Rightarrow> centry \<Rightarrow> 'p cachemgr \<Rightarrow> bool" where
  "put_ok s e s' \<longleftrightarrow> lru_inv (cm_lru s') \<and>
     lru_entries (cm_lru s') = spec_put (lru_capacity (cm_lru s)) e (lru_entries (cm_lru s)) \<and>
     lru_capacity (cm_lru s') = lru_capacity (cm_lru s) \<and>
     cm_pager s' = spec_put_pager (lru_capacity (cm_lru s)) (ce_page_id e) (lru_entries (cm_lru s)) (cm_pager s)"

lemma lru_put_hit:
  assumes inv: "lru_inv (cm_lru s)" and hit: "lru_map (cm_lru s) pid = Some it"
  shows "\<exists>s'. lru_put s pid page dirty = Inr s' \<and> put_ok s \<lparr>ce_page_id = pid, ce_page = page, ce_dirty = dirty\<rparr> s'"
proof -
  let ?c = "cm_lru s" and ?e = "\<lparr>ce_page_id = pid, ce_page = page, ce_dirty = dirty\<rparr>"
  obtain e where e: "(it, e) \<in> set (lru_list ?c)" "map_of (lru_list ?c) it = Some e"
      "lru_find pid (lru_entries ?c) = Some e" "ce_page_id e = pid"
    using lru_map_node [OF inv, of pid] hit by auto
  have e': "e\<lparr>ce_page := page, ce_dirty := dirty\<rparr> = ?e" using e(4) by (cases e) simp
  let ?c' = "?c\<lparr>lru_list := (it, ?e) # filter (\<lambda>x. fst x \<noteq> it) (lru_list ?c)\<rparr>"
  have "lru_put s pid page dirty = Inr (s\<lparr>cm_lru := ?c'\<rparr>)"
    using hit e e'
    by (simp add: lru_put_def lru_splice_def set_node_map_of [OF e(2)] set_node_filter Let_def)
  moreover have "lru_inv ?c'" using lru_inv_front [OF inv e(1)] e(4) by simp
  moreover have "lru_entries ?c' = spec_put (lru_capacity ?c) ?e (lru_entries ?c)"
    using e filter_node_entries [OF lru_invD(1,2) [OF inv] e(1)]
    by (simp add: spec_put_def lru_entries_def)
  ultimately show ?thesis using e(3) by (simp add: put_ok_def spec_put_pager_def)
qed

lemma lru_put_miss:
  assumes inv: "lru_inv (cm_lru s)" and miss: "lru_map (cm_lru s) pid = None"
  shows "\<exists>s'. lru_put s pid page dirty = Inr s' \<and> put_ok s \<lparr>ce_page_id = pid, ce_page = page, ce_dirty = dirty\<rparr> s'"
proof -
  let ?c = "cm_lru s" and ?e = "\<lparr>ce_page_id = pid, ce_page = page, ce_dirty = dirty\<rparr>"
  have none: "lru_find pid (lru_entries ?c) = None" using lru_map_node [OF inv, of pid] miss by simp
  have len: "length (lru_entries ?c) = length (lru_list ?c)" by (simp add: lru_entries_def)
  let ?push = "\<lambda>s'. s'\<lparr>cm_lru := (cm_lru s')\<lparr>
      lru_list := (lru_fresh (cm_lru s'), ?e) # lru_list (cm_lru s'),
      lru_map := (lru_map (cm_lru s'))(pid \<mapsto> lru_fresh (cm_lru s')),
      lru_fresh := Suc (lru_fresh (cm_lru s'))\<rparr>\<rparr>"
  show ?thesis
  proof (cases "length (lru_list ?c) \<ge> lru_capacity ?c")
    case False
    then have "lru_put s pid page dirty = Inr (?push s)"
      using miss by (simp add: lru_put_def Let_def)
    moreover have "lru_inv (cm_lru (?push s))"
      using lru_inv_push [OF inv miss, of ?e] False by simp
    ultimately show ?thesis
      using False none by (simp add: put_ok_def spec_put_def spec_put_pager_def lru_entries_def)
  next
    case True
    then have ne: "lru_list ?c \<noteq> []" using lru_invD(6) [OF inv] by auto
    from evict_internal_inv [OF inv ne] obtain s' where s': "evict_internal s = Inr s'"
      "lru_inv (cm_lru s')" "lru_entries (cm_lru s') = butlast (lru_entries ?c)"
      "lru_capacity (cm_lru s') = lru_capacity ?c"
      "length (lru_list (cm_lru s')) < lru_capacity (cm_lru s')"
      "cm_pager s' = (let e = last (lru_entries ?c)
         in if ce_dirty e then pager_flush (cm_pager s) (ce_page_id e) else cm_pager s)"
      by blast
    have "lru_map (cm_lru s') pid = None"
      using s'(1) miss by (auto simp: evict_internal_def Let_def split: if_splits)
    then have "lru_inv (cm_lru (?push s'))"
      using lru_inv_push [OF s'(2) _ s'(5), of pid ?e] by simp
    moreover have "lru_put s pid page dirty = Inr (?push s')"
      using miss True s'(1) by (simp add: lru_put_def Let_def)
    moreover have "lru_entries (cm_lru (?push s')) = ?e # butlast (lru_entries ?c)"
      using s'(3) by (simp add: lru_entries_def)
    ultimately show ?thesis
      using True none len s'(4,6) by (simp add: put_ok_def spec_put_def spec_put_pager_def Let_def)
  qed
qed

theorem lru_put_refines:
  assumes inv: "lru_inv (cm_lru s)"
  shows "\<exists>s'. lru_put s pid page dirty = Inr s' \<and> put_ok s \<lparr>ce_page_id = pid, ce_page = page, ce_dirty = dirty\<rparr> s'"
  using lru_put_hit [OF inv] lru_put_miss [OF inv] by (cases "lru_map (cm_lru s) pid") blast+

section \<open>The manager is transparent\<close>

text \<open>
  A cached pointer that is not null is the address the pager would compute. A null pointer
  can be cached too (\<open>get_page\<close> of an id that is not allocated yet); it is never dirty and
  the next \<open>get_page\<close> asks the pager again.
\<close>

definition entry_ok :: "u32 \<Rightarrow> centry \<Rightarrow> bool" where
  "entry_ok n e \<longleftrightarrow> (case ce_page e of None \<Rightarrow> \<not> ce_dirty e
     | Some a \<Rightarrow> ce_page_id e < n \<and> a = page_addr (ce_page_id e))"

definition cm_inv :: "'p cachemgr \<Rightarrow> bool" where
  "cm_inv s \<longleftrightarrow> lru_inv (cm_lru s) \<and>
     (\<forall>e \<in> set (lru_entries (cm_lru s)). entry_ok (pg_num_pages (cm_pager s)) e)"

definition cm_ids :: "'p cachemgr \<Rightarrow> u32 list" where
  "cm_ids s = map ce_page_id (lru_entries (cm_lru s))"

definition pages_eq :: "'p pager \<Rightarrow> 'p pager \<Rightarrow> bool" where
  "pages_eq pg pg' \<longleftrightarrow> pg_mem pg' = pg_mem pg \<and> pg_num_pages pg' = pg_num_pages pg"

lemma pages_eq_refl [simp]: "pages_eq pg pg"
  by (simp add: pages_eq_def)

lemma pages_eq_trans [trans]: "pages_eq a b \<Longrightarrow> pages_eq b c \<Longrightarrow> pages_eq a c"
  by (simp add: pages_eq_def)

lemma spec_put_pager_pages_eq [simp]: "pages_eq pg (spec_put_pager cap pid es pg)"
  by (simp add: pages_eq_def spec_put_pager_def)

lemma set_spec_touch: "set (spec_touch pid es) \<subseteq> set es"
  using lru_find_SomeD [of pid es] by (auto simp: spec_touch_def lru_rest_def split: option.splits)

lemma set_spec_put: "set (spec_put cap e es) \<subseteq> insert e (set es)"
  by (auto simp: spec_put_def lru_rest_def split: option.splits if_splits dest: in_set_butlastD)

lemma cm_inv_new: "0 < cap \<Longrightarrow> cm_inv (cm_new pg cap)"
  using lru_inv_new [of cap] by (simp add: cm_inv_def cm_new_def lru_entries_def lru_new_def)

lemma cm_inv_entryD: "cm_inv s \<Longrightarrow> e \<in> set (lru_entries (cm_lru s)) \<Longrightarrow>
   entry_ok (pg_num_pages (cm_pager s)) e"
  by (simp add: cm_inv_def)

lemma cm_inv_lru: "cm_inv s \<Longrightarrow> lru_inv (cm_lru s)"
  by (simp add: cm_inv_def)

lemma entry_ok_new: "entry_ok (pg_num_pages pg)
    \<lparr>ce_page_id = pid, ce_page = pager_get_page pg pid, ce_dirty = False\<rparr>"
  by (auto simp: entry_ok_def pager_get_page_def)

text \<open>\<open>get\<close> keeps the manager's invariant and reorders the entries only.\<close>

lemma cm_lru_get:
  assumes "cm_inv s"
  shows "\<exists>c. lru_get (cm_lru s) pid = Inr (Option.bind (lru_find pid (lru_entries (cm_lru s))) ce_page, c) \<and>
           cm_inv (s\<lparr>cm_lru := c\<rparr>) \<and> lru_entries c = spec_touch pid (lru_entries (cm_lru s)) \<and>
           lru_capacity c = lru_capacity (cm_lru s)"
  using lru_get_refines [OF cm_inv_lru [OF assms], of pid] set_spec_touch assms
  by (fastforce simp: cm_inv_def)

lemma cm_lru_put:
  assumes "cm_inv s" and "entry_ok (pg_num_pages (cm_pager s)) \<lparr>ce_page_id = pid, ce_page = page, ce_dirty = d\<rparr>"
  shows "\<exists>s'. lru_put s pid page d = Inr s' \<and> cm_inv s' \<and>
          lru_entries (cm_lru s') = spec_put (lru_capacity (cm_lru s))
             \<lparr>ce_page_id = pid, ce_page = page, ce_dirty = d\<rparr> (lru_entries (cm_lru s)) \<and>
          lru_capacity (cm_lru s') = lru_capacity (cm_lru s) \<and>
          cm_pager s' = spec_put_pager (lru_capacity (cm_lru s)) pid (lru_entries (cm_lru s)) (cm_pager s)"
proof -
  obtain s' where s': "lru_put s pid page d = Inr s'" "lru_inv (cm_lru s')"
    "lru_entries (cm_lru s') = spec_put (lru_capacity (cm_lru s))
       \<lparr>ce_page_id = pid, ce_page = page, ce_dirty = d\<rparr> (lru_entries (cm_lru s))"
    "lru_capacity (cm_lru s') = lru_capacity (cm_lru s)"
    "cm_pager s' = spec_put_pager (lru_capacity (cm_lru s)) pid (lru_entries (cm_lru s)) (cm_pager s)"
    using lru_put_refines [OF cm_inv_lru [OF assms(1)], of pid page d] by (auto simp: put_ok_def)
  have n: "pg_num_pages (cm_pager s') = pg_num_pages (cm_pager s)"
    unfolding s'(5) by (simp add: spec_put_pager_def)
  have "cm_inv s'"
    unfolding cm_inv_def n
    using s'(2,3) set_spec_put assms(2) cm_inv_entryD [OF assms(1)] by fastforce
  then show ?thesis using s' by blast
qed

text \<open>The ids of the recency list.\<close>

lemma ids_spec_touch:
  "lru_find pid es \<noteq> None \<Longrightarrow>
   map ce_page_id (spec_touch pid es) = pid # removeAll pid (map ce_page_id es)"
  by (auto simp: spec_touch_def lru_rest_def removeAll_filter_not_eq filter_map comp_def
      dest: lru_find_SomeD intro!: arg_cong [of _ _ "map ce_page_id"] filter_cong)

lemma ids_spec_put:
  assumes "length es \<le> cap" "0 < cap" "distinct (map ce_page_id es)"
  shows "map ce_page_id (spec_put cap e es) =
           take cap (ce_page_id e # removeAll (ce_page_id e) (map ce_page_id es))"
proof (cases "lru_find (ce_page_id e) es")
  case None
  then have "ce_page_id e \<notin> set (map ce_page_id es)" by (simp add: lru_find_None_iff)
  then have "removeAll (ce_page_id e) (map ce_page_id es) = map ce_page_id es"
    by (rule removeAll_id)
  then show ?thesis
    using None assms by (auto simp: spec_put_def butlast_conv_take take_map take_Cons')
next
  case (Some x)
  then have x: "x \<in> set es" "ce_page_id x = ce_page_id e" by (auto dest: lru_find_SomeD)
  have rest: "map ce_page_id (lru_rest (ce_page_id e) es) = removeAll (ce_page_id e) (map ce_page_id es)"
    by (auto simp: lru_rest_def removeAll_filter_not_eq filter_map comp_def
        intro!: arg_cong [of _ _ "map ce_page_id"] filter_cong)
  have "length (lru_rest (ce_page_id e) es) < length es"
    unfolding lru_rest_def
    using length_filter_less [OF x(1), of "\<lambda>y. ce_page_id y \<noteq> ce_page_id e"] x(2) by simp
  then have "Suc (length (map ce_page_id (lru_rest (ce_page_id e) es))) \<le> cap" using assms(1) by simp
  then show ?thesis using Some by (simp add: spec_put_def flip: rest)
qed

text \<open>
  \<open>CacheManager::get_page\<close> returns what the pager would return, changes no page, and leaves
  in the cache the id it was asked for followed by the others in their old order, cut at the
  capacity.
\<close>

lemma cm_get_page_spec:
  assumes inv: "cm_inv s"
  shows "\<exists>s'. cm_get_page s pid = Inr (pager_get_page (cm_pager s) pid, s') \<and> cm_inv s' \<and>
          pages_eq (cm_pager s) (cm_pager s') \<and>
          cm_ids s' = take (lru_capacity (cm_lru s)) (pid # removeAll pid (cm_ids s)) \<and>
          lru_capacity (cm_lru s') = lru_capacity (cm_lru s)"
proof -
  let ?es = "lru_entries (cm_lru s)" and ?cap = "lru_capacity (cm_lru s)"
  obtain c where c: "lru_get (cm_lru s) pid = Inr (Option.bind (lru_find pid ?es) ce_page, c)"
    "cm_inv (s\<lparr>cm_lru := c\<rparr>)" "lru_entries c = spec_touch pid ?es" "lru_capacity c = ?cap"
    using cm_lru_get [OF inv, of pid] by blast
  have d: "distinct (map ce_page_id ?es)" using lru_inv_distinct_ids cm_inv_lru inv by blast
  have len: "length (lru_entries c) \<le> ?cap" "0 < ?cap" "distinct (map ce_page_id (lru_entries c))"
    using lru_invD(5,6) [OF cm_inv_lru [OF c(2)]] lru_inv_distinct_ids [OF cm_inv_lru [OF c(2)]] c(4)
    by (simp_all add: lru_entries_def)
  show ?thesis
  proof (cases "Option.bind (lru_find pid ?es) ce_page")
    case (Some a)
    then obtain e where e: "lru_find pid ?es = Some e" "ce_page e = Some a"
      by (auto simp: bind_eq_Some_conv)
    then have "ce_page_id e = pid" "e \<in> set ?es" by (auto dest: lru_find_SomeD)
    then have "pager_get_page (cm_pager s) pid = Some a"
      using cm_inv_entryD [OF inv, of e] e(2)
      by (auto simp: entry_ok_def pager_get_page_def not_le split: option.splits)
    moreover have ids: "map ce_page_id (lru_entries c) = pid # removeAll pid (cm_ids s)"
      using e c(3) by (simp add: ids_spec_touch cm_ids_def)
    moreover have "length (map ce_page_id (lru_entries c)) \<le> ?cap" using len by simp
    ultimately show ?thesis
      using c Some by (simp add: cm_get_page_def cm_ids_def)
  next
    case None
    obtain s' where s': "lru_put (s\<lparr>cm_lru := c\<rparr>) pid (pager_get_page (cm_pager s) pid) False = Inr s'"
      "cm_inv s'"
      "lru_entries (cm_lru s') = spec_put ?cap \<lparr>ce_page_id = pid,
          ce_page = pager_get_page (cm_pager s) pid, ce_dirty = False\<rparr> (lru_entries c)"
      "lru_capacity (cm_lru s') = ?cap"
      "cm_pager s' = spec_put_pager ?cap pid (lru_entries c) (cm_pager s)"
      using cm_lru_put [OF c(2), of pid "pager_get_page (cm_pager s) pid" False]
        entry_ok_new [of "cm_pager s" pid] c(4) by auto
    have "removeAll pid (map ce_page_id (lru_entries c)) = removeAll pid (map ce_page_id ?es)"
      using c(3) ids_spec_touch [of pid ?es]
      by (cases "lru_find pid ?es") (auto simp: spec_touch_def)
    then have "cm_ids s' = take ?cap (pid # removeAll pid (cm_ids s))"
      using ids_spec_put [OF len] s'(3) by (simp add: cm_ids_def)
    then show ?thesis
      using c(1) None s' by (simp add: cm_get_page_def Let_def)
  qed
qed

lemma cm_mark_dirty_spec:
  assumes inv: "cm_inv s"
  shows "\<exists>s'. cm_mark_dirty s pid = Inr s' \<and> cm_inv s' \<and> pages_eq (cm_pager s) (cm_pager s')"
proof -
  let ?es = "lru_entries (cm_lru s)"
  obtain c where c: "lru_get (cm_lru s) pid = Inr (Option.bind (lru_find pid ?es) ce_page, c)"
    "cm_inv (s\<lparr>cm_lru := c\<rparr>)"
    using cm_lru_get [OF inv, of pid] by blast
  show ?thesis
  proof (cases "Option.bind (lru_find pid ?es) ce_page")
    case None
    then show ?thesis using c by (simp add: cm_mark_dirty_def)
  next
    case (Some a)
    then obtain e where e: "lru_find pid ?es = Some e" "ce_page e = Some a"
      by (auto simp: bind_eq_Some_conv)
    then have "entry_ok (pg_num_pages (cm_pager s)) \<lparr>ce_page_id = pid, ce_page = Some a, ce_dirty = True\<rparr>"
      using cm_inv_entryD [OF inv, of e] lru_find_SomeD [OF e(1)] by (auto simp: entry_ok_def)
    then show ?thesis
      using cm_lru_put [OF c(2), of pid "Some a" True] c(1) Some
      by (auto simp: cm_mark_dirty_def Let_def)
  qed
qed

section \<open>The interface the storage engine relies on\<close>

text \<open>
  Reading and writing a page through a pointer, and taking a new page from the pager that
  the manager refers to.
\<close>

definition cm_deref :: "'p cachemgr \<Rightarrow> ptr \<Rightarrow> 'p res" where
  "cm_deref s p = pager_deref (cm_pager s) p"

definition cm_assign :: "'p cachemgr \<Rightarrow> ptr \<Rightarrow> 'p \<Rightarrow> 'p cachemgr res" where
  "cm_assign s p x = rbind (pager_assign (cm_pager s) p x) (\<lambda>pg. Inr (s\<lparr>cm_pager := pg\<rparr>))"

definition cm_allocate :: "'p cachemgr \<Rightarrow> u32 \<times> 'p cachemgr" where
  "cm_allocate s = (let (pid, pg) = pager_allocate_page (cm_pager s) in (pid, s\<lparr>cm_pager := pg\<rparr>))"

text \<open>
  The contract of a page source, which \<open>ColumnStore\<close>, \<open>ColumnReader\<close> and \<open>BPTree\<close> are
  written against: pages are addressed by id, \<open>get_page\<close> and \<open>mark_dirty\<close> leave every page
  as it is, and a write through a valid pointer changes that page alone. \<open>mem\<close> and \<open>npages\<close>
  are the abstract state.
\<close>

locale page_source =
  fixes get_page :: "'s \<Rightarrow> u32 \<Rightarrow> (ptr \<times> 's) res"
    and mark_dirty :: "'s \<Rightarrow> u32 \<Rightarrow> 's res"
    and deref :: "'s \<Rightarrow> ptr \<Rightarrow> 'p res"
    and assign :: "'s \<Rightarrow> ptr \<Rightarrow> 'p \<Rightarrow> 's res"
    and allocate :: "'s \<Rightarrow> u32 \<times> 's"
    and mem :: "'s \<Rightarrow> nat \<Rightarrow> 'p"
    and npages :: "'s \<Rightarrow> u32"
    and inv :: "'s \<Rightarrow> bool"
  assumes get_page_law: "inv s \<Longrightarrow> \<exists>s'. get_page s pid =
        Inr (if pid < npages s then Some (page_addr pid) else None, s') \<and>
        inv s' \<and> mem s' = mem s \<and> npages s' = npages s"
    and mark_dirty_law: "inv s \<Longrightarrow> \<exists>s'. mark_dirty s pid = Inr s' \<and>
        inv s' \<and> mem s' = mem s \<and> npages s' = npages s"
    and deref_law: "unat pid < max_pages \<Longrightarrow> deref s (Some (page_addr pid)) = Inr (mem s (unat pid))"
    and assign_law: "inv s \<Longrightarrow> unat pid < max_pages \<Longrightarrow> \<exists>s'. assign s (Some (page_addr pid)) x = Inr s' \<and>
        inv s' \<and> mem s' = (mem s)(unat pid := x) \<and> npages s' = npages s"
    and allocate_law: "inv s \<Longrightarrow> unat (npages s) \<le> max_pages \<Longrightarrow> \<exists>s'. allocate s = (npages s, s') \<and>
        inv s' \<and> mem s' = mem s \<and> npages s' = npages s + 1"
begin

lemma fetch:
  assumes "inv s" and "pid < npages s" and "unat pid < max_pages"
  shows "\<exists>s'. get_page s pid = Inr (Some (page_addr pid), s') \<and>
          deref s' (Some (page_addr pid)) = Inr (mem s (unat pid)) \<and>
          inv s' \<and> mem s' = mem s \<and> npages s' = npages s"
  using get_page_law [OF assms(1), of pid] assms(2) deref_law [OF assms(3)] by fastforce

lemma write_page:
  assumes "inv s" and "unat pid < max_pages"
  shows "\<exists>s1 s2. assign s (Some (page_addr pid)) x = Inr s1 \<and> mark_dirty s1 pid = Inr s2 \<and>
          inv s2 \<and> mem s2 = (mem s)(unat pid := x) \<and> npages s2 = npages s"
proof -
  obtain s1 where s1: "assign s (Some (page_addr pid)) x = Inr s1" "inv s1"
    "mem s1 = (mem s)(unat pid := x)" "npages s1 = npages s"
    using assign_law [OF assms] by blast
  then show ?thesis using mark_dirty_law [OF s1(2), of pid] by auto
qed

lemma alloc_fetch:
  assumes "inv s" and "unat (npages s) < max_pages"
  shows "\<exists>s1 s2. allocate s = (npages s, s1) \<and>
          get_page s1 (npages s) = Inr (Some (page_addr (npages s)), s2) \<and>
          inv s2 \<and> mem s2 = mem s \<and> npages s2 = npages s + 1"
proof -
  have le: "unat (npages s) \<le> max_pages" using assms(2) by simp
  obtain s1 where s1: "allocate s = (npages s, s1)" "inv s1" "mem s1 = mem s" "npages s1 = npages s + 1"
    using allocate_law [OF assms(1) le] by blast
  have "npages s < npages s1" using assms(2) s1(4) by (simp add: page_less_unat)
  then show ?thesis using get_page_law [OF s1(2), of "npages s"] s1 by auto
qed

end

abbreviation cm_mem :: "'p cachemgr \<Rightarrow> nat \<Rightarrow> 'p" where
  "cm_mem s \<equiv> pg_mem (cm_pager s)"

abbreviation cm_npages :: "'p cachemgr \<Rightarrow> u32" where
  "cm_npages s \<equiv> pg_num_pages (cm_pager s)"

lemma cm_inv_mono:
  assumes "cm_inv s" and "pg_num_pages (cm_pager s) \<le> pg_num_pages pg"
  shows "cm_inv (s\<lparr>cm_pager := pg\<rparr>)"
  using assms by (fastforce simp: cm_inv_def entry_ok_def split: option.splits)

lemma cm_assign_spec:
  assumes "cm_inv s" and "unat pid < max_pages"
  shows "\<exists>s'. cm_assign s (Some (page_addr pid)) x = Inr s' \<and> cm_inv s' \<and>
           cm_mem s' = (cm_mem s)(unat pid := x) \<and> cm_npages s' = cm_npages s"
  using assms cm_inv_mono [OF assms(1)] by (simp add: cm_assign_def)

lemma cm_allocate_spec:
  assumes "cm_inv s" and "unat (cm_npages s) \<le> max_pages"
  shows "\<exists>s'. cm_allocate s = (cm_npages s, s') \<and> cm_inv s' \<and> cm_mem s' = cm_mem s \<and>
           cm_npages s' = cm_npages s + 1"
  using assms cm_inv_mono [OF assms(1)]
  by (simp add: cm_allocate_def pager_allocate_page_def word_le_nat_alt)

interpretation cm: page_source cm_get_page cm_mark_dirty cm_deref cm_assign cm_allocate cm_mem cm_npages cm_inv
proof (unfold_locales, goal_cases)
  case (1 s pid)
  then show ?case
    using cm_get_page_spec [OF 1, of pid] by (auto simp: pages_eq_def pager_get_page_def not_le)
next
  case (2 s pid)
  then show ?case using cm_mark_dirty_spec [OF 2, of pid] by (auto simp: pages_eq_def)
next
  case (3 pid s)
  then show ?case by (simp add: cm_deref_def)
next
  case (4 s pid x)
  then show ?case by (rule cm_assign_spec)
next
  case (5 s)
  then show ?case by (rule cm_allocate_spec)
qed

section \<open>Recency\<close>

text \<open>The ids accessed so far, most recent first, each once.\<close>

definition recency :: "u32 list \<Rightarrow> u32 list" where
  "recency pids = foldl (\<lambda>xs p. p # removeAll p xs) [] pids"

lemma take_removeAll:
  assumes "distinct xs"
  shows "take n (p # removeAll p (take n xs)) = take n (p # removeAll p xs)"
proof (cases "p \<in> set (take n xs)")
  case True
  then have "p \<notin> set (drop n xs)"
    using assms set_take_disj_set_drop_if_distinct [OF assms, of n n] by auto
  then have eq: "removeAll p xs = removeAll p (take n xs) @ drop n xs"
    by (metis append_take_drop_id removeAll_append removeAll_id)
  have "length (removeAll p (take n xs)) < length (take n xs)"
    using length_removeAll_less [OF True] .
  then have "Suc (length (removeAll p (take n xs))) \<le> n" by simp
  moreover have "Suc (length (removeAll p (take n xs))) = n \<or> drop n xs = []"
  proof -
    have "length (removeAll p (take n xs)) = length (take n xs) - 1"
      using True assms by (metis distinct_remove1_removeAll distinct_take length_remove1)
    then show ?thesis using \<open>length (removeAll p (take n xs)) < length (take n xs)\<close> by auto
  qed
  ultimately show ?thesis unfolding eq by (cases n) auto
next
  case False
  then have "removeAll p (take n xs) = take n xs" by (rule removeAll_id)
  moreover have "take m (removeAll p xs) = take m xs" if "m < n" for m
  proof -
    have "xs = take n xs @ drop n xs" by simp
    then have "removeAll p xs = take n xs @ removeAll p (drop n xs)"
      using False by (metis removeAll_append removeAll_id)
    moreover have "p \<notin> set xs \<or> m \<le> length (take n xs)" using that False by (auto simp: min_def)
    ultimately show ?thesis using that by (auto simp: min_def)
  qed
  ultimately show ?thesis by (cases n) (auto simp: min_def)
qed

lemma distinct_removeAll_front: "distinct xs \<Longrightarrow> distinct (p # removeAll p xs)"
  by (simp add: distinct_removeAll)

lemma get_page_run:
  assumes "cm_inv s" and "cm_ids s = take (lru_capacity (cm_lru s)) xs" and "distinct xs"
  shows "\<exists>s'. rmap (\<lambda>pid s. cm_get_page s pid) pids s = Inr (map (pager_get_page (cm_pager s)) pids, s') \<and>
          cm_inv s' \<and> pages_eq (cm_pager s) (cm_pager s') \<and>
          cm_ids s' = take (lru_capacity (cm_lru s)) (foldl (\<lambda>xs p. p # removeAll p xs) xs pids)"
  using assms
proof (induction pids arbitrary: s xs)
  case Nil
  then show ?case by simp
next
  case (Cons p pids)
  obtain t where t: "cm_get_page s p = Inr (pager_get_page (cm_pager s) p, t)" "cm_inv t"
    "pages_eq (cm_pager s) (cm_pager t)" "lru_capacity (cm_lru t) = lru_capacity (cm_lru s)"
    "cm_ids t = take (lru_capacity (cm_lru s)) (p # removeAll p (cm_ids s))"
    using cm_get_page_spec [OF Cons.prems(1), of p] by blast
  have ids: "cm_ids t = take (lru_capacity (cm_lru t)) (p # removeAll p xs)"
    using t(4,5) Cons.prems(2,3) by (simp add: take_removeAll)
  have g: "pager_get_page (cm_pager t) = pager_get_page (cm_pager s)"
    using t(3) by (auto simp: pages_eq_def pager_get_page_def)
  show ?case
    using Cons.IH [OF t(2) ids distinct_removeAll_front [OF Cons.prems(3)]] t(1,3,4) g
    by (auto intro: pages_eq_trans)
qed

text \<open>
  C6. The page cache is transparent and least-recently-used. Whatever sequence of page ids
  a client asks a fresh \<open>CacheManager\<close> for, every answer is the pointer the pager itself
  would give (null for an id that is not allocated), no page changes, no operation fails, and
  the cache then holds exactly the \<open>capacity\<close> most recently requested ids, most recent first.
\<close>

theorem cache_is_lru:
  assumes "0 < cap"
  shows "\<exists>s'. rmap (\<lambda>pid s. cm_get_page s pid) pids (cm_new pg cap)
                = Inr (map (pager_get_page pg) pids, s') \<and>
              pages_eq pg (cm_pager s') \<and> cm_ids s' = take cap (recency pids)"
proof -
  have "cm_ids (cm_new pg cap) = take (lru_capacity (cm_lru (cm_new pg cap))) []"
    by (simp add: cm_ids_def cm_new_def lru_new_def lru_entries_def)
  moreover have "cm_pager (cm_new pg cap) = pg" "lru_capacity (cm_lru (cm_new pg cap)) = cap"
    by (simp_all add: cm_new_def lru_new_def)
  ultimately show ?thesis
    using get_page_run [OF cm_inv_new [OF assms, of pg], of "[]" pids] by (auto simp: recency_def)
qed

theorem cache_is_lru_witness:
  "\<exists>s'. rmap (\<lambda>pid s. cm_get_page s pid) [0, 1, 0, 2, 7]
          (cm_new \<lparr>pg_mem = (\<lambda>_. 0 :: nat), pg_disk = (\<lambda>_. 0), pg_num_pages = 3\<rparr> 2)
        = Inr ([Some 0, Some 4096, Some 0, Some 8192, None], s') \<and> cm_ids s' = [7, 2]"
proof -
  let ?pg = "\<lparr>pg_mem = (\<lambda>_. 0 :: nat), pg_disk = (\<lambda>_. 0), pg_num_pages = (3 :: u32)\<rparr>"
  have "map (pager_get_page ?pg) [0, 1, 0, 2, 7] = [Some 0, Some 4096, Some 0, Some 8192, None]"
    by (simp add: pager_get_page_def page_addr_def PAGE_SIZE_def word_le_nat_alt)
  moreover have "take 2 (recency [0, 1, 0, 2, 7]) = [7, 2]" by (simp add: recency_def)
  ultimately show ?thesis
    using cache_is_lru [of 2 "[0, 1, 0, 2, 7]" ?pg] by auto
qed

section \<open>Write-back\<close>

text \<open>Every page that differs from the file is dirty in the cache.\<close>

definition tracked :: "centry list \<Rightarrow> 'p pager \<Rightarrow> bool" where
  "tracked es pg \<longleftrightarrow> (\<forall>i < unat (pg_num_pages pg). pg_mem pg i \<noteq> pg_disk pg i \<longrightarrow>
     (\<exists>e \<in> set es. ce_dirty e \<and> unat (ce_page_id e) = i))"

definition cm_tracked :: "'p cachemgr \<Rightarrow> bool" where
  "cm_tracked s \<longleftrightarrow> cm_inv s \<and> unat (cm_npages s) \<le> max_pages \<and>
     tracked (lru_entries (cm_lru s)) (cm_pager s)"

lemma tracked_subset: "tracked es pg \<Longrightarrow> set es \<subseteq> set es' \<Longrightarrow> tracked es' pg"
  unfolding tracked_def by blast

lemma spec_touch_superset:
  assumes "distinct (map ce_page_id es)"
  shows "set es \<subseteq> set (spec_touch pid es)"
proof
  fix e assume e: "e \<in> set es"
  show "e \<in> set (spec_touch pid es)"
    using e lru_find_unique [OF assms e] by (auto simp: spec_touch_def lru_rest_def split: option.splits)
qed

lemma spec_put_hit:
  assumes "e \<in> set es" and "ce_page_id e \<noteq> ce_page_id n" and "e \<noteq> last es \<or> lru_find (ce_page_id n) es \<noteq> None \<or> length es < cap"
  shows "e \<in> set (spec_put cap n es)"
proof -
  have "e \<in> set (butlast es)" if "e \<noteq> last es"
    using that assms(1) by (metis append_butlast_last_id in_set_conv_decomp_last list.distinct(1)
        list.set_cases rotate1.simps(2) set_ConsD set_rotate1 empty_iff empty_set)
  then show ?thesis
    using assms by (auto simp: spec_put_def lru_rest_def split: option.splits)
qed

lemma tracked_put:
  assumes t: "tracked es pg" and d: "distinct (map ce_page_id es)"
    and small: "\<And>e. e \<in> set es \<Longrightarrow> ce_dirty e \<Longrightarrow> unat (ce_page_id e) < max_pages"
    and new: "\<And>e. lru_find (ce_page_id n) es = Some e \<Longrightarrow> ce_dirty e \<Longrightarrow> ce_dirty n"
  shows "tracked (spec_put cap n es) (spec_put_pager cap (ce_page_id n) es pg)"
    (is "tracked ?es ?pg")
  unfolding tracked_def
proof (intro allI impI)
  fix i assume i: "i < unat (pg_num_pages ?pg)" and ne: "pg_mem ?pg i \<noteq> pg_disk ?pg i"
  have pq: "pg_mem ?pg = pg_mem pg" "pg_num_pages ?pg = pg_num_pages pg"
    by (simp_all add: spec_put_pager_def)
  have "pg_mem pg i \<noteq> pg_disk pg i"
  proof
    assume "pg_mem pg i = pg_disk pg i"
    then have "pg_mem ?pg i = pg_disk ?pg i"
      by (auto simp: spec_put_pager_def pager_flush_def Let_def)
    then show False using ne by simp
  qed
  then obtain e where e: "e \<in> set es" "ce_dirty e" "unat (ce_page_id e) = i"
    using t i pq unfolding tracked_def by auto
  show "\<exists>e \<in> set ?es. ce_dirty e \<and> unat (ce_page_id e) = i"
  proof (cases "ce_page_id e = ce_page_id n")
    case True
    then have "ce_dirty n" using new lru_find_unique [OF d e(1)] e(2) by simp
    then show ?thesis using e(3) True by (auto simp: spec_put_def split: option.splits)
  next
    case False
    have "e \<noteq> last es \<or> lru_find (ce_page_id n) es \<noteq> None \<or> length es < cap"
    proof (rule ccontr)
      assume "\<not> ?thesis"
      then have "?pg = pager_flush pg (ce_page_id e)" using e(2) by (auto simp: spec_put_pager_def)
      then show False using ne e small [OF e(1,2)] by (simp add: pager_flush_disk)
    qed
    then show ?thesis using spec_put_hit [OF e(1) False] e by blast
  qed
qed

lemma cm_tracked_small:
  assumes "cm_tracked s" and "e \<in> set (lru_entries (cm_lru s))" and "ce_dirty e"
  shows "unat (ce_page_id e) < max_pages"
proof -
  have "entry_ok (cm_npages s) e" using assms cm_inv_entryD by (auto simp: cm_tracked_def)
  then have "ce_page_id e < cm_npages s" using assms(3) by (auto simp: entry_ok_def split: option.splits)
  then show ?thesis using assms(1) by (simp add: cm_tracked_def page_less_unat)
qed

lemma cm_tracked_lru_get:
  assumes "cm_tracked s"
  shows "\<exists>c. lru_get (cm_lru s) pid = Inr (Option.bind (lru_find pid (lru_entries (cm_lru s))) ce_page, c) \<and>
           cm_tracked (s\<lparr>cm_lru := c\<rparr>) \<and> lru_entries c = spec_touch pid (lru_entries (cm_lru s))"
proof -
  have inv: "cm_inv s" and d: "distinct (map ce_page_id (lru_entries (cm_lru s)))"
    using assms lru_inv_distinct_ids cm_inv_lru by (auto simp: cm_tracked_def)
  show ?thesis
    using cm_lru_get [OF inv, of pid] assms spec_touch_superset [OF d, of pid]
    by (auto simp: cm_tracked_def intro: tracked_subset)
qed

lemma cm_tracked_lru_put:
  assumes "cm_tracked s"
    and "entry_ok (cm_npages s) \<lparr>ce_page_id = pid, ce_page = page, ce_dirty = d\<rparr>"
    and "\<And>e. lru_find pid (lru_entries (cm_lru s)) = Some e \<Longrightarrow> ce_dirty e \<Longrightarrow> d"
  shows "\<exists>s'. lru_put s pid page d = Inr s' \<and> cm_tracked s' \<and> pages_eq (cm_pager s) (cm_pager s')"
proof -
  have inv: "cm_inv s" and dist: "distinct (map ce_page_id (lru_entries (cm_lru s)))"
    using assms(1) lru_inv_distinct_ids cm_inv_lru by (auto simp: cm_tracked_def)
  obtain s' where s': "lru_put s pid page d = Inr s'" "cm_inv s'"
    "lru_entries (cm_lru s') = spec_put (lru_capacity (cm_lru s))
       \<lparr>ce_page_id = pid, ce_page = page, ce_dirty = d\<rparr> (lru_entries (cm_lru s))"
    "cm_pager s' = spec_put_pager (lru_capacity (cm_lru s)) pid (lru_entries (cm_lru s)) (cm_pager s)"
    using cm_lru_put [OF inv assms(2)] by blast
  have "tracked (lru_entries (cm_lru s')) (cm_pager s')"
    unfolding s'(3,4)
    using tracked_put [of "lru_entries (cm_lru s)" "cm_pager s"
        "\<lparr>ce_page_id = pid, ce_page = page, ce_dirty = d\<rparr>" "lru_capacity (cm_lru s)"]
      assms(1,3) dist cm_tracked_small [OF assms(1)] by (simp add: cm_tracked_def)
  moreover have pe: "pages_eq (cm_pager s) (cm_pager s')" unfolding s'(4) by simp
  ultimately show ?thesis using s'(1,2) assms(1) by (auto simp: cm_tracked_def pages_eq_def)
qed

lemma cm_get_page_tracked:
  assumes t: "cm_tracked s"
  shows "\<exists>s'. cm_get_page s pid = Inr (pager_get_page (cm_pager s) pid, s') \<and> cm_tracked s' \<and>
           pages_eq (cm_pager s) (cm_pager s')"
proof -
  let ?es = "lru_entries (cm_lru s)"
  have inv: "cm_inv s" using t by (simp add: cm_tracked_def)
  obtain c where c: "lru_get (cm_lru s) pid = Inr (Option.bind (lru_find pid ?es) ce_page, c)"
    "cm_tracked (s\<lparr>cm_lru := c\<rparr>)" "lru_entries c = spec_touch pid ?es"
    using cm_tracked_lru_get [OF t, of pid] by blast
  obtain s' where s': "cm_get_page s pid = Inr (pager_get_page (cm_pager s) pid, s')"
    using cm_get_page_spec [OF inv, of pid] by blast
  show ?thesis
  proof (cases "Option.bind (lru_find pid ?es) ce_page")
    case (Some a)
    then have "cm_get_page s pid = Inr (Some a, s\<lparr>cm_lru := c\<rparr>)" using c(1) by (simp add: cm_get_page_def)
    then show ?thesis using s' c(2) by auto
  next
    case None
    have clean: "\<not> ce_dirty e" if "lru_find pid (lru_entries c) = Some e" for e
    proof -
      have e: "e \<in> set ?es" "ce_page_id e = pid"
        using lru_find_SomeD [OF that] set_spec_touch c(3) by auto
      then have "lru_find pid ?es = Some e"
        using lru_find_unique lru_inv_distinct_ids cm_inv_lru inv by blast
      then show ?thesis using None cm_inv_entryD [OF inv e(1)] by (simp add: entry_ok_def)
    qed
    obtain s2 where "lru_put (s\<lparr>cm_lru := c\<rparr>) pid (pager_get_page (cm_pager s) pid) False = Inr s2"
      "cm_tracked s2" "pages_eq (cm_pager s) (cm_pager s2)"
      using cm_tracked_lru_put [OF c(2), of pid "pager_get_page (cm_pager s) pid" False]
        entry_ok_new [of "cm_pager s" pid] clean by auto
    then show ?thesis using s' c(1) None by (auto simp: cm_get_page_def Let_def)
  qed
qed

text \<open>After \<open>get_page\<close> of a valid id its pointer is in the cache.\<close>

definition cm_cached :: "'p cachemgr \<Rightarrow> u32 \<Rightarrow> bool" where
  "cm_cached s pid \<longleftrightarrow> Option.bind (lru_find pid (lru_entries (cm_lru s))) ce_page \<noteq> None"

lemma tracked_write:
  assumes "tracked es pg" and "lru_find pid es \<noteq> None"
  shows "tracked (spec_put cap \<lparr>ce_page_id = pid, ce_page = page, ce_dirty = True\<rparr> es)
           (pg\<lparr>pg_mem := (pg_mem pg)(unat pid := x)\<rparr>)"
  unfolding tracked_def
proof (intro allI impI, goal_cases)
  case (1 i)
  show ?case
  proof (cases "i = unat pid")
    case True
    then show ?thesis by (auto simp: spec_put_def split: option.splits)
  next
    case False
    then obtain e where e: "e \<in> set es" "ce_dirty e" "unat (ce_page_id e) = i"
      using 1 assms(1) by (auto simp: tracked_def)
    then have "ce_page_id e \<noteq> pid" using False by auto
    then show ?thesis
      using spec_put_hit [OF e(1), of "\<lparr>ce_page_id = pid, ce_page = page, ce_dirty = True\<rparr>" cap]
        assms(2) e by auto
  qed
qed

lemma spec_put_find: "lru_find (ce_page_id n) (spec_put cap n es) = Some n"
  by (auto simp: lru_find_def spec_put_def split: option.splits)

lemma spec_touch_find:
  "lru_find pid (spec_touch pid es) = lru_find pid es"
proof (cases "lru_find pid es")
  case (Some e)
  then have "ce_page_id e = pid" by (auto dest: lru_find_SomeD)
  then show ?thesis using Some by (simp add: lru_find_def spec_touch_def)
qed (simp add: spec_touch_def)

lemma cm_get_page_cached:
  assumes "cm_inv s" and "pid < cm_npages s" and "cm_get_page s pid = Inr (p, s')"
  shows "cm_cached s' pid"
proof -
  let ?es = "lru_entries (cm_lru s)"
  obtain c where c: "lru_get (cm_lru s) pid = Inr (Option.bind (lru_find pid ?es) ce_page, c)"
    "cm_inv (s\<lparr>cm_lru := c\<rparr>)" "lru_entries c = spec_touch pid ?es"
    using cm_lru_get [OF assms(1), of pid] by blast
  show ?thesis
  proof (cases "Option.bind (lru_find pid ?es) ce_page")
    case (Some a)
    then have "s' = s\<lparr>cm_lru := c\<rparr>" using c(1) assms(3) by (simp add: cm_get_page_def)
    then show ?thesis using Some c(3) by (simp add: cm_cached_def spec_touch_find)
  next
    case None
    let ?n = "\<lparr>ce_page_id = pid, ce_page = pager_get_page (cm_pager s) pid, ce_dirty = False\<rparr>"
    obtain s2 where "lru_put (s\<lparr>cm_lru := c\<rparr>) pid (pager_get_page (cm_pager s) pid) False = Inr s2"
      "lru_entries (cm_lru s2) = spec_put (lru_capacity c) ?n (lru_entries c)"
      using cm_lru_put [OF c(2), of pid "pager_get_page (cm_pager s) pid" False]
        entry_ok_new [of "cm_pager s" pid] by auto
    moreover from this have "s' = s2" using assms(3) c(1) None by (simp add: cm_get_page_def Let_def)
    ultimately show ?thesis
      using spec_put_find [of ?n] assms(2) by (simp add: cm_cached_def pager_get_page_def)
  qed
qed

text \<open>\<open>mark_dirty\<close> of a page that is not in the cache does nothing at all to the pages' state.\<close>

lemma cm_mark_dirty_uncached:
  assumes "cm_inv s" and "\<not> cm_cached s pid"
  shows "\<exists>c. cm_mark_dirty s pid = Inr (s\<lparr>cm_lru := c\<rparr>) \<and> set (lru_entries c) \<subseteq> set (lru_entries (cm_lru s))"
  using cm_lru_get [OF assms(1), of pid] assms(2) set_spec_touch
  by (fastforce simp: cm_mark_dirty_def cm_cached_def)

lemma cm_write_tracked:
  assumes t: "cm_tracked s" and c: "cm_cached s pid" and pid: "pid < cm_npages s"
  shows "\<exists>s1 s2. cm_assign s (Some (page_addr pid)) x = Inr s1 \<and> cm_mark_dirty s1 pid = Inr s2 \<and>
           cm_tracked s2 \<and> cm_mem s2 = (cm_mem s)(unat pid := x) \<and> cm_npages s2 = cm_npages s"
proof -
  let ?es = "lru_entries (cm_lru s)"
  have inv: "cm_inv s" and np: "unat (cm_npages s) \<le> max_pages" using t by (simp_all add: cm_tracked_def)
  have small: "unat pid < max_pages" using pid np by (simp add: page_less_unat)
  define pg where "pg = (cm_pager s)\<lparr>pg_mem := (cm_mem s)(unat pid := x)\<rparr>"
  define s1 where "s1 = s\<lparr>cm_pager := pg\<rparr>"
  have s1: "cm_assign s (Some (page_addr pid)) x = Inr s1" "cm_inv s1"
    using small cm_inv_mono [OF inv, of pg] by (simp_all add: cm_assign_def s1_def pg_def)
  obtain a where a: "Option.bind (lru_find pid ?es) ce_page = Some a" using c by (auto simp: cm_cached_def)
  then obtain e where e: "lru_find pid ?es = Some e" "ce_page e = Some a" by (auto simp: bind_eq_Some_conv)
  obtain c' where c': "lru_get (cm_lru s1) pid = Inr (Some a, c')" "cm_inv (s1\<lparr>cm_lru := c'\<rparr>)"
    "lru_entries c' = spec_touch pid ?es"
    using cm_lru_get [OF s1(2), of pid] a by (auto simp: s1_def)
  have ok: "entry_ok (cm_npages (s1\<lparr>cm_lru := c'\<rparr>)) \<lparr>ce_page_id = pid, ce_page = Some a, ce_dirty = True\<rparr>"
    using cm_inv_entryD [OF inv, of e] lru_find_SomeD [OF e(1)] e(2)
    by (auto simp: entry_ok_def s1_def pg_def)
  obtain s2 where s2: "lru_put (s1\<lparr>cm_lru := c'\<rparr>) pid (Some a) True = Inr s2" "cm_inv s2"
    "lru_entries (cm_lru s2) = spec_put (lru_capacity c')
       \<lparr>ce_page_id = pid, ce_page = Some a, ce_dirty = True\<rparr> (spec_touch pid ?es)"
    "cm_pager s2 = spec_put_pager (lru_capacity c') pid (spec_touch pid ?es) pg"
    using cm_lru_put [OF c'(2) ok] c'(3) by (auto simp: s1_def)
  have "tracked (spec_touch pid ?es) (cm_pager s)"
    using tracked_subset spec_touch_superset t lru_inv_distinct_ids [OF cm_inv_lru [OF inv]]
    by (metis cm_tracked_def)
  then have "tracked (lru_entries (cm_lru s2)) pg"
    unfolding s2(3) pg_def using tracked_write e(1) by (metis spec_touch_find option.distinct(1))
  moreover have "cm_pager s2 = pg"
    unfolding s2(4) by (simp add: spec_put_pager_def spec_touch_find e(1))
  ultimately show ?thesis
    using s1(1) c'(1) s2(1,2) np by (simp add: cm_mark_dirty_def cm_tracked_def pg_def)
qed

text \<open>Flushing writes exactly the dirty pages to the file.\<close>

lemma flush_entries_spec:
  fixes pg :: "'p pager"
  assumes "\<And>i e. (i, e) \<in> set xs \<Longrightarrow> ce_dirty e \<Longrightarrow> unat (ce_page_id e) < max_pages"
  shows "fst (flush_entries xs pg) = map (\<lambda>(i, e). (i, e\<lparr>ce_dirty := False\<rparr>)) xs \<and>
         pages_eq pg (snd (flush_entries xs pg)) \<and>
         (\<forall>i. pg_disk (snd (flush_entries xs pg)) i =
           (if \<exists>x \<in> set xs. ce_dirty (snd x) \<and> unat (ce_page_id (snd x)) = i then pg_mem pg i
            else pg_disk pg i))"
  using assms
proof (induction xs arbitrary: pg)
  case Nil
  then show ?case by simp
next
  case (Cons x xs)
  obtain i e where x: "x = (i, e)" by (cases x)
  have small: "\<And>i e. (i, e) \<in> set xs \<Longrightarrow> ce_dirty e \<Longrightarrow> unat (ce_page_id e) < max_pages"
    using Cons.prems by auto
  have IH: "fst (flush_entries xs pg') = map (\<lambda>(i, e). (i, e\<lparr>ce_dirty := False\<rparr>)) xs"
    "pages_eq pg' (snd (flush_entries xs pg'))"
    "\<And>i. pg_disk (snd (flush_entries xs pg')) i =
       (if \<exists>x \<in> set xs. ce_dirty (snd x) \<and> unat (ce_page_id (snd x)) = i then pg_mem pg' i
        else pg_disk pg' i)" for pg' :: "'p pager"
    using Cons.IH [of pg', OF small] by simp_all
  have clean: "\<not> ce_dirty e \<Longrightarrow> e\<lparr>ce_dirty := False\<rparr> = e" by (cases e) simp
  show ?case
  proof (cases "ce_dirty e")
    case True
    then have "unat (ce_page_id e) < max_pages" using Cons.prems x by auto
    then show ?thesis
      using True x IH [of "pager_flush pg (ce_page_id e)"]
      by (auto simp: Let_def split_beta pager_flush_disk pages_eq_def)
  next
    case False
    then show ?thesis using x IH [of pg] clean by (auto simp: Let_def split_beta)
  qed
qed

lemma flush_entries_list: "fst (flush_entries xs pg) = map (\<lambda>(i, e). (i, e\<lparr>ce_dirty := False\<rparr>)) xs"
proof (induction xs pg rule: flush_entries.induct)
  case (2 i e xs pg)
  have "\<not> ce_dirty e \<Longrightarrow> e\<lparr>ce_dirty := False\<rparr> = e" by (cases e) simp
  then show ?case using 2 by (auto simp: Let_def split_beta)
qed simp

lemma flush_entries_pages_eq: "pages_eq pg (snd (flush_entries xs pg))"
  by (induction xs pg rule: flush_entries.induct) (auto simp: Let_def split_beta pages_eq_def)

text \<open>Flushing keeps the invariant and every page; the entries differ in their dirty flags only.\<close>

lemma cm_flush_inv:
  assumes inv: "cm_inv s"
  shows "cm_inv (cm_flush s) \<and> pages_eq (cm_pager s) (cm_pager (cm_flush s))"
proof -
  let ?xs = "lru_list (cm_lru s)" and ?c = "cm_lru (cm_flush s)"
  have fl: "lru_list ?c = map (\<lambda>(i, e). (i, e\<lparr>ce_dirty := False\<rparr>)) ?xs" "lru_map ?c = lru_map (cm_lru s)"
    "lru_fresh ?c = lru_fresh (cm_lru s)" "lru_capacity ?c = lru_capacity (cm_lru s)"
    using flush_entries_list [of ?xs "cm_pager s"]
    by (simp_all add: cm_flush_def lru_flush_all_def flush_all_internal_def split_beta)
  have pe: "pages_eq (cm_pager s) (cm_pager (cm_flush s))"
    using flush_entries_pages_eq [of "cm_pager s" ?xs]
    by (simp add: cm_flush_def lru_flush_all_def flush_all_internal_def split_beta)
  have lru: "lru_inv ?c"
  proof (rule lru_invI)
    note d = lru_invD [OF cm_inv_lru [OF inv]]
    show "distinct (map fst (lru_list ?c))" and "distinct (map (ce_page_id \<circ> snd) (lru_list ?c))"
      using d(1,2) unfolding fl(1) by (simp_all add: comp_def split_beta)
    show "lru_map ?c pid = Some it \<longleftrightarrow> (\<exists>e. (it, e) \<in> set (lru_list ?c) \<and> ce_page_id e = pid)" for pid it
      unfolding fl d(3) by force
    show "i < lru_fresh ?c" if "(i, e) \<in> set (lru_list ?c)" for i e
      using that d(4) unfolding fl by auto
  qed (use lru_invD(5,6) [OF cm_inv_lru [OF inv]] fl in simp_all)
  have "entry_ok n (e\<lparr>ce_dirty := False\<rparr>)" if "entry_ok n e" for n e
    using that by (auto simp: entry_ok_def split: option.splits)
  moreover have "entry_ok (cm_npages s) e" if "(i, e) \<in> set ?xs" for i e
    using cm_inv_entryD [OF inv, of e] that by (force simp: lru_entries_def)
  ultimately have "cm_inv (cm_flush s)"
    using lru pe fl(1) by (auto simp: cm_inv_def pages_eq_def lru_entries_def)
  then show ?thesis using pe by simp
qed

lemma cm_flush_durable:
  assumes t: "cm_tracked s"
  shows "cm_tracked (cm_flush s) \<and> pages_eq (cm_pager s) (cm_pager (cm_flush s)) \<and>
         (\<forall>i < unat (cm_npages s). pg_disk (cm_pager (cm_flush s)) i = cm_mem s i)"
proof -
  let ?xs = "lru_list (cm_lru s)"
  have small: "\<And>i e. (i, e) \<in> set ?xs \<Longrightarrow> ce_dirty e \<Longrightarrow> unat (ce_page_id e) < max_pages"
    using cm_tracked_small [OF t] by (force simp: lru_entries_def)
  note f = flush_entries_spec [of ?xs "cm_pager s", OF small]
  have fl: "cm_pager (cm_flush s) = snd (flush_entries ?xs (cm_pager s))"
    by (simp add: cm_flush_def lru_flush_all_def flush_all_internal_def split_beta)
  have inv: "cm_inv (cm_flush s)" "pages_eq (cm_pager s) (cm_pager (cm_flush s))"
    using cm_flush_inv t by (auto simp: cm_tracked_def)
  have durable: "pg_disk (cm_pager (cm_flush s)) i = cm_mem s i" if "i < unat (cm_npages s)" for i
  proof (cases "cm_mem s i = pg_disk (cm_pager s) i")
    case False
    then have "\<exists>x \<in> set ?xs. ce_dirty (snd x) \<and> unat (ce_page_id (snd x)) = i"
      using t that by (auto simp: cm_tracked_def tracked_def lru_entries_def)
    then show ?thesis using f fl by simp
  qed (use f fl in simp)
  then have "tracked (lru_entries (cm_lru (cm_flush s))) (cm_pager (cm_flush s))"
    using inv(2) by (simp add: tracked_def pages_eq_def)
  then show ?thesis using t inv durable by (auto simp: cm_tracked_def pages_eq_def)
qed

lemma cm_flush_disk:
  assumes "cm_inv s" and "unat (cm_npages s) \<le> max_pages"
    and "\<And>e. e \<in> set (lru_entries (cm_lru s)) \<Longrightarrow> ce_dirty e \<Longrightarrow> unat (ce_page_id e) \<noteq> i"
  shows "pg_disk (cm_pager (cm_flush s)) i = pg_disk (cm_pager s) i"
proof -
  let ?xs = "lru_list (cm_lru s)"
  have small: "\<And>j e. (j, e) \<in> set ?xs \<Longrightarrow> ce_dirty e \<Longrightarrow> unat (ce_page_id e) < max_pages"
  proof -
    fix j e assume je: "(j, e) \<in> set ?xs" "ce_dirty e"
    then have "entry_ok (cm_npages s) e" using cm_inv_entryD [OF assms(1)] by (force simp: lru_entries_def)
    then have "ce_page_id e < cm_npages s" using je(2) by (auto simp: entry_ok_def split: option.splits)
    then show "unat (ce_page_id e) < max_pages" using assms(2) by (simp add: page_less_unat)
  qed
  have "pg_disk (snd (flush_entries ?xs (cm_pager s))) i =
      (if \<exists>x \<in> set ?xs. ce_dirty (snd x) \<and> unat (ce_page_id (snd x)) = i then cm_mem s i
       else pg_disk (cm_pager s) i)"
    using flush_entries_spec [of ?xs "cm_pager s"] small by blast
  moreover have "\<not> (\<exists>x \<in> set ?xs. ce_dirty (snd x) \<and> unat (ce_page_id (snd x)) = i)"
    using assms(3) by (auto simp: lru_entries_def)
  ultimately show ?thesis
    by (simp add: cm_flush_def lru_flush_all_def flush_all_internal_def split_beta)
qed

text \<open>Clearing empties the cache; with no entries, any pager state is consistent with it.\<close>

lemma cm_clear_inv:
  assumes "cm_inv s"
  shows "cm_inv ((cm_clear s)\<lparr>cm_pager := pg\<rparr>)"
proof -
  have "lru_capacity (cm_lru (cm_clear s)) = lru_capacity (cm_lru s)"
    "lru_list (cm_lru (cm_clear s)) = []" "lru_map (cm_lru (cm_clear s)) = Map.empty"
    by (simp_all add: cm_clear_def lru_clear_def flush_all_internal_def Let_def split_beta)
  then show ?thesis
    using lru_invD(6) [OF cm_inv_lru [OF assms]] by (simp add: cm_inv_def lru_inv_def lru_entries_def)
qed

lemma cm_clear_pages_eq: "pages_eq (cm_pager s) (cm_pager (cm_clear s))"
  using flush_entries_pages_eq [of "cm_pager s" "lru_list (cm_lru s)"]
  by (simp add: cm_clear_def lru_clear_def flush_all_internal_def Let_def split_beta)

section \<open>Properties of write-back\<close>

text \<open>
  C7. Write-back is complete. If every page that differs from the file is dirty in the cache,
  then fetching an allocated page, writing it through the returned pointer and marking it
  dirty neither fails nor breaks that, and \<open>CacheManager::flush\<close> afterwards leaves every
  allocated page on disk as it is in memory, with the new contents.
\<close>

theorem write_back_durable:
  assumes "cm_tracked s" and "pid < cm_npages s"
  shows "\<exists>p s1 s2 s3. cm_get_page s pid = Inr (p, s1) \<and> cm_assign s1 p x = Inr s2 \<and>
           cm_mark_dirty s2 pid = Inr s3 \<and> cm_tracked s3 \<and>
           (\<forall>i < unat (cm_npages s).
              pg_disk (cm_pager (cm_flush s3)) i = ((cm_mem s)(unat pid := x)) i)"
proof -
  have inv: "cm_inv s" using assms(1) by (simp add: cm_tracked_def)
  obtain s1 where s1: "cm_get_page s pid = Inr (pager_get_page (cm_pager s) pid, s1)" "cm_tracked s1"
    "pages_eq (cm_pager s) (cm_pager s1)"
    using cm_get_page_tracked [OF assms(1), of pid] by blast
  have p: "pager_get_page (cm_pager s) pid = Some (page_addr pid)"
    using assms(2) by (simp add: pager_get_page_def not_le)
  have pid: "pid < cm_npages s1" using assms(2) s1(3) by (simp add: pages_eq_def)
  obtain s2 s3 where "cm_assign s1 (Some (page_addr pid)) x = Inr s2" "cm_mark_dirty s2 pid = Inr s3"
    "cm_tracked s3" "cm_mem s3 = (cm_mem s1)(unat pid := x)" "cm_npages s3 = cm_npages s1"
    using cm_write_tracked [OF s1(2) cm_get_page_cached [OF inv assms(2) s1(1)] pid] by blast
  then show ?thesis
    using s1 p cm_flush_durable [of s3] by (auto simp: pages_eq_def)
qed

theorem write_back_durable_witness:
  "\<exists>p s1 s2 s3. cm_get_page (cm_new \<lparr>pg_mem = (\<lambda>_. 0), pg_disk = (\<lambda>_. 0), pg_num_pages = 3\<rparr> 2) 1 = Inr (p, s1) \<and>
     cm_assign s1 p (5 :: nat) = Inr s2 \<and> cm_mark_dirty s2 1 = Inr s3 \<and>
     pg_disk (cm_pager (cm_flush s3)) 1 = 5 \<and> pg_disk (cm_pager (cm_flush s3)) 2 = 0"
proof -
  let ?s = "cm_new \<lparr>pg_mem = (\<lambda>_. 0), pg_disk = (\<lambda>_. 0 :: nat), pg_num_pages = (3 :: u32)\<rparr> 2"
  have "cm_tracked ?s"
    using cm_inv_new [of 2 "\<lparr>pg_mem = (\<lambda>_. 0), pg_disk = (\<lambda>_. 0 :: nat), pg_num_pages = 3\<rparr>"]
    by (simp add: cm_tracked_def cm_new_def tracked_def max_pages_def)
  moreover have "1 < cm_npages ?s" by (simp add: cm_new_def word_less_nat_alt)
  ultimately show ?thesis
    using write_back_durable [of ?s 1 5] by (fastforce simp: cm_new_def)
qed

text \<open>
  \<open>CacheManager::mark_dirty\<close> loses a write to an evicted page. When a client writes
  through a pointer it has kept and the page is no longer in the cache, \<open>mark_dirty\<close> records
  nothing, and \<open>flush\<close> then leaves the old contents of that page on disk.
\<close>

theorem mark_dirty_evicted_lost:
  assumes "cm_inv s" and "unat (cm_npages s) \<le> max_pages" and "pid < cm_npages s"
    and "\<not> cm_cached s pid"
  shows "\<exists>s1 s2. cm_assign s (Some (page_addr pid)) x = Inr s1 \<and> cm_mark_dirty s1 pid = Inr s2 \<and>
           cm_mem s2 (unat pid) = x \<and>
           pg_disk (cm_pager (cm_flush s2)) (unat pid) = pg_disk (cm_pager s) (unat pid)"
proof -
  have small: "unat pid < max_pages" using assms(2,3) by (simp add: page_less_unat)
  define s1 where "s1 = s\<lparr>cm_pager := (cm_pager s)\<lparr>pg_mem := (cm_mem s)(unat pid := x)\<rparr>\<rparr>"
  have s1: "cm_assign s (Some (page_addr pid)) x = Inr s1" "cm_inv s1"
    using small cm_inv_mono [OF assms(1)] by (simp_all add: cm_assign_def s1_def)
  have "\<not> cm_cached s1 pid" using assms(4) by (simp add: cm_cached_def s1_def)
  then obtain c where c: "cm_mark_dirty s1 pid = Inr (s1\<lparr>cm_lru := c\<rparr>)"
    "set (lru_entries c) \<subseteq> set (lru_entries (cm_lru s1))"
    using cm_mark_dirty_uncached [OF s1(2)] by blast
  have inv2: "cm_inv (s1\<lparr>cm_lru := c\<rparr>)" using cm_mark_dirty_spec [OF s1(2), of pid] c(1) by auto
  have "unat (ce_page_id e) \<noteq> unat pid" if "e \<in> set (lru_entries c)" "ce_dirty e" for e
  proof
    assume "unat (ce_page_id e) = unat pid"
    then have id: "ce_page_id e = pid" by (simp add: word_unat_eq_iff)
    have e: "e \<in> set (lru_entries (cm_lru s))" using that c(2) by (auto simp: s1_def)
    then have "lru_find pid (lru_entries (cm_lru s)) = Some e"
      using lru_find_unique id lru_inv_distinct_ids cm_inv_lru assms(1) by blast
    moreover have "ce_page e \<noteq> None"
      using cm_inv_entryD [OF assms(1) e] that(2) by (auto simp: entry_ok_def split: option.splits)
    ultimately show False using assms(4) by (simp add: cm_cached_def)
  qed
  then have "pg_disk (cm_pager (cm_flush (s1\<lparr>cm_lru := c\<rparr>))) (unat pid) = pg_disk (cm_pager s) (unat pid)"
    using cm_flush_disk [OF inv2, of "unat pid"] assms(2) by (simp add: s1_def)
  then show ?thesis using s1(1) c(1) by (simp add: s1_def)
qed

theorem mark_dirty_evicted_lost_witness:
  "\<exists>s1 s2. cm_assign (cm_new \<lparr>pg_mem = (\<lambda>_. 0), pg_disk = (\<lambda>_. 0), pg_num_pages = 3\<rparr> 2)
       (Some 4096) (5 :: nat) = Inr s1 \<and> cm_mark_dirty s1 1 = Inr s2 \<and>
     cm_mem s2 1 = 5 \<and> pg_disk (cm_pager (cm_flush s2)) 1 = 0"
proof -
  let ?s = "cm_new \<lparr>pg_mem = (\<lambda>_. 0), pg_disk = (\<lambda>_. 0 :: nat), pg_num_pages = (3 :: u32)\<rparr> 2"
  have "page_addr 1 = 4096" by (simp add: page_addr_def PAGE_SIZE_def)
  moreover have "1 < cm_npages ?s" "unat (cm_npages ?s) \<le> max_pages" "\<not> cm_cached ?s 1"
    by (simp_all add: cm_new_def word_less_nat_alt max_pages_def cm_cached_def lru_new_def
        lru_entries_def lru_find_def)
  ultimately show ?thesis
    using mark_dirty_evicted_lost [OF cm_inv_new, of 2 "\<lparr>pg_mem = (\<lambda>_. 0), pg_disk = (\<lambda>_. 0 :: nat), pg_num_pages = 3\<rparr>" 1 5]
    by (simp add: cm_new_def)
qed

end
