(* ===== verification/ColumnModel.thy ===== *)
theory ColumnModel
  imports CacheModel
begin

text \<open>
  One column of a table: \<open>ColumnStore\<close> (\<open>src/src/storage/column_store.cpp\<close>,
  \<open>column_store.h\<close>), which appends, and \<open>ColumnReader\<close> (\<open>column_reader.cpp\<close>,
  \<open>column_reader.h\<close>), which reads by row id.

  A page starts with \<open>ColumnPageHeader\<close>: \<open>num_items\<close> in bytes 0 to 3 and \<open>item_size\<close> in
  bytes 4 to 7; the slots follow from byte 8. \<open>active_header_\<close> always points to the start of
  \<open>active_page_\<close> when it is read, so the state keeps one pointer. A function result \<open>False\<close>
  beside the state stands for the early \<open>return\<close>. An access that leaves the 4096 bytes of its
  page is \<open>PageOverrun\<close>.
\<close>

section \<open>The page header\<close>

definition hdr_items :: "pagedata \<Rightarrow> u32" where
  "hdr_items pg = dec32 (page_bytes pg 0 4)"

definition hdr_size :: "pagedata \<Rightarrow> u32" where
  "hdr_size pg = dec32 (page_bytes pg 4 4)"

definition set_items :: "pagedata \<Rightarrow> u32 \<Rightarrow> pagedata" where
  "set_items pg n = page_put pg 0 (enc32 n)"

definition set_size :: "pagedata \<Rightarrow> u32 \<Rightarrow> pagedata" where
  "set_size pg n = page_put pg 4 (enc32 n)"

record colstore =
  cs_cm :: "pagedata cachemgr"
  cs_total_rows :: u64
  cs_active :: ptr
  cs_active_idx :: u32

section \<open>ColumnStore\<close>

text \<open>The constructor: the row count is the sum over the pages the pager knows.\<close>

definition col_open :: "pagedata pager \<Rightarrow> colstore res" where
  "col_open pg =
     rbind (rfold (\<lambda>i s. rbind (cm_get_page (cs_cm s) (of_nat i)) (\<lambda>(p, cm1).
               rbind (cm_deref cm1 p) (\<lambda>page.
                 Inr (s\<lparr>cs_cm := cm1, cs_total_rows := cs_total_rows s + ucast (hdr_items page)\<rparr>))))
        [0..<unat (pager_get_num_pages pg)]
        \<lparr>cs_cm = cm_new pg 256, cs_total_rows = 0, cs_active = None, cs_active_idx = 0xFFFFFFFF\<rparr>) Inr"

text \<open>When a page is full for an item: the conditions of \<open>insert_fixed\<close> and \<open>insert_variable\<close>.\<close>

definition fixed_full :: "u16 \<Rightarrow> pagedata \<Rightarrow> bool res" where
  "fixed_full item_size pg =
     (if item_size = 0 then Inl DivByZero
      else Inr (unat (hdr_items pg) \<ge> (4096 - 8) div unat item_size))"

definition variable_full :: "pagedata \<Rightarrow> bool res" where
  "variable_full pg = Inr (hdr_size pg \<noteq> 0 \<or> unat (hdr_items pg) \<ge> (4096 - 8) div 128)"

text \<open>Allocate, clear and label a new active page; \<open>check\<close>: the branch that tests for null.\<close>

definition col_new_page :: "bool \<Rightarrow> u32 \<Rightarrow> colstore \<Rightarrow> (bool \<times> colstore) res" where
  "col_new_page check item_size s =
     (let (idx, cm1) = cm_allocate (cs_cm s) in
      rbind (cm_get_page cm1 idx) (\<lambda>(p, cm2).
        if check \<and> p = None then Inr (False, s\<lparr>cs_cm := cm2, cs_active := p, cs_active_idx := idx\<rparr>)
        else rbind (cm_assign cm2 p (set_size zero_page item_size)) (\<lambda>cm3.
          Inr (True, s\<lparr>cs_cm := cm3, cs_active := p, cs_active_idx := idx\<rparr>))))"

text \<open>Find the page to append to: the last one if it has room, else a new one.\<close>

definition col_locate :: "(pagedata \<Rightarrow> bool res) \<Rightarrow> u32 \<Rightarrow> colstore \<Rightarrow> (bool \<times> colstore) res" where
  "col_locate full item_size s =
     (let last = cm_npages (cs_cm s) in
      if 0 < last
      then rbind (cm_get_page (cs_cm s) (last - 1)) (\<lambda>(p, cm1).
        rbind (cm_deref cm1 p) (\<lambda>page.
          rbind (full page) (\<lambda>f.
            if f then col_new_page True item_size (s\<lparr>cs_cm := cm1, cs_active := p\<rparr>)
            else Inr (True, s\<lparr>cs_cm := cm1, cs_active := p, cs_active_idx := last - 1\<rparr>))))
      else col_new_page False item_size s)"

definition col_active_full :: "(pagedata \<Rightarrow> bool res) \<Rightarrow> colstore \<Rightarrow> bool res" where
  "col_active_full full s =
     (if cs_active s = None then Inr True
      else rbind (cm_deref (cs_cm s) (cs_active s)) full)"

text \<open>The common body: find the page, write the slot, count the item, mark the page.\<close>

definition col_insert ::
  "(pagedata \<Rightarrow> bool res) \<Rightarrow> u32 \<Rightarrow> (pagedata \<Rightarrow> pagedata res) \<Rightarrow> colstore \<Rightarrow> colstore res" where
  "col_insert full item_size write s =
     rbind (col_active_full full s) (\<lambda>f.
       rbind (if f then col_locate full item_size s else Inr (True, s)) (\<lambda>(go, s1).
         if \<not> go then Inr s1
         else rbind (cm_deref (cs_cm s1) (cs_active s1)) (\<lambda>page.
           rbind (write page) (\<lambda>page1.
             rbind (cm_assign (cs_cm s1) (cs_active s1) (set_items page1 (hdr_items page1 + 1))) (\<lambda>cm1.
               rbind (cm_mark_dirty cm1 (cs_active_idx s1)) (\<lambda>cm2.
                 Inr (s1\<lparr>cs_cm := cm2, cs_total_rows := cs_total_rows s1 + 1\<rparr>)))))))"

definition write_fixed :: "u8 list \<Rightarrow> u16 \<Rightarrow> pagedata \<Rightarrow> pagedata res" where
  "write_fixed data item_size page =
     (if length data < unat item_size then Inl OutOfBounds
      else page_write page (8 + unat (hdr_items page * ucast item_size)) (take (unat item_size) data))"

definition insert_fixed :: "colstore \<Rightarrow> u8 list \<Rightarrow> u16 \<Rightarrow> colstore res" where
  "insert_fixed s data item_size =
     col_insert (fixed_full item_size) (ucast item_size) (write_fixed data item_size) s"

definition write_variable :: "u8 list \<Rightarrow> u16 \<Rightarrow> pagedata \<Rightarrow> pagedata res" where
  "write_variable data sz page =
     (let slot = 8 + unat (hdr_items page * 128); n = (if sz > 126 then 126 else unat sz) in
      if length data < n then Inl OutOfBounds
      else rbind (page_write page slot (enc16 sz)) (\<lambda>page1. page_write page1 (slot + 2) (take n data)))"

definition insert_variable :: "colstore \<Rightarrow> u8 list \<Rightarrow> u16 \<Rightarrow> colstore res" where
  "insert_variable s data sz = col_insert variable_full 0 (write_variable data sz) s"

definition col_flush :: "colstore \<Rightarrow> colstore" where
  "col_flush s = s\<lparr>cs_cm := cm_flush (cs_cm s)\<rparr>"

definition col_clear :: "colstore \<Rightarrow> colstore" where
  "col_clear s =
     (let cm1 = cm_clear (cs_cm s)
      in \<lparr>cs_cm = cm1\<lparr>cm_pager := pager_clear (cm_pager cm1)\<rparr>, cs_total_rows = 0,
          cs_active = None, cs_active_idx = 0xFFFFFFFF\<rparr>)"

section \<open>ColumnReader\<close>

definition reader_total_rows :: "pagedata cachemgr \<Rightarrow> (u64 \<times> pagedata cachemgr) res" where
  "reader_total_rows cm =
     (let np = cm_npages cm in
      if np = 0 then Inr (0, cm)
      else rfold (\<lambda>i (total, c). rbind (cm_get_page c (of_nat i)) (\<lambda>(p, c1).
             rbind (cm_deref c1 p) (\<lambda>page. Inr (total + ucast (hdr_items page), c1))))
           [0..<unat np] (0, cm))"

text \<open>The bytes of a slot.\<close>

definition read_slot :: "pagedata \<Rightarrow> u32 \<Rightarrow> u32 \<Rightarrow> u16 \<Rightarrow> u8 list res" where
  "read_slot page local_rid slot_size fixed_size =
     (let slot = 8 + unat (local_rid * slot_size) in
      if fixed_size > 0 then page_read page slot (unat fixed_size)
      else rbind (page_read page slot 2) (\<lambda>bs.
        let len = dec16 bs; n = (if len > 126 then 126 else unat len)
        in page_read page (slot + 2) n))"

text \<open>The fallback: walk the pages from the first, adding up their items.\<close>

fun read_scan :: "nat list \<Rightarrow> u64 \<Rightarrow> u64 \<Rightarrow> u32 \<Rightarrow> u16 \<Rightarrow> pagedata cachemgr \<Rightarrow>
    (u8 list option \<times> pagedata cachemgr) res" where
  "read_scan [] current rid slot_size fixed_size cm = Inr (None, cm)"
| "read_scan (i # is) current rid slot_size fixed_size cm =
     rbind (cm_get_page cm (of_nat i)) (\<lambda>(p, cm1).
       rbind (cm_deref cm1 p) (\<lambda>page.
         if rid < current + ucast (hdr_items page)
         then rbind (read_slot page (ucast (rid - current)) slot_size fixed_size) (\<lambda>bs. Inr (Some bs, cm1))
         else read_scan is (current + ucast (hdr_items page)) rid slot_size fixed_size cm1))"

definition read_at :: "pagedata cachemgr \<Rightarrow> u64 \<Rightarrow> u16 \<Rightarrow> (u8 list option \<times> pagedata cachemgr) res" where
  "read_at cm rid fixed_size =
     (let np = cm_npages cm; slot_size = (if fixed_size > 0 then ucast fixed_size else 128 :: u32);
          max_items = (4096 - 8) div slot_size; p = ucast (rid div ucast max_items) :: u32;
          scan = read_scan [0..<unat np] 0 rid slot_size fixed_size in
      if np = 0 then Inr (None, cm)
      else if max_items = 0 then Inl DivByZero
      else if p < np
      then rbind (cm_get_page cm p) (\<lambda>(ptr, cm1).
        rbind (cm_deref cm1 ptr) (\<lambda>page.
          let start_rid = ucast p * ucast max_items :: u64 in
          if rid \<ge> start_rid \<and> rid < start_rid + ucast (hdr_items page)
          then rbind (read_slot page (ucast (rid - start_rid)) slot_size fixed_size) (\<lambda>bs. Inr (Some bs, cm1))
          else scan cm1))
      else scan cm)"

end
