(* ===== verification/ColumnProofs.thy ===== *)
theory ColumnProofs
  imports ColumnModel
begin

text \<open>
  A column is a growing list. \<open>slot_format\<close> is the contract between the page layout and the
  two insertion functions: when a page is full, what writing a slot does, and what reading it
  gives. Under it, an insertion appends to the list that the pages hold and \<open>read_at\<close> is the
  lookup by position; the locale is interpreted for \<open>insert_fixed\<close> and \<open>insert_variable\<close>.
\<close>

section \<open>Headers\<close>

lemma hdr_set_items [simp]:
  "hdr_items (set_items pg n) = n" "hdr_size (set_items pg n) = hdr_size pg"
  by (simp_all add: hdr_items_def hdr_size_def set_items_def)

lemma hdr_set_size [simp]:
  "hdr_size (set_size pg n) = n" "hdr_items (set_size pg n) = hdr_items pg"
  by (simp_all add: hdr_items_def hdr_size_def set_size_def)

lemma hdr_zero [simp]: "hdr_items zero_page = 0"
  by (simp add: hdr_items_def dec32_def)

lemma hdr_page_put:
  "8 \<le> off \<Longrightarrow> hdr_items (page_put pg off bs) = hdr_items pg"
  "8 \<le> off \<Longrightarrow> hdr_size (page_put pg off bs) = hdr_size pg"
  by (simp_all add: hdr_items_def hdr_size_def)

lemma page_bytes_set_items [simp]: "8 \<le> off \<Longrightarrow> page_bytes (set_items pg n) off k = page_bytes pg off k"
  by (simp add: set_items_def)

section \<open>The contract of a slot format\<close>

locale slot_format =
  fixes full :: "pagedata \<Rightarrow> bool res"
    and item_size :: u32
    and put :: "'x \<Rightarrow> pagedata \<Rightarrow> pagedata res"
    and ok :: "pagedata \<Rightarrow> nat \<Rightarrow> 'x \<Rightarrow> bool"
    and wf :: "'x \<Rightarrow> bool"
    and fixed_size :: u16
    and val :: "'x \<Rightarrow> u8 list"
    and m :: nat
  assumes full_law: "hdr_size pg = item_size \<Longrightarrow> full pg = Inr (m \<le> unat (hdr_items pg))"
    and write_law: "hdr_size pg = item_size \<Longrightarrow> unat (hdr_items pg) < m \<Longrightarrow> wf x \<Longrightarrow>
        \<exists>pg'. put x pg = Inr pg' \<and> hdr_items pg' = hdr_items pg \<and> hdr_size pg' = hdr_size pg \<and>
          ok pg' (unat (hdr_items pg)) x \<and> (\<forall>i y. i < unat (hdr_items pg) \<longrightarrow> wf y \<longrightarrow> ok pg i y \<longrightarrow> ok pg' i y)"
    and count_law: "ok (set_items pg n) i x \<longleftrightarrow> ok pg i x"
    and read_law: "ok pg i x \<Longrightarrow> wf x \<Longrightarrow> i < m \<Longrightarrow>
        read_slot pg (of_nat i) (if fixed_size > 0 then ucast fixed_size else 128) fixed_size = Inr (val x)"
    and per_page: "m = (4096 - 8) div (if fixed_size > 0 then unat fixed_size else 128)" "0 < m"
begin

definition page_holds :: "pagedata \<Rightarrow> 'x list \<Rightarrow> bool" where
  "page_holds pg xs \<longleftrightarrow> hdr_size pg = item_size \<and> unat (hdr_items pg) = length xs \<and> length xs \<le> m \<and>
     (\<forall>i < length xs. ok pg i (xs ! i))"

definition col_inv :: "colstore \<Rightarrow> 'x list \<Rightarrow> bool" where
  "col_inv s xs \<longleftrightarrow> cm_inv (cs_cm s) \<and> unat (cm_npages (cs_cm s)) \<le> max_pages \<and>
     unat (cs_total_rows s) = length xs \<and> list_all wf xs \<and>
     length xs \<le> unat (cm_npages (cs_cm s)) * m \<and>
     (0 < unat (cm_npages (cs_cm s)) \<longrightarrow> (unat (cm_npages (cs_cm s)) - 1) * m < length xs) \<and>
     (\<forall>p < unat (cm_npages (cs_cm s)). page_holds (cm_mem (cs_cm s) p) (take m (drop (p * m) xs))) \<and>
     (cs_active s = None \<or> 0 < unat (cm_npages (cs_cm s)) \<and>
        cs_active s = Some (page_addr (cm_npages (cs_cm s) - 1)) \<and> cs_active_idx s = cm_npages (cs_cm s) - 1)"

text \<open>The state in which the slot is written: page \<open>a\<close> is active, last, and has room.\<close>

definition ready :: "colstore \<Rightarrow> 'x list \<Rightarrow> u32 \<Rightarrow> bool" where
  "ready s xs a \<longleftrightarrow> cm_inv (cs_cm s) \<and> unat a < max_pages \<and> cm_npages (cs_cm s) = a + 1 \<and>
     unat (cs_total_rows s) = length xs \<and> list_all wf xs \<and>
     cs_active s = Some (page_addr a) \<and> cs_active_idx s = a \<and>
     unat a * m \<le> length xs \<and> length xs < unat a * m + m \<and>
     (\<forall>p < unat a. page_holds (cm_mem (cs_cm s) p) (take m (drop (p * m) xs))) \<and>
     page_holds (cm_mem (cs_cm s) (unat a)) (drop (unat a * m) xs)"

lemma m_bound: "m \<le> 4088"
  unfolding per_page(1) by simp

lemma page_append:
  assumes "page_holds pg xs" and "length xs < m" and "wf x" and "list_all wf xs"
  shows "\<exists>pg'. put x pg = Inr pg' \<and> page_holds (set_items pg' (hdr_items pg' + 1)) (xs @ [x])"
proof -
  have h: "hdr_size pg = item_size" "unat (hdr_items pg) = length xs"
    using assms(1) by (simp_all add: page_holds_def)
  obtain pg' where pg': "put x pg = Inr pg'" "hdr_items pg' = hdr_items pg" "hdr_size pg' = hdr_size pg"
    "ok pg' (length xs) x" "\<forall>i y. i < length xs \<longrightarrow> wf y \<longrightarrow> ok pg i y \<longrightarrow> ok pg' i y"
    using write_law [OF h(1) _ assms(3)] h(2) assms(2) by auto
  have "unat (hdr_items pg + 1) = Suc (length xs)"
    using h(2) assms(2) m_bound by (simp add: unat_word_ariths)
  moreover have "ok pg' i ((xs @ [x]) ! i)" if "i < Suc (length xs)" for i
    using that pg'(4,5) assms(1,4) by (auto simp: nth_append page_holds_def list_all_length less_Suc_eq)
  ultimately show ?thesis
    using pg' h assms(2) by (auto simp: page_holds_def count_law)
qed

lemma page_fresh: "page_holds (set_size zero_page item_size) []"
  by (simp add: page_holds_def)

lemma write_ready:
  assumes r: "ready s xs a" and x: "wf x"
  shows "\<exists>pg cm1 cm2 pg'. cm_deref (cs_cm s) (cs_active s) = Inr pg \<and> put x pg = Inr pg' \<and>
           cm_assign (cs_cm s) (cs_active s) (set_items pg' (hdr_items pg' + 1)) = Inr cm1 \<and>
           cm_mark_dirty cm1 (cs_active_idx s) = Inr cm2 \<and>
           col_inv (s\<lparr>cs_cm := cm2, cs_total_rows := cs_total_rows s + 1\<rparr>) (xs @ [x])"
proof -
  let ?pg = "cm_mem (cs_cm s) (unat a)" and ?p = "Some (page_addr a)"
  have R: "cm_inv (cs_cm s)" "unat a < max_pages" "cm_npages (cs_cm s) = a + 1" "unat (cs_total_rows s) = length xs"
    "list_all wf xs" "cs_active s = ?p" "cs_active_idx s = a" "unat a * m \<le> length xs" "length xs < unat a * m + m"
    "\<forall>p < unat a. page_holds (cm_mem (cs_cm s) p) (take m (drop (p * m) xs))" "page_holds ?pg (drop (unat a * m) xs)"
    using r by (simp_all add: ready_def)
  have "list_all wf (drop (unat a * m) xs)" "length (drop (unat a * m) xs) < m"
    using R(5,8,9) by (auto simp: list_all_iff dest: in_set_dropD)
  then obtain pg' where pg': "put x ?pg = Inr pg'"
    "page_holds (set_items pg' (hdr_items pg' + 1)) (drop (unat a * m) xs @ [x])"
    using page_append [OF R(11) _ x] by blast
  let ?new = "set_items pg' (hdr_items pg' + 1)"
  obtain cm1 cm2 where w: "cm_assign (cs_cm s) ?p ?new = Inr cm1" "cm_mark_dirty cm1 a = Inr cm2" "cm_inv cm2"
    "cm_mem cm2 = (cm_mem (cs_cm s))(unat a := ?new)" "cm_npages cm2 = a + 1"
    using cm.write_page [OF R(1,2), of ?new] R(3) by auto
  have np: "unat (a + 1) = Suc (unat a)" using R(2) by simp
  have old: "take m (drop (p * m) (xs @ [x])) = take m (drop (p * m) xs)" if "p < unat a" for p
  proof -
    have "p * m + m \<le> unat a * m" using that by (metis Suc_leI add.commute mult_Suc mult_le_mono1)
    then show ?thesis using R(8) by simp
  qed
  have last: "take m (drop (unat a * m) (xs @ [x])) = drop (unat a * m) xs @ [x]"
    using R(8,9) by simp
  have pages: "\<forall>p < Suc (unat a). page_holds (cm_mem cm2 p) (take m (drop (p * m) (xs @ [x])))"
  proof (intro allI impI)
    fix p assume "p < Suc (unat a)"
    then consider "p < unat a" | "p = unat a" by linarith
    then show "page_holds (cm_mem cm2 p) (take m (drop (p * m) (xs @ [x])))"
    proof cases
      case 1
      then show ?thesis using R(10) unfolding old [OF 1] w(4) by simp
    next
      case 2
      then show ?thesis using pg'(2) last unfolding w(4) 2 by simp
    qed
  qed
  have "length xs < max_pages * m"
  proof -
    have "unat a * m + m \<le> max_pages * m" using R(2) by (metis Suc_leI add.commute mult_Suc mult_le_mono1)
    then show ?thesis using R(9) by simp
  qed
  moreover have "max_pages * m \<le> max_pages * 4088" using m_bound by simp
  ultimately have "length xs < max_pages * 4088" by linarith
  then have "unat (cs_total_rows s + 1) = Suc (length xs)"
    using R(4) by (simp add: unat_word_ariths max_pages_def)
  moreover have "0 < m" by (rule per_page(2))
  ultimately have "col_inv (s\<lparr>cs_cm := cm2, cs_total_rows := cs_total_rows s + 1\<rparr>) (xs @ [x])"
    using pages w(3,5) np R(2,5-9) x by (simp add: col_inv_def)
  then show ?thesis
    using pg'(1) w(1,2) R(2,6,7) cm.deref_law [OF R(2), of "cs_cm s"] by (intro exI conjI) simp_all
qed

text \<open>The three ways to a ready state: the last page has room, it is full, there is none.\<close>

lemma new_page_ready:
  assumes inv: "cm_inv (cs_cm s)" "unat (cm_npages (cs_cm s)) < max_pages"
    and rows: "unat (cs_total_rows s) = length xs" "list_all wf xs" "length xs = unat (cm_npages (cs_cm s)) * m"
    and pages: "\<forall>p < unat (cm_npages (cs_cm s)). page_holds (cm_mem (cs_cm s) p) (take m (drop (p * m) xs))"
  shows "\<exists>s1. col_new_page check item_size s = Inr (True, s1) \<and> ready s1 xs (cm_npages (cs_cm s))"
proof -
  let ?np = "cm_npages (cs_cm s)" and ?x = "set_size zero_page item_size"
  obtain c1 c2 where c2: "cm_allocate (cs_cm s) = (?np, c1)" "cm_get_page c1 ?np = Inr (Some (page_addr ?np), c2)"
    "cm_inv c2" "cm_mem c2 = cm_mem (cs_cm s)" "cm_npages c2 = ?np + 1"
    using cm.alloc_fetch [OF inv] by blast
  obtain c3 where c3: "cm_assign c2 (Some (page_addr ?np)) ?x = Inr c3" "cm_inv c3"
    "cm_mem c3 = (cm_mem c2)(unat ?np := ?x)" "cm_npages c3 = cm_npages c2"
    using cm.assign_law [OF c2(3) inv(2), of ?x] by blast
  let ?s1 = "s\<lparr>cs_cm := c3, cs_active := Some (page_addr ?np), cs_active_idx := ?np\<rparr>"
  have "col_new_page check item_size s = Inr (True, ?s1)"
    using c2(1,2) c3(1) by (simp add: col_new_page_def)
  moreover have "ready ?s1 xs ?np"
    using c3 c2(4,5) inv(2) rows pages page_fresh per_page(2) by (simp add: ready_def)
  ultimately show ?thesis by blast
qed

lemma last_page:
  assumes "col_inv s xs" and "0 < unat (cm_npages (cs_cm s))"
  defines "a \<equiv> cm_npages (cs_cm s) - 1"
  shows "unat (cm_npages (cs_cm s)) = Suc (unat a)" "cm_npages (cs_cm s) = a + 1" "unat a < max_pages"
    "a < cm_npages (cs_cm s)" "unat a * m \<le> length xs" "length xs \<le> unat a * m + m"
    "page_holds (cm_mem (cs_cm s) (unat a)) (drop (unat a * m) xs)"
proof -
  show eq: "cm_npages (cs_cm s) = a + 1" by (simp add: a_def)
  show sa: "unat (cm_npages (cs_cm s)) = Suc (unat a)"
    using assms(2) unfolding a_def by (subst unat_minus_one) (auto simp: unat_eq_zero)
  then show "unat a < max_pages" "a < cm_npages (cs_cm s)"
    using assms(1) by (simp_all add: col_inv_def page_less_unat)
  show "unat a * m \<le> length xs" and le: "length xs \<le> unat a * m + m"
    using assms(1) sa by (simp_all add: col_inv_def)
  have "page_holds (cm_mem (cs_cm s) (unat a)) (take m (drop (unat a * m) xs))"
    using assms(1) sa by (simp add: col_inv_def)
  then show "page_holds (cm_mem (cs_cm s) (unat a)) (drop (unat a * m) xs)" using le by simp
qed

lemma page_full_law:
  "page_holds pg ys \<Longrightarrow> full pg = Inr (m \<le> length ys)"
  using full_law by (auto simp: page_holds_def)

lemma locate_ready:
  assumes inv: "col_inv s xs" and room: "length xs < max_pages * m"
  shows "\<exists>f s1 a. col_active_full full s = Inr f \<and>
     (if f then col_locate full item_size s else Inr (True, s)) = Inr (True, s1) \<and> ready s1 xs a"
proof (cases "0 < unat (cm_npages (cs_cm s))")
  case False
  then have np: "cm_npages (cs_cm s) = 0" and xs: "xs = []" and act: "cs_active s = None"
    using inv by (simp_all add: col_inv_def unat_eq_zero)
  obtain s1 where s1: "col_new_page False item_size s = Inr (True, s1)" "ready s1 xs (cm_npages (cs_cm s))"
    using new_page_ready [of s xs False] inv np xs by (auto simp: col_inv_def max_pages_def)
  have "col_active_full full s = Inr True" using act by (simp add: col_active_full_def)
  moreover have "col_locate full item_size s = Inr (True, s1)"
    using np s1(1) by (simp add: col_locate_def)
  ultimately show ?thesis using s1(2) by auto
next
  case True
  define a where "a = cm_npages (cs_cm s) - 1"
  note L = last_page [OF inv True, folded a_def]
  have I: "cm_inv (cs_cm s)" "unat (cs_total_rows s) = length xs" "list_all wf xs"
    "\<forall>p < unat (cm_npages (cs_cm s)). page_holds (cm_mem (cs_cm s) p) (take m (drop (p * m) xs))"
    using inv by (simp_all add: col_inv_def)
  let ?pg = "cm_mem (cs_cm s) (unat a)" and ?full = "length xs = unat a * m + m"
  have fl: "full ?pg = Inr ?full" using page_full_law [OF L(7)] L(5,6) by auto
  obtain c1 where c1: "cm_get_page (cs_cm s) a = Inr (Some (page_addr a), c1)"
    "cm_deref c1 (Some (page_addr a)) = Inr ?pg" "cm_inv c1" "cm_mem c1 = cm_mem (cs_cm s)"
    "cm_npages c1 = cm_npages (cs_cm s)"
    using cm.fetch [OF I(1) L(4,3)] by blast
  have act: "cs_active s = None \<or> cs_active s = Some (page_addr a) \<and> cs_active_idx s = a"
    using inv by (auto simp: col_inv_def a_def)
  have f: "col_active_full full s = Inr (cs_active s = None \<or> ?full)"
    using act fl cm.deref_law [OF L(3), of "cs_cm s"] by (auto simp: col_active_full_def)
  have pos: "0 < cm_npages (cs_cm s)" using True by (simp add: word_less_nat_alt)
  have ready: "ready (s\<lparr>cs_cm := c, cs_active := Some (page_addr a), cs_active_idx := a\<rparr>) xs a"
    if "\<not> ?full" "cm_inv c" "cm_mem c = cm_mem (cs_cm s)" "cm_npages c = cm_npages (cs_cm s)" for c
    using that I L by (simp add: ready_def)
  show ?thesis
  proof (cases ?full)
    case False
    show ?thesis
    proof (cases "cs_active s = None")
      case True
      have "col_locate full item_size s =
          Inr (True, s\<lparr>cs_cm := c1, cs_active := Some (page_addr a), cs_active_idx := a\<rparr>)"
        using pos c1(1,2) fl False by (simp add: col_locate_def flip: a_def)
      then show ?thesis using f True ready [OF False c1(3-5)] by auto
    next
      case act': False
      then have "ready s xs a" using act False I L by (auto simp: ready_def)
      then show ?thesis using f act' False by auto
    qed
  next
    case full: True
    let ?s = "s\<lparr>cs_cm := c1, cs_active := Some (page_addr a)\<rparr>"
    have "Suc (unat a) * m < max_pages * m" using room full by simp
    then have "Suc (unat a) < max_pages" using mult_less_cancel2 by blast
    then obtain s1 where s1: "col_new_page True item_size ?s = Inr (True, s1)" "ready s1 xs (cm_npages (cs_cm s))"
      using new_page_ready [of ?s xs True] c1(3-5) I full L(1) by (auto simp: add.commute)
    have "col_locate full item_size s = Inr (True, s1)"
      using pos c1(1,2) fl full s1(1) by (simp add: col_locate_def flip: a_def)
    then show ?thesis using f full s1(2) by auto
  qed
qed

theorem insert_appends:
  assumes "col_inv s xs" and "length xs < max_pages * m" and "wf x"
  shows "\<exists>s'. col_insert full item_size (put x) s = Inr s' \<and> col_inv s' (xs @ [x])"
proof -
  obtain f s1 a where l: "col_active_full full s = Inr f"
    "(if f then col_locate full item_size s else Inr (True, s)) = Inr (True, s1)" "ready s1 xs a"
    using locate_ready [OF assms(1,2)] by blast
  obtain pg cm1 cm2 pg' where "cm_deref (cs_cm s1) (cs_active s1) = Inr pg" "put x pg = Inr pg'"
    "cm_assign (cs_cm s1) (cs_active s1) (set_items pg' (hdr_items pg' + 1)) = Inr cm1"
    "cm_mark_dirty cm1 (cs_active_idx s1) = Inr cm2"
    "col_inv (s1\<lparr>cs_cm := cm2, cs_total_rows := cs_total_rows s1 + 1\<rparr>) (xs @ [x])"
    using write_ready [OF l(3) assms(3)] by blast
  then show ?thesis using l(1,2) by (simp add: col_insert_def)
qed

section \<open>Reading\<close>

text \<open>What reading needs of the cache state: the pages hold the list.\<close>

definition holds :: "pagedata cachemgr \<Rightarrow> 'x list \<Rightarrow> bool" where
  "holds c xs \<longleftrightarrow> cm_inv c \<and> unat (cm_npages c) \<le> max_pages \<and> list_all wf xs \<and>
     length xs \<le> unat (cm_npages c) * m \<and> (0 < unat (cm_npages c) \<longrightarrow> (unat (cm_npages c) - 1) * m < length xs) \<and>
     (\<forall>p < unat (cm_npages c). page_holds (cm_mem c p) (take m (drop (p * m) xs)))"

lemma col_inv_holds: "col_inv s xs \<Longrightarrow> holds (cs_cm s) xs"
  by (simp add: col_inv_def holds_def)

lemma holds_bound: "holds c xs \<Longrightarrow> length xs \<le> max_pages * 4088"
proof -
  assume h: "holds c xs"
  then have "length xs \<le> unat (cm_npages c) * m" by (simp add: holds_def)
  also have "\<dots> \<le> max_pages * 4088" using h m_bound by (intro mult_le_mono) (auto simp: holds_def)
  finally show ?thesis .
qed

lemma fetch_page:
  assumes "holds c xs" and "p < unat (cm_npages c)"
  shows "\<exists>c'. cm_get_page c (of_nat p) = Inr (Some (page_addr (of_nat p)), c') \<and>
           cm_deref c' (Some (page_addr (of_nat p))) = Inr (cm_mem c p) \<and> holds c' xs \<and>
           cm_mem c' = cm_mem c \<and> cm_npages c' = cm_npages c"
proof -
  have p: "unat (of_nat p :: u32) = p"
    using assms by (simp add: holds_def max_pages_def unat_of_nat)
  have "p < max_pages" using assms by (simp add: holds_def)
  then show ?thesis
    using cm.fetch [of c "of_nat p"] assms p by (fastforce simp: holds_def page_less_unat)
qed

lemma page_items:
  assumes "holds c xs" and "p < unat (cm_npages c)"
  shows "unat (hdr_items (cm_mem c p)) = min m (length xs - p * m)" "p * m \<le> length xs"
proof -
  show "unat (hdr_items (cm_mem c p)) = min m (length xs - p * m)"
    using assms by (auto simp: holds_def page_holds_def)
  have "p * m \<le> (unat (cm_npages c) - 1) * m" using assms(2) by (intro mult_le_mono1) simp
  moreover have "(unat (cm_npages c) - 1) * m < length xs" using assms by (simp add: holds_def)
  ultimately show "p * m \<le> length xs" by linarith
qed

text \<open>A row id beyond the last row is found on no page.\<close>

lemma scan_beyond:
  assumes "holds c xs" and "length xs \<le> unat rid" and "k \<le> unat (cm_npages c)"
    and "unat current = min (k * m) (length xs)"
  shows "\<exists>c'. read_scan [k..<unat (cm_npages c)] current rid S F c = Inr (None, c') \<and> holds c' xs \<and>
           cm_mem c' = cm_mem c \<and> cm_npages c' = cm_npages c"
  using assms
proof (induction "unat (cm_npages c) - k" arbitrary: k current c)
  case 0
  then show ?case by simp
next
  case (Suc d)
  then have k: "k < unat (cm_npages c)" "[k..<unat (cm_npages c)] = k # [Suc k..<unat (cm_npages c)]"
    by (simp_all add: upt_conv_Cons)
  obtain c1 where c1: "cm_get_page c (of_nat k) = Inr (Some (page_addr (of_nat k)), c1)"
    "cm_deref c1 (Some (page_addr (of_nat k))) = Inr (cm_mem c k)" "holds c1 xs"
    "cm_mem c1 = cm_mem c" "cm_npages c1 = cm_npages c"
    using fetch_page [OF Suc.prems(1) k(1)] by blast
  let ?cur = "current + ucast (hdr_items (cm_mem c k))"
  note it = page_items [OF Suc.prems(1) k(1)]
  have "unat ?cur = k * m + min m (length xs - k * m)"
    using Suc.prems(4) it holds_bound [OF Suc.prems(1)]
    by (simp add: unat_word_ariths max_pages_def)
  then have cur: "unat ?cur = min (Suc k * m) (length xs)" using it(2) by simp
  then have "\<not> rid < ?cur" using Suc.prems(2) by (simp add: word_less_nat_alt)
  moreover have "\<exists>c'. read_scan [Suc k..<unat (cm_npages c1)] ?cur rid S F c1 = Inr (None, c') \<and> holds c' xs \<and>
      cm_mem c' = cm_mem c1 \<and> cm_npages c' = cm_npages c1"
    using Suc.hyps(2) k(1) c1(3,5) Suc.prems(2) cur by (intro Suc.hyps(1)) auto
  ultimately show ?case using c1 by (simp add: k(2))
qed

abbreviation slot_size :: u32 where
  "slot_size \<equiv> (if fixed_size > 0 then ucast fixed_size else 128)"

lemma unat_max_items: "unat ((4096 - 8) div slot_size) = m"
  using per_page(1) by (simp add: unat_div)

lemma read_page:
  assumes "holds c xs" and "p < unat (cm_npages c)" and "i < length xs" and "p = i div m"
  shows "read_slot (cm_mem c p) (of_nat (i mod m)) slot_size fixed_size = Inr (val (xs ! i))"
proof -
  let ?ys = "take m (drop (p * m) xs)"
  have split: "i = p * m + i mod m" using assms(4) by simp
  have mod: "i mod m < m" using per_page(2) by simp
  then have len: "i mod m < length ?ys" using split assms(3) by (simp add: min_def) linarith
  then have nth: "?ys ! (i mod m) = xs ! i" using mod split by simp
  have "page_holds (cm_mem c p) ?ys" using assms(1,2) by (simp add: holds_def)
  then have "ok (cm_mem c p) (i mod m) (xs ! i)" using len nth by (auto simp: page_holds_def)
  moreover have "wf (xs ! i)" using assms(1,3) by (simp add: holds_def list_all_length)
  ultimately show ?thesis using read_law mod by simp
qed

text \<open>The page that the fast path computes, and the row ids it compares with.\<close>

lemma rid_page:
  fixes rid :: u64 and M :: u32
  assumes "holds c xs" and M: "unat M = m" and "unat rid < length xs"
  shows "unat (ucast (rid div ucast M) :: u32) = unat rid div m" "unat rid div m < unat (cm_npages c)"
proof -
  show q: "unat rid div m < unat (cm_npages c)"
    using assms per_page(2) by (intro less_mult_imp_div_less) (auto simp: holds_def)
  have "unat (rid div ucast M) = unat rid div m" using M by (simp add: unat_div)
  then show "unat (ucast (rid div ucast M) :: u32) = unat rid div m"
    using q assms(1) by (simp add: unsigned_ucast_eq take_bit_nat_eq_self holds_def max_pages_def)
qed

lemma page_range:
  fixes p M :: u32
  assumes "holds c xs" and M: "unat M = m" and "unat p < unat (cm_npages c)"
  shows "unat (ucast p * ucast M :: u64) = unat p * m"
    "unat (ucast p * ucast M + ucast (hdr_items (cm_mem c (unat p))) :: u64) =
      unat p * m + min m (length xs - unat p * m)"
proof -
  note bound = holds_bound [OF assms(1), unfolded max_pages_def] and it = page_items [OF assms(1,3)]
  show start: "unat (ucast p * ucast M :: u64) = unat p * m"
    using it(2) bound M by (simp add: unat_word_ariths)
  show "unat (ucast p * ucast M + ucast (hdr_items (cm_mem c (unat p))) :: u64) =
      unat p * m + min m (length xs - unat p * m)"
    using start it bound by (simp add: unat_word_ariths)
qed

theorem read_at_nth:
  assumes h: "holds c xs"
  shows "\<exists>c'. read_at c rid fixed_size =
            Inr (if unat rid < length xs then Some (val (xs ! unat rid)) else None, c') \<and> holds c' xs \<and>
           cm_mem c' = cm_mem c \<and> cm_npages c' = cm_npages c"
proof (cases "cm_npages c = 0")
  case True
  then have "xs = []" using h by (simp add: holds_def)
  then show ?thesis using True h by (intro exI [of _ c]) (simp add: read_at_def)
next
  case False
  define S where "S = slot_size"
  define M where "M = (4096 - 8) div S"
  define p where "p = (ucast (rid div ucast M) :: u32)"
  have M: "unat M = m" "M \<noteq> 0" using unat_max_items per_page(2) by (auto simp: M_def S_def)
  then have at: "read_at c rid fixed_size = (if p < cm_npages c
      then rbind (cm_get_page c p) (\<lambda>(ptr, cm1). rbind (cm_deref cm1 ptr) (\<lambda>page.
         if ucast p * ucast M \<le> rid \<and> rid < ucast p * ucast M + ucast (hdr_items page)
         then rbind (read_slot page (ucast (rid - ucast p * ucast M)) S fixed_size) (\<lambda>bs. Inr (Some bs, cm1))
         else read_scan [0..<unat (cm_npages c)] 0 rid S fixed_size cm1))
      else read_scan [0..<unat (cm_npages c)] 0 rid S fixed_size c)"
    using False unfolding read_at_def Let_def p_def M_def S_def by simp
  have scan: "\<exists>c'. read_scan [0..<unat (cm_npages c)] 0 rid S fixed_size c1 = Inr (None, c') \<and> holds c' xs \<and>
      cm_mem c' = cm_mem c \<and> cm_npages c' = cm_npages c"
    if "holds c1 xs" "length xs \<le> unat rid" "cm_mem c1 = cm_mem c" "cm_npages c1 = cm_npages c" for c1
    using scan_beyond [OF that(1,2), of 0 0] that(3,4) by simp
  note pg = rid_page [OF h M(1), of rid, folded p_def]
  show ?thesis
  proof (cases "p < cm_npages c")
    case outside: False
    then have "length xs \<le> unat rid" using pg by (force simp: page_less_unat)
    then show ?thesis using at outside scan [OF h] by simp
  next
    case inside: True
    then have pn: "unat p < unat (cm_npages c)" by (simp add: page_less_unat)
    obtain c1 where c1: "cm_get_page c p = Inr (Some (page_addr p), c1)"
      "cm_deref c1 (Some (page_addr p)) = Inr (cm_mem c (unat p))" "holds c1 xs"
      "cm_mem c1 = cm_mem c" "cm_npages c1 = cm_npages c"
      using fetch_page [OF h pn] by auto
    note range = page_range [OF h M(1) pn]
    show ?thesis
    proof (cases "unat rid < length xs")
      case True
      have off: "unat rid = unat p * m + unat rid mod m" "unat rid mod m < m" using pg(1) [OF True] per_page(2) by simp_all
      then have cond: "ucast p * ucast M \<le> rid \<and> rid < ucast p * ucast M + ucast (hdr_items (cm_mem c (unat p)))"
        using True range by (simp add: word_le_nat_alt word_less_nat_alt)
      have "unat (rid - ucast p * ucast M) = unat rid mod m" using cond off range(1) by (simp add: unat_sub)
      then have "(ucast (rid - ucast p * ucast M) :: u32) = of_nat (unat rid mod m)" by (metis of_nat_unat)
      then show ?thesis using at inside c1 cond read_page [OF h pn True pg(1) [OF True], folded S_def] True by simp
    next
      case False
      then have "\<not> rid < ucast p * ucast M + ucast (hdr_items (cm_mem c (unat p)))"
        using range(2) page_items(2) [OF h pn] unfolding word_less_nat_alt by linarith
      then show ?thesis using at inside c1 False scan [OF c1(3) _ c1(4,5)] by simp
    qed
  qed
qed

lemma total_rows_law:
  assumes h: "holds c xs"
  shows "\<exists>c'. reader_total_rows c = Inr (of_nat (length xs), c') \<and> holds c' xs"
proof -
  let ?np = "unat (cm_npages c)"
  let ?step = "\<lambda>i (total, c). rbind (cm_get_page c (of_nat i)) (\<lambda>(p, c1).
      rbind (cm_deref c1 p) (\<lambda>page. Inr (total + ucast (hdr_items page), c1)))"
  have "\<exists>st. rfold ?step [0..<?np] (0 :: u64, c) = Inr st \<and>
      (fst st = of_nat (min (length [0..<?np] * m) (length xs)) \<and> holds (snd st) xs \<and> cm_npages (snd st) = cm_npages c)"
  proof (rule rfold_invariant)
    fix ys k zs and st :: "u64 \<times> pagedata cachemgr"
    assume split: "[0..<?np] = ys @ k # zs"
      and st: "fst st = of_nat (min (length ys * m) (length xs)) \<and> holds (snd st) xs \<and> cm_npages (snd st) = cm_npages c"
    have k: "k = length ys" "k < ?np"
    proof -
      have "length ys < ?np" using arg_cong [OF split, of length] by simp
      moreover have "[0..<?np] ! length ys = k" by (simp add: split)
      ultimately show "k = length ys" "k < ?np" by simp_all
    qed
    then have kn: "k < unat (cm_npages (snd st))" using st by simp
    obtain c1 where c1: "cm_get_page (snd st) (of_nat k) = Inr (Some (page_addr (of_nat k)), c1)"
      "cm_deref c1 (Some (page_addr (of_nat k))) = Inr (cm_mem (snd st) k)" "holds c1 xs"
      "cm_npages c1 = cm_npages (snd st)"
      using fetch_page [of "snd st" xs k] st kn by blast
    note it = page_items [of "snd st" xs k] 
    have it': "unat (hdr_items (cm_mem (snd st) k)) = min m (length xs - k * m)" "k * m \<le> length xs"
      using it st kn by blast+
    have "(ucast (hdr_items (cm_mem (snd st) k)) :: u64) = of_nat (min m (length xs - k * m))"
      using it'(1) by (metis of_nat_unat)
    then have "fst st + ucast (hdr_items (cm_mem (snd st) k)) =
        of_nat (min (k * m) (length xs) + min m (length xs - k * m))"
      using st k(1) by simp
    also have "min (k * m) (length xs) + min m (length xs - k * m) = min (length (ys @ [k]) * m) (length xs)"
      using it'(2) k(1) by simp
    finally show "\<exists>st'. ?step k st = Inr st' \<and> fst st' = of_nat (min (length (ys @ [k]) * m) (length xs)) \<and>
        holds (snd st') xs \<and> cm_npages (snd st') = cm_npages c"
      using c1 st by (auto simp: split_beta)
  qed (use h in simp)
  moreover have "min (?np * m) (length xs) = length xs" using h by (simp add: holds_def)
  moreover have "xs = []" if "cm_npages c = 0" using h that by (simp add: holds_def)
  ultimately show ?thesis using h by (auto simp: reader_total_rows_def Let_def)
qed

text \<open>Whole histories: the list of a new or cleared column is empty, and insertions append.\<close>

lemma col_inv_empty:
  assumes "cm_inv (cs_cm s)" and "cm_npages (cs_cm s) = 0" and "cs_total_rows s = 0" and "cs_active s = None"
  shows "col_inv s []"
  using assms by (simp add: col_inv_def)

lemma run_appends:
  assumes "col_inv s xs" and "list_all wf ys" and "length xs + length ys \<le> max_pages * m"
  shows "\<exists>s'. rfold (\<lambda>x s. col_insert full item_size (put x) s) ys s = Inr s' \<and> col_inv s' (xs @ ys)"
proof (rule rfold_invariant)
  show "col_inv s (xs @ [])" using assms(1) by simp
next
  fix us x zs t
  assume "ys = us @ x # zs" and "col_inv t (xs @ us)"
  then show "\<exists>t'. col_insert full item_size (put x) t = Inr t' \<and> col_inv t' (xs @ us @ [x])"
    using insert_appends [of t "xs @ us" x] assms(2,3) by simp
qed

text \<open>The file is full: the next insertion allocates a page beyond the mapping and writes to it.\<close>

lemma capacity_fault:
  assumes inv: "col_inv s xs" and len: "length xs = max_pages * m"
  shows "col_insert full item_size w s = Inl Segv"
proof -
  have "max_pages * m \<le> unat (cm_npages (cs_cm s)) * m" using inv len by (simp add: col_inv_def)
  then have np: "unat (cm_npages (cs_cm s)) = max_pages"
    using inv per_page(2) by (simp add: col_inv_def)
  then have pos: "0 < unat (cm_npages (cs_cm s))" by (simp add: max_pages_def)
  define a where "a = cm_npages (cs_cm s) - 1"
  note L = last_page [OF inv pos, folded a_def]
  have I: "cm_inv (cs_cm s)" and act: "cs_active s = None \<or> cs_active s = Some (page_addr a)"
    using inv by (auto simp: col_inv_def a_def)
  have "max_pages * m = unat a * m + m" using np L(1) by (metis add.commute mult_Suc)
  then have fl: "full (cm_mem (cs_cm s) (unat a)) = Inr True"
    using page_full_law [OF L(7)] len by simp
  obtain c1 where c1: "cm_get_page (cs_cm s) a = Inr (Some (page_addr a), c1)"
    "cm_deref c1 (Some (page_addr a)) = Inr (cm_mem (cs_cm s) (unat a))" "cm_inv c1"
    "cm_npages c1 = cm_npages (cs_cm s)"
    using cm.fetch [OF I L(4,3)] by blast
  obtain c2 where c2: "cm_allocate c1 = (cm_npages c1, c2)" "cm_inv c2" "cm_npages c2 = cm_npages c1 + 1"
    using cm.allocate_law [OF c1(3)] np c1(4) by auto
  have "cm_npages c1 < cm_npages c2" using c1(4) c2(3) np by (simp add: page_less_unat)
  then obtain c3 where c3: "cm_get_page c2 (cm_npages c1) = Inr (Some (page_addr (cm_npages c1)), c3)"
    using cm.get_page_law [OF c2(2), of "cm_npages c1"] by auto
  have "\<not> in_mapping (page_addr (cm_npages c1))"
    using in_mapping_iff [of "cm_npages c1"] np c1(4) by (simp add: max_pages_def)
  then have segv: "cm_assign c3 (Some (page_addr (cm_npages c1))) x = Inl Segv" for x
    by (simp add: cm_assign_def pager_assign_def)
  have "col_active_full full s = Inr True"
    using act fl cm.deref_law [OF L(3), of "cs_cm s"] by (auto simp: col_active_full_def)
  moreover have "0 < cm_npages (cs_cm s)" using pos by (simp add: word_less_nat_alt)
  ultimately show ?thesis
    using c1(1,2) c2(1) c3 segv fl by (simp add: col_insert_def col_locate_def col_new_page_def flip: a_def)
qed

end

section \<open>The two formats\<close>

definition fixed_ok :: "u16 \<Rightarrow> pagedata \<Rightarrow> nat \<Rightarrow> u8 list \<Rightarrow> bool" where
  "fixed_ok z pg i x \<longleftrightarrow> page_bytes pg (8 + i * unat z) (unat z) = take (unat z) x"

definition fixed_wf :: "u16 \<Rightarrow> u8 list \<Rightarrow> bool" where
  "fixed_wf z x \<longleftrightarrow> unat z \<le> length x"

lemma slot_fits:
  assumes "i < 4088 div z"
  shows "i * z + z \<le> (4088 :: nat)"
proof -
  have "Suc i * z \<le> 4088 div z * z" using assms by (intro mult_le_mono1) simp
  then show ?thesis using div_times_less_eq_dividend [of 4088 z] unfolding mult_Suc by linarith
qed

lemma slot_mult:
  assumes "i < 4088 div unat (z :: u32)" and "unat (h :: u32) = i"
  shows "unat (h * z) = i * unat z"
  using slot_fits [OF assms(1)] assms(2) by (simp add: unat_word_ariths)

lemma fixed_slot_format:
  assumes "0 < unat z" and "unat z \<le> 4088"
  shows "slot_format (fixed_full z) (ucast z) (\<lambda>x. write_fixed x z) (fixed_ok z) (fixed_wf z) z
           (take (unat z)) (4088 div unat z)"
proof
  have z: "z \<noteq> 0" "0 < z" using assms(1) by (auto simp: word_less_nat_alt)
  show "fixed_full z pg = Inr (4088 div unat z \<le> unat (hdr_items pg))" for pg
    using z by (simp add: fixed_full_def)
  show "4088 div unat z = (4096 - 8) div (if 0 < z then unat z else 128)" "0 < 4088 div unat z"
    using z assms by (simp_all add: div_greater_zero_iff)
  show "fixed_ok z (set_items pg n) i x = fixed_ok z pg i x" for pg n i x
    by (simp add: fixed_ok_def)
  show "read_slot pg (of_nat i) (if 0 < z then ucast z else 128) z = Inr (take (unat z) x)"
    if "fixed_ok z pg i x" "fixed_wf z x" "i < 4088 div unat z" for pg i x
  proof -
    have "i < 4088" using that(3) by (meson div_le_dividend less_le_trans)
    then have "unat (of_nat i :: u32) = i" by (simp add: unat_of_nat)
    then show ?thesis
      using that z slot_fits [OF that(3)] slot_mult [of i "ucast z" "of_nat i"]
      by (simp add: read_slot_def page_read_def fixed_ok_def)
  qed
  show "\<exists>pg'. write_fixed x z pg = Inr pg' \<and> hdr_items pg' = hdr_items pg \<and> hdr_size pg' = hdr_size pg \<and>
      fixed_ok z pg' (unat (hdr_items pg)) x \<and>
      (\<forall>i y. i < unat (hdr_items pg) \<longrightarrow> fixed_wf z y \<longrightarrow> fixed_ok z pg i y \<longrightarrow> fixed_ok z pg' i y)"
    if n: "unat (hdr_items pg) < 4088 div unat z" and x: "fixed_wf z x" for pg x
  proof -
    let ?n = "unat (hdr_items pg)"
    have off: "unat (hdr_items pg * ucast z) = ?n * unat z" using slot_mult [of ?n "ucast z" "hdr_items pg"] n by simp
    have "i * unat z + unat z \<le> ?n * unat z" if "i < ?n" for i
    proof -
      have "Suc i * unat z \<le> ?n * unat z" using that by (intro mult_le_mono1) simp
      then show ?thesis by simp
    qed
    then show ?thesis
      using slot_fits [OF n] x
      by (auto simp: write_fixed_def page_write_def off fixed_wf_def fixed_ok_def hdr_page_put)
  qed
qed

interpretation f4: slot_format "fixed_full 4" "ucast (4 :: u16)" "\<lambda>x. write_fixed x 4" "fixed_ok 4" "fixed_wf 4" 4
    "take (unat (4 :: u16))" "4088 div unat (4 :: u16)"
  by (rule fixed_slot_format) simp_all

interpretation f8: slot_format "fixed_full 8" "ucast (8 :: u16)" "\<lambda>x. write_fixed x 8" "fixed_ok 8" "fixed_wf 8" 8
    "take (unat (8 :: u16))" "4088 div unat (8 :: u16)"
  by (rule fixed_slot_format) simp_all

interpretation f128: slot_format "fixed_full 128" "ucast (128 :: u16)" "\<lambda>x. write_fixed x 128" "fixed_ok 128"
    "fixed_wf 128" 128 "take (unat (128 :: u16))" "4088 div unat (128 :: u16)"
  by (rule fixed_slot_format) simp_all

text \<open>The variable format: two bytes of length, then at most 126 bytes.\<close>

definition var_len :: "u16 \<Rightarrow> nat" where
  "var_len sz = min 126 (unat sz)"

definition var_ok :: "pagedata \<Rightarrow> nat \<Rightarrow> u8 list \<times> u16 \<Rightarrow> bool" where
  "var_ok pg i x \<longleftrightarrow> page_bytes pg (8 + i * 128) 2 = enc16 (snd x) \<and>
     page_bytes pg (8 + i * 128 + 2) (var_len (snd x)) = take (var_len (snd x)) (fst x)"

definition var_wf :: "u8 list \<times> u16 \<Rightarrow> bool" where
  "var_wf x \<longleftrightarrow> var_len (snd x) \<le> length (fst x)"

lemma var_len_cond: "(if sz > 126 then 126 else unat sz) = var_len sz"
  by (simp add: var_len_def word_less_nat_alt min_def)

interpretation var: slot_format variable_full 0 "\<lambda>x. write_variable (fst x) (snd x)" var_ok var_wf 0
    "\<lambda>x. take (var_len (snd x)) (fst x)" 31
proof
  have vl: "var_len sz \<le> 126" for sz by (simp add: var_len_def)
  have off: "unat (h * 128) = unat h * 128" if "unat h < 31" for h :: u32
    using that by (simp add: unat_word_ariths)
  show "variable_full pg = Inr (31 \<le> unat (hdr_items pg))" if "hdr_size pg = 0" for pg
    using that by (simp add: variable_full_def)
  show "var_ok (set_items pg n) i x = var_ok pg i x" for pg n i x
    by (simp add: var_ok_def)
  show "(31 :: nat) = (4096 - 8) div (if (0 :: u16) < 0 then unat (0 :: u16) else 128)" "(0 :: nat) < 31" by simp_all
  show "read_slot pg (of_nat i) (if (0 :: u16) < 0 then ucast (0 :: u16) else 128) 0 =
      Inr (take (var_len (snd x)) (fst x))"
    if "var_ok pg i x" "var_wf x" "i < 31" for pg i x
  proof -
    have "unat (of_nat i :: u32) = i" using that(3) by (simp add: unat_of_nat)
    then show ?thesis
      using that off [of "of_nat i"] vl [of "snd x"]
      by (simp add: read_slot_def page_read_def var_ok_def var_len_cond)
  qed
  show "\<exists>pg'. write_variable (fst x) (snd x) pg = Inr pg' \<and> hdr_items pg' = hdr_items pg \<and> hdr_size pg' = hdr_size pg \<and>
      var_ok pg' (unat (hdr_items pg)) x \<and>
      (\<forall>i y. i < unat (hdr_items pg) \<longrightarrow> var_wf y \<longrightarrow> var_ok pg i y \<longrightarrow> var_ok pg' i y)"
    if n: "unat (hdr_items pg) < 31" and x: "var_wf x" for pg x
  proof -
    let ?n = "unat (hdr_items pg)" and ?k = "var_len (snd x)"
    let ?pg1 = "page_put pg (8 + ?n * 128) (enc16 (snd x))"
    let ?pg2 = "page_put ?pg1 (8 + ?n * 128 + 2) (take ?k (fst x))"
    have w: "write_variable (fst x) (snd x) pg = Inr ?pg2"
      using n x vl [of "snd x"] off [OF n]
      by (simp add: write_variable_def page_write_def var_wf_def var_len_cond Let_def)
    have "var_ok ?pg2 i y" if "i < ?n" "var_ok pg i y" for i y
      using that vl [of "snd y"] by (simp add: var_ok_def)
    moreover have "var_ok ?pg2 ?n x" using x by (simp add: var_ok_def var_wf_def)
    ultimately show ?thesis using w by (simp add: hdr_page_put)
  qed
qed

section \<open>Properties of columns\<close>

lemma col_open_empty:
  assumes "pg_num_pages pg = 0"
  shows "\<exists>s. col_open pg = Inr s \<and> cm_inv (cs_cm s) \<and> cm_npages (cs_cm s) = 0 \<and> cs_total_rows s = 0 \<and> cs_active s = None"
  using assms cm_inv_new [of 256 pg] by (simp add: col_open_def pager_get_num_pages_def) (simp add: cm_new_def)

lemma col_clear_empty:
  assumes "cm_inv (cs_cm s)"
  shows "cm_inv (cs_cm (col_clear s))" "cm_npages (cs_cm (col_clear s)) = 0" "cs_total_rows (col_clear s) = 0"
    "cs_active (col_clear s) = None"
  using cm_clear_inv [OF assms] by (simp_all add: col_clear_def Let_def pager_clear_def)

definition insert_all :: "u16 \<Rightarrow> u8 list list \<Rightarrow> colstore \<Rightarrow> colstore res" where
  "insert_all z xs s = rfold (\<lambda>x s. insert_fixed s x z) xs s"

lemma insert_all_eq:
  "insert_all z xs s = rfold (\<lambda>x s. col_insert (fixed_full z) (ucast z) (write_fixed x z) s) xs s"
  by (simp add: insert_all_def insert_fixed_def)

text \<open>
  C10. A fixed-width column is a list. For every item size that fits a page, a new column
  takes any sequence of insertions that fits in the 1 GB file; \<open>get_total_rows\<close> of the
  store and of the reader are then the number of rows, and \<open>ColumnReader::read_at\<close> with the
  same size returns the bytes of the row for every existing row id, across page boundaries,
  and reports failure for every other 64-bit row id.
\<close>

theorem column_roundtrip:
  assumes "pg_num_pages pg = 0" and "0 < unat z" and "unat z \<le> 4088"
    and "\<forall>x \<in> set xs. unat z \<le> length x" and "length xs \<le> 2 ^ 18 * (4088 div unat z)"
  shows "\<exists>s s'. col_open pg = Inr s \<and> insert_all z xs s = Inr s' \<and> unat (cs_total_rows s') = length xs \<and>
    (\<exists>c. reader_total_rows (cs_cm s') = Inr (of_nat (length xs), c)) \<and>
    (\<forall>rid. \<exists>c. read_at (cs_cm s') rid z =
       Inr (if unat rid < length xs then Some (take (unat z) (xs ! unat rid)) else None, c))"
proof -
  note sf = fixed_slot_format [OF assms(2,3)]
  obtain s where s: "col_open pg = Inr s" "cm_inv (cs_cm s)" "cm_npages (cs_cm s) = 0" "cs_total_rows s = 0"
    "cs_active s = None"
    using col_open_empty [OF assms(1)] by blast
  have wf: "list_all (fixed_wf z) xs" using assms(4) by (simp add: list_all_iff fixed_wf_def)
  have "length [] + length xs \<le> max_pages * (4088 div unat z)" using assms(5) by (simp add: max_pages_def)
  from slot_format.run_appends [OF sf slot_format.col_inv_empty [OF sf s(2-5)] wf this]
  obtain s' where s': "insert_all z xs s = Inr s'"
    "slot_format.col_inv (ucast z) (fixed_ok z) (fixed_wf z) (4088 div unat z) s' xs"
    by (auto simp: insert_all_eq)
  have rows: "unat (cs_total_rows s') = length xs"
    using s'(2) by (simp add: slot_format.col_inv_def [OF sf])
  note h = slot_format.col_inv_holds [OF sf s'(2)]
  show ?thesis
    using s(1) s'(1) rows slot_format.total_rows_law [OF sf h] slot_format.read_at_nth [OF sf h] by blast
qed

theorem column_roundtrip_witness:
  "\<exists>s s' c c'. col_open \<lparr>pg_mem = (\<lambda>_. zero_page), pg_disk = (\<lambda>_. zero_page), pg_num_pages = 0\<rparr> = Inr s \<and>
     insert_all 8 (map (\<lambda>i. enc64 (of_nat i)) [0..<2000]) s = Inr s' \<and>
     read_at (cs_cm s') 1500 8 = Inr (Some (enc64 1500), c) \<and> read_at (cs_cm s') 2000 8 = Inr (None, c')"
proof -
  let ?pg = "\<lparr>pg_mem = (\<lambda>_. zero_page), pg_disk = (\<lambda>_. zero_page), pg_num_pages = 0\<rparr>"
  let ?xs = "map (\<lambda>i. enc64 (of_nat i)) [0..<2000]"
  have len: "length ?xs = 2000" by (simp del: upt_rec_numeral)
  have nth: "take 8 (?xs ! 1500) = enc64 1500" by (simp del: upt_rec_numeral)
  obtain s s' where s: "col_open ?pg = Inr s" "insert_all 8 ?xs s = Inr s'"
    "\<forall>rid. \<exists>c. read_at (cs_cm s') rid 8 =
       Inr (if unat rid < length ?xs then Some (take (unat (8 :: u16)) (?xs ! unat rid)) else None, c)"
    using column_roundtrip [of ?pg 8 ?xs] len by (auto simp del: upt_rec_numeral)
  show ?thesis
    using s(1,2) spec [OF s(3), of 1500] spec [OF s(3), of 2000] len nth by (auto simp del: upt_rec_numeral)
qed

text \<open>
  C11. A variable-width column is a list of byte strings of at most 126 bytes: what
  \<open>insert_variable\<close> stores, \<open>read_at\<close> returns, cut to its first 126 bytes when it is longer.
\<close>

theorem variable_roundtrip:
  assumes "pg_num_pages pg = 0" and "\<forall>x \<in> set xs. length (fst x) = unat (snd x)" and "length xs \<le> 2 ^ 18 * 31"
  shows "\<exists>s s'. col_open pg = Inr s \<and> rfold (\<lambda>x s. insert_variable s (fst x) (snd x)) xs s = Inr s' \<and>
    unat (cs_total_rows s') = length xs \<and>
    (\<forall>rid. \<exists>c. read_at (cs_cm s') rid 0 =
       Inr (if unat rid < length xs then Some (take 126 (fst (xs ! unat rid))) else None, c))"
proof -
  obtain s where s: "col_open pg = Inr s" "cm_inv (cs_cm s)" "cm_npages (cs_cm s) = 0" "cs_total_rows s = 0"
    "cs_active s = None"
    using col_open_empty [OF assms(1)] by blast
  have wf: "list_all var_wf xs" using assms(2) by (simp add: list_all_iff var_wf_def var_len_def)
  have "length [] + length xs \<le> max_pages * 31" using assms(3) by (simp add: max_pages_def)
  from var.run_appends [OF var.col_inv_empty [OF s(2-5)] wf this]
  obtain s' where s': "rfold (\<lambda>x s. insert_variable s (fst x) (snd x)) xs s = Inr s'" "var.col_inv s' xs"
    by (auto simp: insert_variable_def)
  have rows: "unat (cs_total_rows s') = length xs" using s'(2) by (simp add: var.col_inv_def)
  have "take (var_len (snd x)) (fst x) = take 126 (fst x)" if "x \<in> set xs" for x
    using assms(2) that by (simp add: var_len_def min_def)
  then have "\<exists>c. read_at (cs_cm s') rid 0 =
      Inr (if unat rid < length xs then Some (take 126 (fst (xs ! unat rid))) else None, c)" for rid
    using var.read_at_nth [OF var.col_inv_holds [OF s'(2)], of rid] by (auto split: if_splits)
  then show ?thesis using s(1) s'(1) rows by blast
qed

theorem variable_roundtrip_witness:
  "\<exists>s s' c. col_open \<lparr>pg_mem = (\<lambda>_. zero_page), pg_disk = (\<lambda>_. zero_page), pg_num_pages = 0\<rparr> = Inr s \<and>
     rfold (\<lambda>x s. insert_variable s (fst x) (snd x)) [([1, 2], 2), (replicate 200 7, 200)] s = Inr s' \<and>
     read_at (cs_cm s') 1 0 = Inr (Some (replicate 126 7), c)"
proof -
  let ?pg = "\<lparr>pg_mem = (\<lambda>_. zero_page), pg_disk = (\<lambda>_. zero_page), pg_num_pages = 0\<rparr>"
  let ?xs = "[([1, 2], 2), (replicate 200 7, 200)] :: (u8 list \<times> u16) list"
  have pre: "pg_num_pages ?pg = 0" "\<forall>x \<in> set ?xs. length (fst x) = unat (snd x)" "length ?xs \<le> 2 ^ 18 * 31"
    by simp_all
  obtain s s' where s: "col_open ?pg = Inr s" "rfold (\<lambda>x s. insert_variable s (fst x) (snd x)) ?xs s = Inr s'"
    "\<forall>rid. \<exists>c. read_at (cs_cm s') rid 0 =
       Inr (if unat rid < length ?xs then Some (take 126 (fst (?xs ! unat rid))) else None, c)"
    using variable_roundtrip [OF pre] by blast
  have "take 126 (fst (?xs ! unat (1 :: u64))) = replicate 126 7" by simp
  moreover have "unat (1 :: u64) < length ?xs" by simp
  ultimately have "\<exists>c. read_at (cs_cm s') 1 0 = Inr (Some (replicate 126 7), c)"
    using spec [OF s(3), of 1] by (simp only: if_True)
  then show ?thesis using s(1,2) by blast
qed

text \<open>
  C12. A cleared column starts again from row 0: whatever was inserted before, after
  \<open>clear\<close> the column holds nothing, and later insertions are read back from row id 0 on.
\<close>

theorem column_clear_reuse:
  assumes "pg_num_pages pg = 0" and "0 < unat z" and "unat z \<le> 4088"
    and "\<forall>x \<in> set ys \<union> set xs. unat z \<le> length x"
    and "length ys \<le> 2 ^ 18 * (4088 div unat z)" and "length xs \<le> 2 ^ 18 * (4088 div unat z)"
  shows "\<exists>s s' s''. col_open pg = Inr s \<and> insert_all z ys s = Inr s' \<and> insert_all z xs (col_clear s') = Inr s'' \<and>
    unat (cs_total_rows s'') = length xs \<and>
    (\<forall>rid. \<exists>c. read_at (cs_cm s'') rid z =
       Inr (if unat rid < length xs then Some (take (unat z) (xs ! unat rid)) else None, c))"
proof -
  note sf = fixed_slot_format [OF assms(2,3)]
  obtain s where s: "col_open pg = Inr s" "cm_inv (cs_cm s)" "cm_npages (cs_cm s) = 0" "cs_total_rows s = 0"
    "cs_active s = None"
    using col_open_empty [OF assms(1)] by blast
  have wf: "list_all (fixed_wf z) ys" "list_all (fixed_wf z) xs"
    using assms(4) by (simp_all add: list_all_iff fixed_wf_def)
  have fit: "length [] + length ys \<le> max_pages * (4088 div unat z)" "length [] + length xs \<le> max_pages * (4088 div unat z)"
    using assms(5,6) by (simp_all add: max_pages_def)
  from slot_format.run_appends [OF sf slot_format.col_inv_empty [OF sf s(2-5)] wf(1) fit(1)]
  obtain s' where s': "insert_all z ys s = Inr s'"
    "slot_format.col_inv (ucast z) (fixed_ok z) (fixed_wf z) (4088 div unat z) s' ys"
    by (auto simp: insert_all_eq)
  have inv: "cm_inv (cs_cm s')" using s'(2) by (simp add: slot_format.col_inv_def [OF sf])
  from slot_format.run_appends [OF sf slot_format.col_inv_empty [OF sf col_clear_empty [OF inv]] wf(2) fit(2)]
  obtain s'' where s'': "insert_all z xs (col_clear s') = Inr s''"
    "slot_format.col_inv (ucast z) (fixed_ok z) (fixed_wf z) (4088 div unat z) s'' xs"
    by (auto simp: insert_all_eq)
  have "unat (cs_total_rows s'') = length xs" using s''(2) by (simp add: slot_format.col_inv_def [OF sf])
  then show ?thesis
    using s(1) s'(1) s''(1) slot_format.read_at_nth [OF sf slot_format.col_inv_holds [OF sf s''(2)]] by blast
qed

theorem column_clear_reuse_witness:
  "\<exists>s s' s'' c. col_open \<lparr>pg_mem = (\<lambda>_. zero_page), pg_disk = (\<lambda>_. zero_page), pg_num_pages = 0\<rparr> = Inr s \<and>
     insert_all 8 [enc64 1, enc64 2] s = Inr s' \<and> insert_all 8 [enc64 3] (col_clear s') = Inr s'' \<and>
     read_at (cs_cm s'') 1 8 = Inr (None, c)"
proof -
  let ?pg = "\<lparr>pg_mem = (\<lambda>_. zero_page), pg_disk = (\<lambda>_. zero_page), pg_num_pages = 0\<rparr>"
  obtain s s' s'' where s: "col_open ?pg = Inr s" "insert_all 8 [enc64 1, enc64 2] s = Inr s'"
    "insert_all 8 [enc64 3] (col_clear s') = Inr s''"
    "\<forall>rid. \<exists>c. read_at (cs_cm s'') rid 8 =
       Inr (if unat rid < length [enc64 3] then Some (take (unat (8 :: u16)) ([enc64 3] ! unat rid)) else None, c)"
    using column_clear_reuse [of ?pg 8 "[enc64 1, enc64 2]" "[enc64 3]"] by auto
  show ?thesis using s(1-3) spec [OF s(4), of 1] by auto
qed

text \<open>
  C13. The capacity of a column. The insertion after \<open>2 ^ 18 * (4088 div z)\<close> rows faults: the
  pager hands out a page beyond the 1 GB mapping without a check and the store writes to it.
  A VARCHAR column (128-byte items) ends after 8126464 rows.
\<close>

theorem column_capacity:
  assumes "pg_num_pages pg = 0" and "0 < unat z" and "unat z \<le> 4088"
    and "\<forall>x \<in> set xs. unat z \<le> length x" and "length xs = 2 ^ 18 * (4088 div unat z)"
  shows "\<exists>s s'. col_open pg = Inr s \<and> insert_all z xs s = Inr s' \<and> (\<forall>x. insert_fixed s' x z = Inl Segv)"
proof -
  note sf = fixed_slot_format [OF assms(2,3)]
  obtain s where s: "col_open pg = Inr s" "cm_inv (cs_cm s)" "cm_npages (cs_cm s) = 0" "cs_total_rows s = 0"
    "cs_active s = None"
    using col_open_empty [OF assms(1)] by blast
  have wf: "list_all (fixed_wf z) xs" using assms(4) by (simp add: list_all_iff fixed_wf_def)
  have fit: "length [] + length xs \<le> max_pages * (4088 div unat z)" using assms(5) by (simp add: max_pages_def)
  from slot_format.run_appends [OF sf slot_format.col_inv_empty [OF sf s(2-5)] wf fit]
  obtain s' where s': "insert_all z xs s = Inr s'"
    "slot_format.col_inv (ucast z) (fixed_ok z) (fixed_wf z) (4088 div unat z) s' xs"
    by (auto simp: insert_all_eq)
  have "length xs = max_pages * (4088 div unat z)" using assms(5) by (simp add: max_pages_def)
  then show ?thesis
    using s(1) s'(1) slot_format.capacity_fault [OF sf s'(2)] by (auto simp: insert_fixed_def)
qed

theorem column_capacity_witness:
  "\<exists>s s'. col_open \<lparr>pg_mem = (\<lambda>_. zero_page), pg_disk = (\<lambda>_. zero_page), pg_num_pages = 0\<rparr> = Inr s \<and>
     insert_all 128 (replicate 8126464 (replicate 128 0)) s = Inr s' \<and>
     insert_fixed s' (replicate 128 0) 128 = Inl Segv"
proof -
  let ?pg = "\<lparr>pg_mem = (\<lambda>_. zero_page), pg_disk = (\<lambda>_. zero_page), pg_num_pages = 0\<rparr>"
  have "(8126464 :: nat) = 2 ^ 18 * (4088 div unat (128 :: u16))" by simp
  then show ?thesis
    using column_capacity [of ?pg 128 "replicate 8126464 (replicate 128 0)"] by fastforce
qed

end
