(* ===== verification/BPTreeModel.thy ===== *)
theory BPTreeModel
  imports CacheModel "HOL-Library.Product_Lexorder"
begin

text \<open>
  The primary-key index (\<open>src/src/index/bptree.cpp\<close>, \<open>src/include/index/bptree.h\<close>,
  \<open>index_manager.cpp\<close>).

  A page of the index file is a \<open>BPTNode\<close>: the record \<open>bptnode\<close>, with the C arrays as
  functions from the index. The union of \<open>values\<close> (used in leaves) and \<open>children\<close> (used in
  internal nodes) is two fields: \<open>create_node\<close> clears the page and fixes the type, no later
  statement changes it, and each statement accesses the member that belongs to the type.
  The tree's state is its page cache with the pager behind it, and \<open>root_pid_\<close>.

  The descents \<open>while (true)\<close> carry fuel, one unit per page of the file and one more. A
  descent that visits more pages than there are visits one twice; the choice of the child
  depends on the page and the key only, so it never ends, and the model says \<open>Diverges\<close>.
\<close>

section \<open>Nodes and arrays\<close>

datatype bpt_node_type = LEAF | INTERNAL

record bptnode =
  bn_type :: bpt_node_type
  bn_num_keys :: u32
  bn_next_leaf :: u32
  bn_keys :: "nat \<Rightarrow> u64"
  bn_values :: "nat \<Rightarrow> u64"
  bn_children :: "nat \<Rightarrow> u32"

record bptree =
  bt_cm :: "bptnode cachemgr"
  bt_root :: u32

definition BPT_ORDER :: nat where "BPT_ORDER = 250"

definition NO_PAGE :: u32 where "NO_PAGE = 0xFFFFFFFF"

definition fresh_node :: "bpt_node_type \<Rightarrow> bptnode" where
  "fresh_node ty = \<lparr>bn_type = ty, bn_num_keys = 0, bn_next_leaf = NO_PAGE,
     bn_keys = (\<lambda>_. 0), bn_values = (\<lambda>_. 0),
     bn_children = (\<lambda>i. if ty = INTERNAL \<and> i \<le> BPT_ORDER then NO_PAGE else 0)\<rparr>"

text \<open>\<open>while (i < num_keys && key >= keys[i]) i++;\<close>\<close>

function scan_keys :: "nat \<Rightarrow> (nat \<Rightarrow> u64) \<Rightarrow> u64 \<Rightarrow> nat \<Rightarrow> nat" where
  "scan_keys n keys key i = (if i < n \<and> keys i \<le> key then scan_keys n keys key (Suc i) else i)"
  by pat_completeness auto
termination
  by (relation "measure (\<lambda>(n, keys, key, i). n - i)") auto

declare scan_keys.simps [simp del]

definition child_of :: "bptnode \<Rightarrow> u64 \<Rightarrow> u32" where
  "child_of node key =
     bn_children node (scan_keys (unat (bn_num_keys node)) (bn_keys node) key 0)"

text \<open>The search of a leaf: the value at the first index whose key matches.\<close>

definition leaf_lookup :: "bptnode \<Rightarrow> u64 \<Rightarrow> u64 option" where
  "leaf_lookup node key =
     map_option (bn_values node) (find (\<lambda>i. bn_keys node i = key) [0..<unat (bn_num_keys node)])"

text \<open>The loops that open a gap, from the right, in a leaf and in an internal node.\<close>

fun shift_leaf :: "u64 \<Rightarrow> nat \<Rightarrow> (nat \<Rightarrow> u64) \<Rightarrow> (nat \<Rightarrow> u64) \<Rightarrow> nat \<times> (nat \<Rightarrow> u64) \<times> (nat \<Rightarrow> u64)" where
  "shift_leaf key 0 keys values = (0, keys, values)"
| "shift_leaf key (Suc i) keys values =
     (if keys i > key
      then shift_leaf key i (keys(Suc i := keys i)) (values(Suc i := values i))
      else (Suc i, keys, values))"

fun shift_parent :: "u64 \<Rightarrow> nat \<Rightarrow> (nat \<Rightarrow> u64) \<Rightarrow> (nat \<Rightarrow> u32) \<Rightarrow> nat \<times> (nat \<Rightarrow> u64) \<times> (nat \<Rightarrow> u32)" where
  "shift_parent key 0 keys children = (0, keys, children)"
| "shift_parent key (Suc i) keys children =
     (if keys i > key
      then shift_parent key i (keys(Suc i := keys i)) (children(Suc (Suc i) := children (Suc i)))
      else (Suc i, keys, children))"

text \<open>A loop that writes consecutive array elements.\<close>

fun copy_into :: "(nat \<Rightarrow> 'a) \<Rightarrow> nat \<Rightarrow> 'a list \<Rightarrow> (nat \<Rightarrow> 'a)" where
  "copy_into a i [] = a"
| "copy_into a i (x # xs) = copy_into (a(i := x)) (Suc i) xs"

section \<open>The operations\<close>

definition create_node :: "bptnode cachemgr \<Rightarrow> bpt_node_type \<Rightarrow> (u32 \<times> bptnode cachemgr) res" where
  "create_node s ty =
     (let (pid, s1) = cm_allocate s in
      rbind (cm_get_page s1 pid) (\<lambda>(p, s2).
        if p = None then Inr (NO_PAGE, s2)
        else rbind (cm_assign s2 p (fresh_node ty)) (\<lambda>s3.
          rbind (cm_mark_dirty s3 pid) (\<lambda>s4. Inr (pid, s4)))))"

definition bpt_open :: "bptnode pager \<Rightarrow> bptree res" where
  "bpt_open pg =
     (let s = cm_new pg 256 in
      if pager_get_num_pages pg = 0
      then rbind (create_node s LEAF) (\<lambda>(pid, s'). Inr \<lparr>bt_cm = s', bt_root = pid\<rparr>)
      else Inr \<lparr>bt_cm = s, bt_root = 0\<rparr>)"

definition descent_fuel :: "bptnode cachemgr \<Rightarrow> nat" where
  "descent_fuel s = Suc (unat (cm_npages s))"

fun search_loop :: "nat \<Rightarrow> bptnode cachemgr \<Rightarrow> u64 \<Rightarrow> u32 \<Rightarrow> (u64 option \<times> bptnode cachemgr) res" where
  "search_loop 0 s key cur = Inl Diverges"
| "search_loop (Suc fuel) s key cur =
     rbind (cm_get_page s cur) (\<lambda>(p, s1).
       if p = None then Inr (None, s1)
       else rbind (cm_deref s1 p) (\<lambda>node.
         if bn_type node = LEAF then Inr (leaf_lookup node key, s1)
         else search_loop fuel s1 key (child_of node key)))"

definition bpt_search :: "bptree \<Rightarrow> u64 \<Rightarrow> (u64 option \<times> bptree) res" where
  "bpt_search t key =
     rbind (search_loop (descent_fuel (bt_cm t)) (bt_cm t) key (bt_root t))
       (\<lambda>(r, s). Inr (r, t\<lparr>bt_cm := s\<rparr>))"

fun find_leaf_loop :: "nat \<Rightarrow> bptnode cachemgr \<Rightarrow> u64 \<Rightarrow> u32 \<Rightarrow> (u32 \<times> bptnode cachemgr) res" where
  "find_leaf_loop 0 s key cur = Inl Diverges"
| "find_leaf_loop (Suc fuel) s key cur =
     rbind (cm_get_page s cur) (\<lambda>(p, s1).
       if p = None then Inr (NO_PAGE, s1)
       else rbind (cm_deref s1 p) (\<lambda>node.
         if bn_type node = LEAF then Inr (cur, s1)
         else find_leaf_loop fuel s1 key (child_of node key)))"

definition find_leaf :: "bptree \<Rightarrow> u64 \<Rightarrow> (u32 \<times> bptree) res" where
  "find_leaf t key =
     rbind (find_leaf_loop (descent_fuel (bt_cm t)) (bt_cm t) key (bt_root t))
       (\<lambda>(pid, s). Inr (pid, t\<lparr>bt_cm := s\<rparr>))"

text \<open>The search for the parent of \<open>left_pid\<close>: \<open>NO_PAGE\<close> when a leaf is reached first.\<close>

fun parent_loop :: "nat \<Rightarrow> bptnode cachemgr \<Rightarrow> u32 \<Rightarrow> u64 \<Rightarrow> u32 \<Rightarrow> (u32 \<times> bptnode cachemgr) res" where
  "parent_loop 0 s left_pid key cur = Inl Diverges"
| "parent_loop (Suc fuel) s left_pid key cur =
     (if cur = NO_PAGE then Inr (NO_PAGE, s)
      else rbind (cm_get_page s cur) (\<lambda>(p, s1).
        rbind (cm_deref s1 p) (\<lambda>node.
          if bn_type node = LEAF then Inr (NO_PAGE, s1)
          else if \<exists>i \<in> set [0..<Suc (unat (bn_num_keys node))]. bn_children node i = left_pid
          then Inr (cur, s1)
          else parent_loop fuel s1 left_pid key (child_of node key))))"

definition new_root :: "bptree \<Rightarrow> u32 \<Rightarrow> u64 \<Rightarrow> u32 \<Rightarrow> bptree res" where
  "new_root t left_pid key right_pid =
     rbind (create_node (bt_cm t) INTERNAL) (\<lambda>(pid, s1).
       rbind (cm_get_page s1 pid) (\<lambda>(p, s2).
         rbind (cm_deref s2 p) (\<lambda>root.
           rbind (cm_assign s2 p (root\<lparr>bn_keys := (bn_keys root)(0 := key),
                    bn_children := (bn_children root)(0 := left_pid, 1 := right_pid),
                    bn_num_keys := 1\<rparr>)) (\<lambda>s3.
             rbind (cm_mark_dirty s3 pid) (\<lambda>s4. Inr \<lparr>bt_cm = s4, bt_root = pid\<rparr>)))))"

definition insert_sep :: "bptnode \<Rightarrow> u64 \<Rightarrow> u32 \<Rightarrow> bptnode" where
  "insert_sep node key right_pid =
     (let (i, ks, cs) = shift_parent key (unat (bn_num_keys node)) (bn_keys node) (bn_children node)
      in node\<lparr>bn_keys := ks(i := key), bn_children := cs(Suc i := right_pid),
              bn_num_keys := bn_num_keys node + 1\<rparr>)"

definition insert_into_parent :: "bptree \<Rightarrow> u32 \<Rightarrow> u64 \<Rightarrow> u32 \<Rightarrow> bptree res" where
  "insert_into_parent t left_pid key right_pid =
     (if left_pid = bt_root t then new_root t left_pid key right_pid
      else rbind (parent_loop (descent_fuel (bt_cm t)) (bt_cm t) left_pid key (bt_root t)) (\<lambda>(parent_pid, s1).
        if parent_pid = NO_PAGE then Inr (t\<lparr>bt_cm := s1\<rparr>)
        else rbind (cm_get_page s1 parent_pid) (\<lambda>(pp, s2).
          if pp = None then Inr (t\<lparr>bt_cm := s2\<rparr>)
          else rbind (cm_deref s2 pp) (\<lambda>node.
            if unat (bn_num_keys node) < BPT_ORDER
            then rbind (cm_assign s2 pp (insert_sep node key right_pid)) (\<lambda>s3.
              rbind (cm_mark_dirty s3 parent_pid) (\<lambda>s4. Inr (t\<lparr>bt_cm := s4\<rparr>)))
            else Inr (t\<lparr>bt_cm := s2\<rparr>)))))"

definition insert_pair :: "bptnode \<Rightarrow> u64 \<Rightarrow> u64 \<Rightarrow> bptnode" where
  "insert_pair node key val =
     (let (i, ks, vs) = shift_leaf key (unat (bn_num_keys node)) (bn_keys node) (bn_values node)
      in node\<lparr>bn_keys := ks(i := key), bn_values := vs(i := val),
              bn_num_keys := bn_num_keys node + 1\<rparr>)"

text \<open>The sorted sequence \<open>temp\<close> of a full leaf and the new pair.\<close>

definition split_temp :: "bptnode \<Rightarrow> u64 \<Rightarrow> u64 \<Rightarrow> (u64 \<times> u64) list" where
  "split_temp node key val =
     sort (map (\<lambda>j. (bn_keys node j, bn_values node j)) [0..<BPT_ORDER] @ [(key, val)])"

definition fill_leaf :: "bptnode \<Rightarrow> (u64 \<times> u64) list \<Rightarrow> u32 \<Rightarrow> bptnode" where
  "fill_leaf node ps next_leaf =
     node\<lparr>bn_num_keys := of_nat (length ps), bn_keys := copy_into (bn_keys node) 0 (map fst ps),
          bn_values := copy_into (bn_values node) 0 (map snd ps), bn_next_leaf := next_leaf\<rparr>"

definition split_leaf :: "bptree \<Rightarrow> u32 \<Rightarrow> ptr \<Rightarrow> u64 \<Rightarrow> u64 \<Rightarrow> bptree res" where
  "split_leaf t pid p key val =
     rbind (create_node (bt_cm t) LEAF) (\<lambda>(new_pid, s1).
       rbind (cm_get_page s1 new_pid) (\<lambda>(np, s2).
         rbind (cm_deref s2 p) (\<lambda>node.
           let temp = split_temp node key val; split_idx = length temp div 2 in
           rbind (cm_assign s2 p (fill_leaf node (take split_idx temp) new_pid)) (\<lambda>s3.
             rbind (cm_deref s3 np) (\<lambda>new_node.
               let new_node' = fill_leaf new_node (drop split_idx temp) (bn_next_leaf node) in
               rbind (cm_assign s3 np new_node') (\<lambda>s4.
                 rbind (cm_mark_dirty s4 pid) (\<lambda>s5.
                   rbind (cm_mark_dirty s5 new_pid) (\<lambda>s6.
                     insert_into_parent (t\<lparr>bt_cm := s6\<rparr>) pid (bn_keys new_node' 0) new_pid))))))))"

definition insert_into_leaf :: "bptree \<Rightarrow> u32 \<Rightarrow> u64 \<Rightarrow> u64 \<Rightarrow> bptree res" where
  "insert_into_leaf t pid key val =
     rbind (cm_get_page (bt_cm t) pid) (\<lambda>(p, s1).
       rbind (cm_deref s1 p) (\<lambda>node.
         if unat (bn_num_keys node) < BPT_ORDER
         then rbind (cm_assign s1 p (insert_pair node key val)) (\<lambda>s2.
           rbind (cm_mark_dirty s2 pid) (\<lambda>s3. Inr (t\<lparr>bt_cm := s3\<rparr>)))
         else split_leaf (t\<lparr>bt_cm := s1\<rparr>) pid p key val))"

definition bpt_insert :: "bptree \<Rightarrow> u64 \<Rightarrow> u64 \<Rightarrow> bptree res" where
  "bpt_insert t key row_id =
     rbind (find_leaf t key) (\<lambda>(leaf_pid, t1). insert_into_leaf t1 leaf_pid key row_id)"

definition bpt_clear :: "bptree \<Rightarrow> bptree res" where
  "bpt_clear t =
     (let s1 = cm_clear (bt_cm t); s2 = s1\<lparr>cm_pager := pager_clear (cm_pager s1)\<rparr>
      in rbind (create_node s2 LEAF) (\<lambda>(pid, s3). Inr \<lparr>bt_cm = s3, bt_root = pid\<rparr>))"

end
