(* ===== verification/IndexSpec.thy ===== *)
theory IndexSpec
  imports Prelude "HOL-Library.Product_Lexorder"
begin

text \<open>
  The abstract index: what the pages of the B+ tree mean. Since the code never splits an
  internal node, the tree is one level of separators over a list of leaves. The state is the
  list of separators and the list of leaf contents; a tree that is a single leaf has no
  separator. \<open>at_insert\<close> is the effect of \<open>BPTree::insert\<close> at this level, \<open>at_search\<close>
  that of \<open>BPTree::search\<close>; the page-level refinement is in the theory \<open>BPTreeProofs\<close>.

  Keys may repeat. The invariant then has to say more than sortedness: a leaf holds at most
  \<open>h\<close> copies of the separator to its right (\<open>2 * h\<close> is the order), which is what keeps a
  split from producing a separator equal to its right neighbour.
\<close>

section \<open>Positions in sorted lists\<close>

definition ix :: "'k::linorder list \<Rightarrow> 'k \<Rightarrow> nat" where
  "ix ks k = length (takeWhile (\<lambda>x. x \<le> k) ks)"

definition ins_at :: "nat \<Rightarrow> 'a \<Rightarrow> 'a list \<Rightarrow> 'a list" where
  "ins_at i x xs = take i xs @ x # drop i xs"

lemma ix_le: "ix ks k \<le> length ks"
  by (simp add: ix_def length_takeWhile_le)

lemma ix_below: "i < ix ks k \<Longrightarrow> ks ! i \<le> k"
  unfolding ix_def by (metis nth_mem set_takeWhileD takeWhile_nth)

lemma ix_at: "ix ks k < length ks \<Longrightarrow> k < ks ! ix ks k"
  unfolding ix_def using nth_length_takeWhile by fastforce

lemma ix_eqI:
  assumes "sorted ks" "j \<le> length ks" "0 < j \<Longrightarrow> ks ! (j - 1) \<le> k" "j < length ks \<Longrightarrow> k < ks ! j"
  shows "ix ks k = j"
proof (rule antisym)
  show "ix ks k \<le> j"
  proof (rule ccontr)
    assume "\<not> ix ks k \<le> j"
    then have "j < ix ks k" by simp
    then have "ks ! j \<le> k" "j < length ks" using ix_below [of j ks k] ix_le [of ks k] by auto
    then show False using assms(4) by simp
  qed
  show "j \<le> ix ks k"
  proof (rule ccontr)
    assume "\<not> j \<le> ix ks k"
    then have less: "ix ks k < j" by simp
    then have "k < ks ! ix ks k" using ix_at [of ks k] assms(2) by simp
    also have "\<dots> \<le> ks ! (j - 1)" using less assms(1,2) by (intro sorted_nth_mono) auto
    also have "\<dots> \<le> k" using less assms(3) by simp
    finally show False by simp
  qed
qed

lemma length_ins_at [simp]: "length (ins_at i x xs) = Suc (length xs)"
  by (simp add: ins_at_def)

lemma set_ins_at [simp]: "set (ins_at i x xs) = insert x (set xs)"
proof -
  have "set xs = set (take i xs) \<union> set (drop i xs)" by (metis append_take_drop_id set_append)
  then show ?thesis by (simp add: ins_at_def)
qed

lemma mset_ins_at [simp]: "mset (ins_at i x xs) = add_mset x (mset xs)"
proof -
  have "mset xs = mset (take i xs) + mset (drop i xs)" by (metis append_take_drop_id mset_append)
  then show ?thesis by (simp add: ins_at_def)
qed

lemma filter_ins_at_not: "\<not> P x \<Longrightarrow> filter P (ins_at i x xs) = filter P xs"
proof -
  assume "\<not> P x"
  moreover have "filter P xs = filter P (take i xs) @ filter P (drop i xs)"
    by (metis append_take_drop_id filter_append)
  ultimately show ?thesis by (simp add: ins_at_def)
qed

lemma map_ins_at: "map f (ins_at i x xs) = ins_at i (f x) (map f xs)"
  by (simp add: ins_at_def take_map drop_map)

lemma nth_ins_at:
  "i \<le> length xs \<Longrightarrow> j \<le> length xs \<Longrightarrow>
   ins_at i x xs ! j = (if j < i then xs ! j else if j = i then x else xs ! (j - 1))"
  by (auto simp: ins_at_def nth_append nth_Cons split: nat.splits intro!: arg_cong [of _ _ "(!) xs"])

lemma in_set_drop_nth:
  assumes "x \<in> set (drop n xs)"
  shows "\<exists>i. n \<le> i \<and> i < length xs \<and> x = xs ! i"
proof -
  obtain j where "j < length xs - n" "x = drop n xs ! j" using assms by (auto simp: in_set_conv_nth)
  then show ?thesis by (intro exI [of _ "n + j"]) (auto simp: nth_drop)
qed

lemma sorted_ins_at_ix:
  assumes "sorted ks"
  shows "sorted (ins_at (ix ks k) k ks)"
proof -
  have "\<forall>x \<in> set (take (ix ks k) ks). x \<le> k"
    using ix_below by (fastforce simp: in_set_conv_nth)
  moreover have "\<forall>x \<in> set (drop (ix ks k) ks). k < x"
  proof
    fix x assume "x \<in> set (drop (ix ks k) ks)"
    then obtain i where i: "i < length ks" "ix ks k \<le> i" "x = ks ! i"
      using in_set_drop_nth by fast
    have "k < ks ! ix ks k" using i ix_at [of ks k] by simp
    also have "\<dots> \<le> x" using i assms by (auto intro: sorted_nth_mono)
    finally show "k < x" .
  qed
  ultimately show ?thesis
    using assms by (fastforce simp: ins_at_def sorted_append sorted_wrt_take sorted_wrt_drop
        dest: in_set_takeD in_set_dropD less_imp_le)
qed

section \<open>The abstract tree\<close>

type_synonym ('k, 'v) atree = "'k list \<times> ('k \<times> 'v) list list"

definition at_empty :: "('k, 'v) atree" where
  "at_empty = ([], [[]])"

definition at_entries :: "('k, 'v) atree \<Rightarrow> ('k \<times> 'v) list" where
  "at_entries a = concat (snd a)"

definition at_search :: "('k::linorder, 'v) atree \<Rightarrow> 'k \<Rightarrow> 'v option" where
  "at_search a k = map_of (snd a ! ix (fst a) k) k"

definition at_leaf_insert :: "'k::linorder \<Rightarrow> 'v \<Rightarrow> ('k \<times> 'v) list \<Rightarrow> ('k \<times> 'v) list" where
  "at_leaf_insert k v ps = ins_at (ix (map fst ps) k) (k, v) ps"

definition at_insert :: "nat \<Rightarrow> ('k::linorder, 'v::linorder) atree \<Rightarrow> 'k \<Rightarrow> 'v \<Rightarrow> ('k, 'v) atree" where
  "at_insert m a k v =
     (let ks = fst a; ls = snd a; j = ix ks k; ps = ls ! j in
      if length ps < m then (ks, ls[j := at_leaf_insert k v ps])
      else let temp = sort (ps @ [(k, v)]); s = length temp div 2;
               l = take s temp; r = drop s temp; sep = fst (hd r) in
           if length ks < m
           then (ins_at (ix ks sep) sep ks, ins_at (Suc (ix ks sep)) r (ls[j := l]))
           else (ks, ls[j := l]))"

text \<open>The case in which the right half of a split leaf is not linked into the tree.\<close>

definition at_drops :: "nat \<Rightarrow> ('k::linorder, 'v) atree \<Rightarrow> 'k \<Rightarrow> bool" where
  "at_drops m a k \<longleftrightarrow> length (snd a ! ix (fst a) k) \<ge> m \<and> length (fst a) \<ge> m"

definition leaf_range :: "nat \<Rightarrow> 'k::linorder list \<Rightarrow> nat \<Rightarrow> ('k \<times> 'v) list \<Rightarrow> bool" where
  "leaf_range h ks j ps \<longleftrightarrow>
     sorted (map fst ps) \<and>
     (0 < j \<longrightarrow> (\<forall>p \<in> set ps. ks ! (j - 1) \<le> fst p) \<and> ks ! (j - 1) \<in> fst ` set ps) \<and>
     (j < length ks \<longrightarrow> (\<forall>p \<in> set ps. fst p \<le> ks ! j) \<and>
        length (filter (\<lambda>p. fst p = ks ! j) ps) \<le> h)"

definition at_inv :: "nat \<Rightarrow> ('k::linorder, 'v) atree \<Rightarrow> bool" where
  "at_inv h a \<longleftrightarrow> sorted (fst a) \<and> length (snd a) = Suc (length (fst a)) \<and>
     length (fst a) \<le> 2 * h \<and>
     (\<forall>j < length (snd a). leaf_range h (fst a) j (snd a ! j) \<and> length (snd a ! j) \<le> 2 * h)"

lemma at_inv_empty: "at_inv h at_empty"
  by (simp add: at_inv_def at_empty_def leaf_range_def)

lemma at_invD:
  assumes "at_inv h a"
  shows "sorted (fst a)" "length (snd a) = Suc (length (fst a))" "length (fst a) \<le> 2 * h"
    "\<And>j. j < length (snd a) \<Longrightarrow> leaf_range h (fst a) j (snd a ! j)"
    "\<And>j. j < length (snd a) \<Longrightarrow> length (snd a ! j) \<le> 2 * h"
  using assms unfolding at_inv_def by blast+

text \<open>The leaf that a key is sent to, and the bounds its separators put on the key.\<close>

lemma ix_leaf:
  assumes "at_inv h a"
  shows "ix (fst a) k < length (snd a)"
    "0 < ix (fst a) k \<Longrightarrow> fst a ! (ix (fst a) k - 1) \<le> k"
    "ix (fst a) k < length (fst a) \<Longrightarrow> k < fst a ! ix (fst a) k"
  using ix_le [of "fst a" k] at_invD(2) [OF assms] ix_below [of "ix (fst a) k - 1" "fst a" k]
    ix_at [of "fst a" k] by auto

section \<open>Search\<close>

lemma at_search_sound: "at_inv h a \<Longrightarrow> at_search a k = Some v \<Longrightarrow> (k, v) \<in> set (at_entries a)"
  using ix_leaf(1) [of h a k] by (auto simp: at_search_def at_entries_def dest!: map_of_SomeD)

lemma at_search_complete:
  assumes inv: "at_inv h a" and kv: "(k, v) \<in> set (at_entries a)"
  shows "\<exists>v'. at_search a k = Some v'"
proof -
  let ?ks = "fst a" and ?ls = "snd a" and ?j = "ix (fst a) k"
  obtain i where i: "i < length ?ls" "(k, v) \<in> set (?ls ! i)"
    using kv by (metis at_entries_def in_set_conv_nth UN_E set_concat)
  note len = at_invD(2) [OF inv] and sorted = at_invD(1) [OF inv]
  have ri: "leaf_range h ?ks i (?ls ! i)" using at_invD(4) [OF inv i(1)] .
  have "i \<le> ?j"
  proof (rule ccontr)
    assume "\<not> i \<le> ?j"
    then have "k < ?ks ! ?j" "?ks ! ?j \<le> ?ks ! (i - 1)"
      using i(1) len ix_leaf(3) [OF inv, of k] by (auto intro: sorted_nth_mono [OF sorted])
    moreover have "?ks ! (i - 1) \<le> k" using ri i(2) \<open>\<not> i \<le> ?j\<close> by (auto simp: leaf_range_def)
    ultimately show False by simp
  qed
  have "k \<in> fst ` set (?ls ! ?j)"
  proof (cases "i = ?j")
    case True
    then show ?thesis using i(2) by force
  next
    case False
    then have less: "i < ?j" using \<open>i \<le> ?j\<close> by simp
    then have "k \<le> ?ks ! i" using ri i(2) ix_leaf(1) [OF inv, of k] len by (auto simp: leaf_range_def)
    also have "\<dots> \<le> ?ks ! (?j - 1)"
      using less ix_leaf(1) [OF inv, of k] len by (intro sorted_nth_mono [OF sorted]) auto
    finally have "?ks ! (?j - 1) = k" using ix_leaf(2) [OF inv, of k] less by simp
    then show ?thesis
      using at_invD(4) [OF inv ix_leaf(1) [OF inv, of k]] less by (auto simp: leaf_range_def)
  qed
  then show ?thesis by (simp add: at_search_def map_of_eq_None_iff flip: not_None_eq)
qed

text \<open>With distinct keys the search is the lookup in the set of entries.\<close>

lemma at_search_eq_map_of:
  assumes inv: "at_inv h a" and d: "distinct (map fst (at_entries a))"
  shows "at_search a k = map_of (at_entries a) k"
proof (cases "at_search a k")
  case (Some v)
  then have "(k, v) \<in> set (at_entries a)" using at_search_sound [OF inv] by blast
  then show ?thesis using Some d by simp
next
  case None
  then have "k \<notin> fst ` set (at_entries a)" using at_search_complete [OF inv] by force
  then show ?thesis using None by (metis map_of_eq_None_iff)
qed

section \<open>Insertion\<close>

text \<open>The parts of the sorted sequence \<open>temp\<close> of a full leaf and the new pair.\<close>

lemma sorted_fst_sort: "sorted (map fst (sort ps))" for ps :: "('k::linorder \<times> 'v::linorder) list"
proof -
  have "sorted (sort ps)" by simp
  then show ?thesis unfolding sorted_map
    by (rule sorted_wrt_mono_rel [rotated]) (auto simp: less_eq_prod_def)
qed

lemma length_filter_parts:
  "length (filter P (take n xs)) + length (filter P (drop n xs)) = length (filter P xs)"
proof -
  have "filter P xs = filter P (take n xs) @ filter P (drop n xs)"
    by (metis append_take_drop_id filter_append)
  then show ?thesis by simp
qed

lemma sorted_fst_take: "sorted (map fst t) \<Longrightarrow> sorted (map fst (take n t))"
  by (metis sorted_wrt_take take_map)

lemma sorted_fst_drop: "sorted (map fst t) \<Longrightarrow> sorted (map fst (drop n t))"
  by (metis sorted_wrt_drop drop_map)

lemma length_filter_sort: "length (filter P (sort xs)) = length (filter P xs)"
proof -
  have "mset (filter P (sort xs)) = mset (filter P xs)" by (simp add: mset_filter)
  then show ?thesis by (metis size_mset)
qed

lemma split_sep_less:
  fixes ps :: "('k::linorder \<times> 'v::linorder) list"
  assumes len: "length ps = 2 * h" and ub: "\<forall>p \<in> set ps. fst p \<le> u" and k: "k < u"
    and cnt: "length (filter (\<lambda>p. fst p = u) ps) \<le> h"
  shows "fst (sort (ps @ [(k, v)]) ! h) < u"
proof (rule ccontr)
  let ?t = "sort (ps @ [(k, v)])"
  assume neg: "\<not> fst (?t ! h) < u"
  have lt: "length ?t = Suc (2 * h)" using len by simp
  have "fst p = u" if p: "p \<in> set (drop h ?t)" for p
  proof -
    obtain i where i: "h \<le> i" "i < length ?t" "p = ?t ! i"
      using in_set_drop_nth [OF p] by blast
    have "fst (?t ! h) \<le> fst p"
      using i sorted_nth_mono [OF sorted_fst_sort, of h i "ps @ [(k, v)]"] by simp
    moreover have "p \<in> set ?t" using i by (metis nth_mem)
    ultimately show ?thesis using neg ub k by auto
  qed
  then have "filter (\<lambda>p. fst p = u) (drop h ?t) = drop h ?t" by (simp add: filter_id_conv)
  then have "Suc h \<le> length (filter (\<lambda>p. fst p = u) (drop h ?t))" using lt by simp
  also have "\<dots> \<le> length (filter (\<lambda>p. fst p = u) ?t)"
    using length_filter_parts [of "\<lambda>p. fst p = u" h ?t] by simp
  also have "\<dots> = length (filter (\<lambda>p. fst p = u) (ps @ [(k, v)]))"
    by (rule length_filter_sort)
  also have "\<dots> \<le> h" using less_imp_neq [OF k] cnt by simp
  finally show False by simp
qed

lemma sorted_hd_least:
  assumes "sorted (map fst t)" "x \<in> fst ` set t" "\<forall>p \<in> set t. x \<le> fst p"
  shows "t \<noteq> [] \<and> fst (hd t) = x"
  using assms by (cases t) (auto intro: antisym)

lemma leaf_range_upd_other:
  "leaf_range h ks i ps \<Longrightarrow> ks' ! (i - 1) = ks ! (i - 1) \<Longrightarrow> (i < length ks' \<longleftrightarrow> i < length ks) \<Longrightarrow>
   (i < length ks \<Longrightarrow> ks' ! i = ks ! i) \<Longrightarrow> leaf_range h ks' i ps"
  by (simp add: leaf_range_def)

lemma leaf_range_insert:
  assumes "leaf_range h ks j ps" "0 < j \<Longrightarrow> ks ! (j - 1) \<le> k" "j < length ks \<Longrightarrow> k < ks ! j"
  shows "leaf_range h ks j (at_leaf_insert k v ps)"
  using assms sorted_ins_at_ix [of "map fst ps" k]
  by (auto simp: leaf_range_def at_leaf_insert_def map_ins_at filter_ins_at_not)

text \<open>A part of \<open>temp\<close> keeps the bounds; the left part keeps the least key.\<close>

lemma leaf_range_temp:
  fixes ps :: "('k::linorder \<times> 'v::linorder) list"
  assumes "leaf_range h ks j ps" "0 < j \<Longrightarrow> ks ! (j - 1) \<le> k" "j < length ks \<Longrightarrow> k < ks ! j"
  shows "leaf_range h ks j (sort (ps @ [(k, v)]))"
proof -
  show ?thesis
    using assms sorted_fst_sort [of "ps @ [(k, v)]"] unfolding leaf_range_def length_filter_sort
    by auto
qed

lemma leaf_range_take:
  assumes "leaf_range h ks j t" "0 < n"
  shows "leaf_range h ks j (take n t)"
proof -
  have "length (filter P (take n t)) \<le> length (filter P t)" for P
    using length_filter_parts [of P n t] by simp
  moreover have "ks ! (j - 1) \<in> fst ` set (take n t)" if "0 < j"
  proof -
    have "t \<noteq> [] \<and> fst (hd t) = ks ! (j - 1)"
      using assms(1) that by (intro sorted_hd_least) (auto simp: leaf_range_def)
    moreover from this have "hd t \<in> set (take n t)"
      using assms(2) by (cases t; cases n) auto
    ultimately show ?thesis by force
  qed
  ultimately show ?thesis
    using assms(1) by (auto simp: leaf_range_def sorted_fst_take dest: in_set_takeD intro: order_trans)
qed

lemma leaf_range_drop:
  assumes r: "leaf_range h ks j t" and n: "n < length t" and j: "j \<le> length ks"
  shows "leaf_range h (ins_at j (fst (t ! n)) ks) (Suc j) (drop n t)"
proof -
  have sep: "fst (t ! n) = fst (hd (drop n t))" and ne: "drop n t \<noteq> []"
    using n by (simp_all add: hd_drop_conv_nth)
  have srt: "sorted (map fst (drop n t))" using r by (simp add: leaf_range_def sorted_fst_drop)
  have "fst (t ! n) \<le> fst p" if "p \<in> set (drop n t)" for p
    using srt ne that unfolding sep by (cases "drop n t") auto
  moreover have "fst (t ! n) \<in> fst ` set (drop n t)" unfolding sep using ne by simp
  moreover have "length (filter P (drop n t)) \<le> length (filter P t)" for P
    using length_filter_parts [of P n t] by simp
  moreover have "ins_at j x ks ! j = x" and "j < length ks \<Longrightarrow> ins_at j x ks ! Suc j = ks ! j" for x
    using j by (simp_all add: nth_ins_at)
  ultimately show ?thesis
    using r srt unfolding leaf_range_def
    by (auto dest: in_set_dropD intro: order_trans)
qed

lemma leaf_range_left:
  assumes r: "leaf_range h ks j t" and n: "0 < n" "n < length t" "n \<le> h" and j: "j \<le> length ks"
  shows "leaf_range h (ins_at j (fst (t ! n)) ks) j (take n t)"
proof -
  have "fst p \<le> fst (t ! n)" if p: "p \<in> set (take n t)" for p
  proof -
    obtain i where "i < n" "p = t ! i" using p by (auto simp: in_set_conv_nth)
    then show ?thesis
      using r n sorted_nth_mono [of "map fst t" i n] by (simp add: leaf_range_def)
  qed
  moreover have "length (filter P (take n t)) \<le> h" for P
    using length_filter_le [of P "take n t"] n by simp
  moreover have "ins_at j x ks ! j = x" and "0 < j \<Longrightarrow> ins_at j x ks ! (j - 1) = ks ! (j - 1)" for x
    using j by (simp_all add: nth_ins_at)
  ultimately show ?thesis
    using leaf_range_take [OF r n(1)] unfolding leaf_range_def by auto
qed

text \<open>What an insertion does in the three cases: room in the leaf, a linked split, a dropped half.\<close>

lemma at_insert_cases:
  fixes a :: "('k::linorder, 'v::linorder) atree" and k :: 'k and v :: 'v
  assumes inv: "at_inv h a" and h: "0 < h"
  defines "ks \<equiv> fst a" and "ls \<equiv> snd a" and "j \<equiv> ix (fst a) k"
  defines "t \<equiv> sort (ls ! j @ [(k, v)])"
  shows "(length (ls ! j) < 2 * h \<and> at_insert (2 * h) a k v = (ks, ls[j := at_leaf_insert k v (ls ! j)])) \<or>
         (length (ls ! j) = 2 * h \<and> length ks < 2 * h \<and>
            at_insert (2 * h) a k v = (ins_at j (fst (t ! h)) ks, ins_at (Suc j) (drop h t) (ls[j := take h t]))) \<or>
         (at_drops (2 * h) a k \<and> length (ls ! j) = 2 * h \<and>
            at_insert (2 * h) a k v = (ks, ls[j := take h t]))"
proof -
  have j: "j < length ls" "0 < j \<Longrightarrow> ks ! (j - 1) \<le> k" "j < length ks \<Longrightarrow> k < ks ! j"
    unfolding j_def ks_def ls_def using ix_leaf [OF inv, of k] by auto
  have len: "length (ls ! j) \<le> 2 * h" using at_invD(5) [OF inv] j(1) by (simp add: ls_def)
  show ?thesis
  proof (cases "length (ls ! j) < 2 * h")
    case True
    then show ?thesis by (simp add: at_insert_def Let_def ks_def ls_def j_def)
  next
    case False
    then have full: "length (ls ! j) = 2 * h" using len by simp
    then have lt: "length t = Suc (2 * h)" "length t div 2 = h" by (simp_all add: t_def)
    have sep: "fst (hd (drop h t)) = fst (t ! h)" using lt by (simp add: hd_drop_conv_nth)
    have r: "leaf_range h ks j (ls ! j)" using at_invD(4) [OF inv] j(1) by (simp add: ks_def ls_def)
    have rt: "leaf_range h ks j t" unfolding t_def by (rule leaf_range_temp [OF r j(2,3)])
    have "ix ks (fst (t ! h)) = j"
    proof (rule ix_eqI)
      show "sorted ks" "j \<le> length ks" using at_invD(1,2) [OF inv] j(1) by (simp_all add: ks_def ls_def)
      have "t ! h \<in> set t" using lt by simp
      then show "ks ! (j - 1) \<le> fst (t ! h)" if "0 < j" using rt that by (auto simp: leaf_range_def)
      show "fst (t ! h) < ks ! j" if "j < length ks"
        unfolding t_def using r that j(3) full by (intro split_sep_less) (auto simp: leaf_range_def)
    qed
    moreover have "ix ks k = j" by (simp add: j_def ks_def)
    ultimately show ?thesis
      using full lt sep
      by (simp add: at_insert_def Let_def at_drops_def flip: ks_def ls_def t_def)
  qed
qed

lemma mset_concat_ins_at: "mset (concat (ins_at i x xs)) = mset x + mset (concat xs)"
proof -
  have "concat xs = concat (take i xs) @ concat (drop i xs)"
    by (metis append_take_drop_id concat_append)
  then show ?thesis by (simp add: ins_at_def)
qed

lemma mset_concat_update:
  assumes "j < length ls"
  shows "mset (concat (ls[j := x])) + mset (ls ! j) = mset (concat ls) + mset x"
proof -
  have "concat ls = concat (take j ls) @ ls ! j @ concat (drop (Suc j) ls)"
    by (metis assms append.assoc concat.simps(2) concat_append id_take_nth_drop)
  moreover have "concat (ls[j := x]) = concat (take j ls) @ x @ concat (drop (Suc j) ls)"
    by (simp add: upd_conv_take_nth_drop assms)
  ultimately show ?thesis by simp
qed

lemma mset_concat_split:
  assumes "j < length ls" and "mset l + mset r = add_mset p (mset (ls ! j))"
  shows "mset (concat (ls[j := l])) + mset r = add_mset p (mset (concat ls))"
proof -
  have "mset (concat (ls[j := l])) + mset r + mset (ls ! j) = mset (concat ls) + (mset l + mset r)"
    using mset_concat_update [OF assms(1), of l] by (metis union_assoc union_commute)
  also have "\<dots> = add_mset p (mset (concat ls)) + mset (ls ! j)" using assms(2) by simp
  finally show ?thesis by (simp only: add_right_cancel)
qed

lemma mset_split_sort:
  "mset (take n (sort (ps @ [p]))) + mset (drop n (sort (ps @ [p]))) = add_mset p (mset ps)"
proof -
  have "mset (take n (sort (ps @ [p]))) + mset (drop n (sort (ps @ [p]))) = mset (sort (ps @ [p]))"
    by (metis append_take_drop_id mset_append)
  then show ?thesis by simp
qed

text \<open>The leaves after a split: the two halves around the new separator, the others where they were or one place on.\<close>

lemma split_leaf_ranges:
  fixes ks :: "'k::linorder list" and t :: "('k \<times> 'v::linorder) list"
  assumes ranges: "\<And>i. i < length ls \<Longrightarrow> leaf_range h ks i (ls ! i)" "\<And>i. i < length ls \<Longrightarrow> length (ls ! i) \<le> 2 * h"
    and len: "length ls = Suc (length ks)" and jk: "j \<le> length ks"
    and rt: "leaf_range h ks j t" and lt: "length t = Suc (2 * h)" and h: "0 < h" and i: "i \<le> length ls"
  shows "leaf_range h (ins_at j (fst (t ! h)) ks) i (ins_at (Suc j) (drop h t) (ls[j := take h t]) ! i) \<and>
    length (ins_at (Suc j) (drop h t) (ls[j := take h t]) ! i) \<le> 2 * h"
proof -
  consider "i < j" | "i = j" | "i = Suc j" | "Suc j < i" by linarith
  then show ?thesis
  proof cases
    case 1
    then show ?thesis
      using ranges [of i] len jk by (auto simp: nth_ins_at intro!: leaf_range_upd_other [of h ks])
  next
    case 2
    then show ?thesis using leaf_range_left [OF rt h, of] lt jk len h by (simp add: nth_ins_at)
  next
    case 3
    then show ?thesis using leaf_range_drop [OF rt _ jk, of h] lt len jk h by (simp add: nth_ins_at)
  next
    case 4
    then have "leaf_range h ks (i - 1) (ls ! (i - 1))" "length (ls ! (i - 1)) \<le> 2 * h"
      using ranges i by auto
    moreover have "leaf_range h (ins_at j (fst (t ! h)) ks) i (ls ! (i - 1))"
      if "leaf_range h ks (i - 1) (ls ! (i - 1))"
      using that 4 i jk len by (auto simp: leaf_range_def nth_ins_at)
    ultimately show ?thesis using 4 i jk len by (simp add: nth_ins_at)
  qed
qed

theorem at_inv_insert:
  fixes a :: "('k::linorder, 'v::linorder) atree"
  assumes inv: "at_inv h a" and h: "0 < h"
  shows "at_inv h (at_insert (2 * h) a k v)"
proof -
  define ks ls j where "ks = fst a" and "ls = snd a" and "j = ix (fst a) k"
  define t where "t = sort (ls ! j @ [(k, v)])"
  note defs = ks_def ls_def j_def
  note D = at_invD [OF inv, folded defs]
  have j: "j < length ls" "0 < j \<Longrightarrow> ks ! (j - 1) \<le> k" "j < length ks \<Longrightarrow> k < ks ! j"
    using ix_leaf [OF inv, of k] unfolding defs by auto
  have rj: "leaf_range h ks j (ls ! j)" using D(4) j(1) .
  have rt: "leaf_range h ks j t" unfolding t_def by (rule leaf_range_temp [OF rj j(2,3)])
  from at_insert_cases [OF inv h, of k v, folded defs, folded t_def] show ?thesis
  proof (elim disjE conjE)
    assume "length (ls ! j) < 2 * h" "at_insert (2 * h) a k v = (ks, ls[j := at_leaf_insert k v (ls ! j)])"
    then show ?thesis
      using D j leaf_range_insert [OF rj j(2,3)]
      by (auto simp: at_inv_def nth_list_update at_leaf_insert_def)
  next
    assume full: "length (ls ! j) = 2 * h"
      and eq: "at_insert (2 * h) a k v = (ks, ls[j := take h t])"
    then show ?thesis
      using D j leaf_range_take [OF rt h] by (auto simp: at_inv_def nth_list_update)
  next
    assume full: "length (ls ! j) = 2 * h" and room: "length ks < 2 * h"
      and eq: "at_insert (2 * h) a k v = (ins_at j (fst (t ! h)) ks, ins_at (Suc j) (drop h t) (ls[j := take h t]))"
    have lt: "length t = Suc (2 * h)" using full by (simp add: t_def)
    have jk: "j \<le> length ks" using j(1) D(2) by simp
    define sep where "sep = fst (t ! h)"
    have "t ! h \<in> set t" using lt by simp
    then have lo: "ks ! (j - 1) \<le> sep" if "0 < j" using rt that by (auto simp: leaf_range_def sep_def)
    have hi: "sep < ks ! j" if "j < length ks"
      unfolding sep_def t_def using rj that j(3) full by (intro split_sep_less) (auto simp: leaf_range_def)
    have "ix ks sep = j" by (rule ix_eqI [OF D(1) jk lo hi])
    then have srt: "sorted (ins_at j sep ks)" using sorted_ins_at_ix [OF D(1), of sep] by simp
    have "leaf_range h (ins_at j sep ks) x (ins_at (Suc j) (drop h t) (ls[j := take h t]) ! x) \<and>
        length (ins_at (Suc j) (drop h t) (ls[j := take h t]) ! x) \<le> 2 * h" if "x \<le> length ls" for x
      unfolding sep_def by (rule split_leaf_ranges [OF D(4,5,2) jk rt lt h that])
    then show ?thesis
      unfolding eq sep_def [symmetric] using srt D(2) room by (simp add: at_inv_def less_Suc_eq_le)
  qed
qed

text \<open>Unless a half is dropped, an insertion adds the pair and loses nothing.\<close>

theorem at_insert_entries:
  fixes a :: "('k::linorder, 'v::linorder) atree"
  assumes inv: "at_inv h a" and h: "0 < h" and nd: "\<not> at_drops (2 * h) a k"
  shows "mset (at_entries (at_insert (2 * h) a k v)) = add_mset (k, v) (mset (at_entries a))"
proof -
  define ks ls j where "ks = fst a" and "ls = snd a" and "j = ix (fst a) k"
  define t where "t = sort (ls ! j @ [(k, v)])"
  note defs = ks_def ls_def j_def
  have j: "j < length ls" using ix_leaf(1) [OF inv, of k] by (simp add: defs)
  have mt: "mset (take h t) + mset (drop h t) = add_mset (k, v) (mset (ls ! j))"
    unfolding t_def by (rule mset_split_sort)
  from at_insert_cases [OF inv h, of k v, folded defs, folded t_def] nd
  consider "at_insert (2 * h) a k v = (ks, ls[j := at_leaf_insert k v (ls ! j)])"
    | "at_insert (2 * h) a k v = (ins_at j (fst (t ! h)) ks, ins_at (Suc j) (drop h t) (ls[j := take h t]))"
    by blast
  then show ?thesis
  proof cases
    case 1
    have "mset (concat (ls[j := at_leaf_insert k v (ls ! j)])) + mset (ls ! j) =
        add_mset (k, v) (mset (concat ls)) + mset (ls ! j)"
      by (simp add: mset_concat_update [OF j] at_leaf_insert_def)
    then show ?thesis using 1 by (simp add: at_entries_def ls_def)
  next
    case 2
    then show ?thesis
      using mset_concat_split [OF j mt]
      by (simp add: at_entries_def mset_concat_ins_at add.commute flip: ls_def)
  qed
qed

text \<open>When a half is dropped, the upper half of the leaf and the pair disappears from the tree.\<close>

theorem at_insert_drops:
  fixes a :: "('k::linorder, 'v::linorder) atree"
  assumes inv: "at_inv h a" and h: "0 < h" and d: "at_drops (2 * h) a k"
  shows "mset (at_entries (at_insert (2 * h) a k v)) + mset (drop h (sort (snd a ! ix (fst a) k @ [(k, v)])))
         = add_mset (k, v) (mset (at_entries a))"
proof -
  define ks ls j where "ks = fst a" and "ls = snd a" and "j = ix (fst a) k"
  define t where "t = sort (ls ! j @ [(k, v)])"
  note defs = ks_def ls_def j_def
  have j: "j < length ls" using ix_leaf(1) [OF inv, of k] by (simp add: defs)
  have mt: "mset (take h t) + mset (drop h t) = add_mset (k, v) (mset (ls ! j))"
    unfolding t_def by (rule mset_split_sort)
  have "\<not> length (ls ! j) < 2 * h" "\<not> length ks < 2 * h" using d by (simp_all add: at_drops_def defs)
  then have "at_insert (2 * h) a k v = (ks, ls[j := take h t])"
    using at_insert_cases [OF inv h, of k v, folded defs, folded t_def] by blast
  then show ?thesis
    using mset_concat_split [OF j mt] by (simp add: at_entries_def t_def) (simp add: defs)
qed

lemma at_insert_sound:
  fixes a :: "('k::linorder, 'v::linorder) atree"
  assumes inv: "at_inv h a" and h: "0 < h"
  shows "set (at_entries (at_insert (2 * h) a k v)) \<subseteq> insert (k, v) (set (at_entries a))"
proof -
  have "set_mset (mset (at_entries (at_insert (2 * h) a k v))) \<subseteq> set_mset (add_mset (k, v) (mset (at_entries a)))"
    using at_insert_entries [OF inv h, of k v] at_insert_drops [OF inv h, of k v]
    by (cases "at_drops (2 * h) a k") (metis mset_subset_eq_add_left set_mset_mono, simp)
  then show ?thesis by simp
qed

text \<open>With distinct keys, an insertion of a new key is an update of the map that the search computes.\<close>

theorem at_search_insert:
  fixes a :: "('k::linorder, 'v::linorder) atree"
  assumes inv: "at_inv h a" and h: "0 < h" and nd: "\<not> at_drops (2 * h) a k"
    and d: "distinct (map fst (at_entries a))" and new: "k \<notin> fst ` set (at_entries a)"
  shows "at_search (at_insert (2 * h) a k v) = (at_search a)(k \<mapsto> v)"
proof -
  let ?a = "at_insert (2 * h) a k v"
  have m: "mset (at_entries ?a) = mset ((k, v) # at_entries a)"
    using at_insert_entries [OF inv h nd] by simp
  then have set: "set (at_entries ?a) = insert (k, v) (set (at_entries a))"
    by (metis list.simps(15) set_mset_mset)
  have "mset (map fst (at_entries ?a)) = mset (map fst ((k, v) # at_entries a))"
    using m by (metis mset_map)
  then have d': "distinct (map fst (at_entries ?a))"
    using d new by (metis distinct.simps(2) fst_conv list.set_map list.simps(9) mset_eq_imp_distinct_iff)
  have "map_of (at_entries ?a) = map_of ((k, v) # at_entries a)"
    using d d' new set by (intro map_of_inject_set [THEN iffD2]) auto
  then show ?thesis
    using at_search_eq_map_of [OF at_inv_insert [OF inv h] d'] at_search_eq_map_of [OF inv d]
    by (auto simp: fun_eq_iff)
qed

end
