(* ===== verification/BPTreeProofs.thy ===== *)
theory BPTreeProofs
  imports BPTreeModel IndexSpec
begin

text \<open>
  The pages of the index implement the abstract tree of \<open>IndexSpec\<close>: what the array loops
  compute, the abstraction of a memory of pages to separators and leaves, the invariant, and
  the refinement of \<open>search\<close>, \<open>insert\<close> and \<open>clear\<close>.
\<close>

section \<open>What the array loops compute\<close>

definition leaf_pairs :: "bptnode \<Rightarrow> (u64 \<times> u64) list" where
  "leaf_pairs n = map (\<lambda>i. (bn_keys n i, bn_values n i)) [0..<unat (bn_num_keys n)]"

definition sep_list :: "bptnode \<Rightarrow> u64 list" where
  "sep_list n = map (bn_keys n) [0..<unat (bn_num_keys n)]"

definition child_list :: "bptnode \<Rightarrow> u32 list" where
  "child_list n = map (bn_children n) [0..<Suc (unat (bn_num_keys n))]"

lemma length_leaf_pairs [simp]: "length (leaf_pairs n) = unat (bn_num_keys n)"
  by (simp add: leaf_pairs_def)

lemma length_sep_list [simp]: "length (sep_list n) = unat (bn_num_keys n)"
  by (simp add: sep_list_def)

lemma length_child_list [simp]: "length (child_list n) = Suc (unat (bn_num_keys n))"
  by (simp add: child_list_def del: upt_Suc)

lemma scan_keys_eq: "i \<le> n \<Longrightarrow> scan_keys n keys key i = i + ix (map keys [i..<n]) key"
proof (induction n keys key i rule: scan_keys.induct)
  case (1 n keys key i)
  show ?case
  proof (cases "i < n \<and> keys i \<le> key")
    case True
    then have "[i..<n] = i # [Suc i..<n]" by (simp add: upt_rec)
    then show ?thesis
      using True "1.IH" by (simp add: scan_keys.simps [of n keys key i] ix_def)
  next
    case False
    then have "map keys [i..<n] = [] \<or> \<not> hd (map keys [i..<n]) \<le> key"
      using "1.prems" by (auto simp: upt_rec)
    then have "ix (map keys [i..<n]) key = 0" by (cases "map keys [i..<n]") (auto simp: ix_def)
    moreover have "scan_keys n keys key i = i" using False by (subst scan_keys.simps) auto
    ultimately show ?thesis by simp
  qed
qed

lemma child_of_eq: "child_of node key = child_list node ! ix (sep_list node) key"
  using ix_le [of "sep_list node" key]
  by (simp add: child_of_def scan_keys_eq sep_list_def child_list_def nth_append del: upt_Suc)

lemma map_of_find:
  "map_of (map (\<lambda>i. (f i, g i)) xs) k = map_option g (find (\<lambda>i. f i = k) xs)"
  by (induction xs) auto

lemma leaf_lookup_eq: "leaf_lookup node key = map_of (leaf_pairs node) key"
  by (simp add: leaf_lookup_def leaf_pairs_def map_of_find)

text \<open>
  The gap loops move the elements above position \<open>i\<close> one place up, where \<open>i\<close> is the number
  of elements from the left that stay.
\<close>

fun gap_pos :: "u64 \<Rightarrow> nat \<Rightarrow> (nat \<Rightarrow> u64) \<Rightarrow> nat" where
  "gap_pos key 0 keys = 0"
| "gap_pos key (Suc i) keys = (if keys i > key then gap_pos key i keys else Suc i)"

definition arr_shift :: "nat \<Rightarrow> nat \<Rightarrow> (nat \<Rightarrow> 'a) \<Rightarrow> (nat \<Rightarrow> 'a)" where
  "arr_shift i n a = (\<lambda>j. if i < j \<and> j \<le> n then a (j - 1) else a j)"

lemma gap_pos_le: "gap_pos key n keys \<le> n"
  by (induction n) auto

lemma gap_pos_upd: "n \<le> m \<Longrightarrow> gap_pos key n (keys(m := x)) = gap_pos key n keys"
  by (induction n) auto

lemma arr_shift_upd: "i \<le> n \<Longrightarrow> arr_shift i n (a(Suc n := a n)) = arr_shift i (Suc n) a"
  by (auto simp: arr_shift_def fun_eq_iff)

lemma arr_shift_id [simp]: "arr_shift n n a = a"
  by (auto simp: arr_shift_def fun_eq_iff)

lemma shift_leaf_eq:
  "shift_leaf key n keys vals =
     (gap_pos key n keys, arr_shift (gap_pos key n keys) n keys, arr_shift (gap_pos key n keys) n vals)"
proof (induction n arbitrary: keys vals)
  case (Suc n)
  have "gap_pos key n (keys(Suc n := keys n)) = gap_pos key n keys"
    by (rule gap_pos_upd) simp
  then show ?case
    using gap_pos_le [of key n keys]
    by (cases "key < keys n")
      (simp_all add: Suc.IH arr_shift_upd [unfolded fun_upd_def] fun_upd_def)
qed (auto simp: arr_shift_def fun_eq_iff)

lemma shift_parent_eq:
  "shift_parent key n keys cs =
     (gap_pos key n keys, arr_shift (gap_pos key n keys) n keys,
      arr_shift (Suc (gap_pos key n keys)) (Suc n) cs)"
proof (induction n arbitrary: keys cs)
  case (Suc n)
  have "gap_pos key n (keys(Suc n := keys n)) = gap_pos key n keys"
    by (rule gap_pos_upd) simp
  then show ?case
    using gap_pos_le [of key n keys]
    by (cases "key < keys n")
      (simp_all add: Suc.IH arr_shift_upd [unfolded fun_upd_def] fun_upd_def)
qed (auto simp: arr_shift_def fun_eq_iff)

lemma gap_pos_eq_ix:
  assumes "sorted (map keys [0..<n])"
  shows "gap_pos key n keys = ix (map keys [0..<n]) key"
proof -
  have g: "(0 < gap_pos key n keys \<longrightarrow> keys (gap_pos key n keys - 1) \<le> key) \<and>
      (gap_pos key n keys < n \<longrightarrow> key < keys (gap_pos key n keys))"
    by (induction n) (auto simp: not_less less_Suc_eq)
  show ?thesis
    by (rule ix_eqI [symmetric]) (use assms g gap_pos_le [of key n keys] in auto)
qed

lemma map_arr_shift:
  assumes "i \<le> n"
  shows "map ((arr_shift i n a)(i := x)) [0..<Suc n] = ins_at i x (map a [0..<n])"
proof (rule nth_equalityI)
  fix j assume "j < length (map ((arr_shift i n a)(i := x)) [0..<Suc n])"
  then have "j < Suc n" by simp
  then show "map ((arr_shift i n a)(i := x)) [0..<Suc n] ! j = ins_at i x (map a [0..<n]) ! j"
    using assms by (auto simp: nth_ins_at arr_shift_def simp del: upt_Suc)
qed simp

lemma copy_into_eq:
  "copy_into a i xs j = (if i \<le> j \<and> j < i + length xs then xs ! (j - i) else a j)"
proof (induction xs arbitrary: a i)
  case (Cons x xs)
  show ?case by (auto simp: Cons.IH nth_Cons' Suc_diff_le)
qed auto

lemma map_copy_into: "map (copy_into a 0 xs) [0..<length xs] = xs"
  by (auto simp: copy_into_eq intro!: nth_equalityI)

section \<open>What the node operations do to the contents\<close>

lemma num_keys_Suc: "unat n < BPT_ORDER \<Longrightarrow> unat (n + 1 :: u32) = Suc (unat n)"
  by (simp add: BPT_ORDER_def unat_word_ariths)

lemma leaf_pairs_zip: "leaf_pairs n = zip (map (bn_keys n) [0..<unat (bn_num_keys n)])
    (map (bn_values n) [0..<unat (bn_num_keys n)])"
  by (simp add: leaf_pairs_def zip_map_map zip_same_conv_map)

lemma zip_ins_at:
  "i \<le> length xs \<Longrightarrow> length xs = length ys \<Longrightarrow> zip (ins_at i x xs) (ins_at i y ys) = ins_at i (x, y) (zip xs ys)"
  by (simp add: ins_at_def zip_append take_zip drop_zip)

lemma leaf_pairs_insert:
  assumes "unat (bn_num_keys node) < BPT_ORDER" and "sorted (map fst (leaf_pairs node))"
  shows "leaf_pairs (insert_pair node key val) = at_leaf_insert key val (leaf_pairs node)"
    and "bn_type (insert_pair node key val) = bn_type node"
proof -
  let ?n = "unat (bn_num_keys node)" and ?i = "gap_pos key (unat (bn_num_keys node)) (bn_keys node)"
  have keys: "map fst (leaf_pairs node) = map (bn_keys node) [0..<?n]"
    by (simp add: leaf_pairs_def comp_def)
  have i: "?i = ix (map fst (leaf_pairs node)) key" "?i \<le> ?n"
    using gap_pos_eq_ix [OF assms(2) [unfolded keys]] gap_pos_le unfolding keys by blast+
  show "leaf_pairs (insert_pair node key val) = at_leaf_insert key val (leaf_pairs node)"
    using i num_keys_Suc [OF assms(1)]
    by (simp add: insert_pair_def shift_leaf_eq leaf_pairs_zip [of "_ \<lparr>bn_num_keys := _\<rparr>"] map_arr_shift
        zip_ins_at at_leaf_insert_def leaf_pairs_zip del: upt_Suc)
  show "bn_type (insert_pair node key val) = bn_type node"
    by (simp add: insert_pair_def shift_leaf_eq)
qed

lemma insert_sep_lists:
  assumes "unat (bn_num_keys node) < BPT_ORDER" and "sorted (sep_list node)"
  shows "sep_list (insert_sep node key right) = ins_at (ix (sep_list node) key) key (sep_list node)"
    and "child_list (insert_sep node key right) =
           ins_at (Suc (ix (sep_list node) key)) right (child_list node)"
    and "bn_type (insert_sep node key right) = bn_type node"
proof -
  let ?n = "unat (bn_num_keys node)" and ?i = "gap_pos key (unat (bn_num_keys node)) (bn_keys node)"
  have i: "?i = ix (sep_list node) key" "?i \<le> ?n"
    using gap_pos_eq_ix [OF assms(2) [unfolded sep_list_def]] gap_pos_le unfolding sep_list_def by blast+
  show "sep_list (insert_sep node key right) = ins_at (ix (sep_list node) key) key (sep_list node)"
    and "child_list (insert_sep node key right) = ins_at (Suc (ix (sep_list node) key)) right (child_list node)"
    and "bn_type (insert_sep node key right) = bn_type node"
    using i num_keys_Suc [OF assms(1)]
    by (simp_all add: insert_sep_def shift_parent_eq sep_list_def child_list_def map_arr_shift del: upt_Suc)
qed

lemma leaf_pairs_fill:
  "length ps < 2 ^ 32 \<Longrightarrow> leaf_pairs (fill_leaf node ps nx) = ps"
  "bn_type (fill_leaf node ps nx) = bn_type node"
proof -
  assume "length ps < 2 ^ 32"
  then have "unat (of_nat (length ps) :: u32) = length ps" by (simp add: unat_of_nat)
  then show "leaf_pairs (fill_leaf node ps nx) = ps"
    using map_copy_into [of "bn_keys node" "map fst ps"] map_copy_into [of "bn_values node" "map snd ps"]
    by (simp add: fill_leaf_def leaf_pairs_zip zip_map_fst_snd)
qed (simp add: fill_leaf_def)

lemma fill_leaf_first: "ps \<noteq> [] \<Longrightarrow> bn_keys (fill_leaf node ps nx) 0 = fst (hd ps)"
  by (simp add: fill_leaf_def copy_into_eq hd_conv_nth)

lemma split_temp_eq:
  "unat (bn_num_keys node) = BPT_ORDER \<Longrightarrow> split_temp node key val = sort (leaf_pairs node @ [(key, val)])"
  by (simp add: split_temp_def leaf_pairs_def)

section \<open>The abstraction of the pages\<close>

definition mem_leaves :: "(nat \<Rightarrow> bptnode) \<Rightarrow> u32 \<Rightarrow> u32 list" where
  "mem_leaves M r = (if bn_type (M (unat r)) = LEAF then [r] else child_list (M (unat r)))"

definition mem_seps :: "(nat \<Rightarrow> bptnode) \<Rightarrow> u32 \<Rightarrow> u64 list" where
  "mem_seps M r = (if bn_type (M (unat r)) = LEAF then [] else sep_list (M (unat r)))"

definition mem_tree :: "(nat \<Rightarrow> bptnode) \<Rightarrow> u32 \<Rightarrow> (u64, u64) atree" where
  "mem_tree M r = (mem_seps M r, map (\<lambda>c. leaf_pairs (M (unat c))) (mem_leaves M r))"

text \<open>
  The shape: the root and the leaves are allocated pages, the leaves are distinct and are
  leaves, and an internal root has at least one key and is not among its own children.
\<close>

definition mem_ok :: "(nat \<Rightarrow> bptnode) \<Rightarrow> u32 \<Rightarrow> u32 \<Rightarrow> bool" where
  "mem_ok M r np \<longleftrightarrow> unat np \<le> max_pages \<and> r < np \<and> distinct (mem_leaves M r) \<and>
     (\<forall>c \<in> set (mem_leaves M r). c < np \<and> bn_type (M (unat c)) = LEAF) \<and>
     (bn_type (M (unat r)) = INTERNAL \<longrightarrow> r \<notin> set (mem_leaves M r) \<and> 0 < unat (bn_num_keys (M (unat r))))"

abbreviation bpt_mem :: "bptree \<Rightarrow> nat \<Rightarrow> bptnode" where
  "bpt_mem t \<equiv> cm_mem (bt_cm t)"

abbreviation bpt_npages :: "bptree \<Rightarrow> u32" where
  "bpt_npages t \<equiv> cm_npages (bt_cm t)"

definition bpt_tree :: "bptree \<Rightarrow> (u64, u64) atree" where
  "bpt_tree t = mem_tree (bpt_mem t) (bt_root t)"

definition bpt_inv :: "bptree \<Rightarrow> bool" where
  "bpt_inv t \<longleftrightarrow> cm_inv (bt_cm t) \<and> mem_ok (bpt_mem t) (bt_root t) (bpt_npages t) \<and>
     at_inv (BPT_ORDER div 2) (bpt_tree t)"

lemma half_order [simp]: "2 * (BPT_ORDER div 2) = BPT_ORDER" "0 < BPT_ORDER div 2"
  by (simp_all add: BPT_ORDER_def)

lemma length_mem_leaves: "length (mem_leaves M r) = Suc (length (mem_seps M r))"
  by (simp add: mem_leaves_def mem_seps_def)

lemma mem_tree_simps [simp]:
  "fst (mem_tree M r) = mem_seps M r"
  "snd (mem_tree M r) = map (\<lambda>c. leaf_pairs (M (unat c))) (mem_leaves M r)"
  by (simp_all add: mem_tree_def)

lemma mem_okD:
  assumes "mem_ok M r np"
  shows "unat np \<le> max_pages" "r < np" "unat r < max_pages" "distinct (mem_leaves M r)"
    "\<And>c. c \<in> set (mem_leaves M r) \<Longrightarrow> c < np"
    "\<And>c. c \<in> set (mem_leaves M r) \<Longrightarrow> unat c < max_pages"
    "\<And>c. c \<in> set (mem_leaves M r) \<Longrightarrow> bn_type (M (unat c)) = LEAF"
  using assms by (auto simp: mem_ok_def page_less_unat)

section \<open>Search\<close>

text \<open>The leaf a key belongs to, and the two steps by which a descent reaches it.\<close>

definition target :: "(nat \<Rightarrow> bptnode) \<Rightarrow> u32 \<Rightarrow> u64 \<Rightarrow> u32" where
  "target M r key = mem_leaves M r ! ix (mem_seps M r) key"

lemma target_in: "target M r key \<in> set (mem_leaves M r)"
  using ix_le [of "mem_seps M r" key] by (simp add: target_def length_mem_leaves less_Suc_eq_le)

lemma target_internal: "bn_type (M (unat r)) \<noteq> LEAF \<Longrightarrow> child_of (M (unat r)) key = target M r key"
  by (simp add: target_def mem_leaves_def mem_seps_def child_of_eq)

lemma search_loop_leaf:
  assumes "cm_inv s" "pid < cm_npages s" "unat pid < max_pages" "bn_type (cm_mem s (unat pid)) = LEAF"
  shows "\<exists>s'. search_loop (Suc f) s key pid = Inr (map_of (leaf_pairs (cm_mem s (unat pid))) key, s') \<and>
           cm_inv s' \<and> cm_mem s' = cm_mem s \<and> cm_npages s' = cm_npages s"
  using cm.fetch [OF assms(1-3)] assms(4) by (auto simp: leaf_lookup_eq)

lemma search_loop_target:
  assumes inv: "cm_inv s" and ok: "mem_ok (cm_mem s) r (cm_npages s)"
  shows "\<exists>s'. search_loop (Suc (Suc f)) s key r =
            Inr (map_of (leaf_pairs (cm_mem s (unat (target (cm_mem s) r key)))) key, s') \<and>
           cm_inv s' \<and> cm_mem s' = cm_mem s \<and> cm_npages s' = cm_npages s"
proof (cases "bn_type (cm_mem s (unat r)) = LEAF")
  case True
  then have "target (cm_mem s) r key = r"
    using target_in [of "cm_mem s" r key] by (simp add: mem_leaves_def)
  then show ?thesis using search_loop_leaf [OF inv] mem_okD [OF ok] True by metis
next
  case False
  note c = target_in [of "cm_mem s" r key]
  obtain s1 where s1: "cm_get_page s r = Inr (Some (page_addr r), s1)"
    "cm_deref s1 (Some (page_addr r)) = Inr (cm_mem s (unat r))"
    "cm_inv s1" "cm_mem s1 = cm_mem s" "cm_npages s1 = cm_npages s"
    using cm.fetch [OF inv mem_okD(2,3) [OF ok]] by blast
  have "search_loop (Suc (Suc f)) s key r = search_loop (Suc f) s1 key (target (cm_mem s) r key)"
    by (subst search_loop.simps) (simp add: s1(1,2) False target_internal del: search_loop.simps)
  then show ?thesis
    using search_loop_leaf [OF s1(3), of "target (cm_mem s) r key" f key] mem_okD(5-7) [OF ok c] s1(4,5)
    by (metis (no_types, lifting))
qed

lemma find_leaf_loop_target:
  assumes inv: "cm_inv s" and ok: "mem_ok (cm_mem s) r (cm_npages s)"
  shows "\<exists>s'. find_leaf_loop (Suc (Suc f)) s key r = Inr (target (cm_mem s) r key, s') \<and>
           cm_inv s' \<and> cm_mem s' = cm_mem s \<and> cm_npages s' = cm_npages s"
proof -
  have leaf: "\<exists>s'. find_leaf_loop (Suc f) s key pid = Inr (pid, s') \<and>
      cm_inv s' \<and> cm_mem s' = cm_mem s \<and> cm_npages s' = cm_npages s"
    if "cm_inv s" "pid < cm_npages s" "unat pid < max_pages" "bn_type (cm_mem s (unat pid)) = LEAF" for f s pid
    using cm.fetch [OF that(1-3)] that(4) by auto
  show ?thesis
  proof (cases "bn_type (cm_mem s (unat r)) = LEAF")
    case True
    then have "target (cm_mem s) r key = r"
      using target_in [of "cm_mem s" r key] by (simp add: mem_leaves_def)
    then show ?thesis using leaf [OF inv, of r "Suc f"] mem_okD [OF ok] True by metis
  next
    case False
    note c = target_in [of "cm_mem s" r key]
    obtain s1 where s1: "cm_get_page s r = Inr (Some (page_addr r), s1)"
      "cm_deref s1 (Some (page_addr r)) = Inr (cm_mem s (unat r))"
      "cm_inv s1" "cm_mem s1 = cm_mem s" "cm_npages s1 = cm_npages s"
      using cm.fetch [OF inv mem_okD(2,3) [OF ok]] by blast
    have "find_leaf_loop (Suc (Suc f)) s key r = find_leaf_loop (Suc f) s1 key (target (cm_mem s) r key)"
      by (subst find_leaf_loop.simps) (simp add: s1(1,2) False target_internal del: find_leaf_loop.simps)
    then show ?thesis
      using leaf [OF s1(3), of "target (cm_mem s) r key" f] mem_okD(5-7) [OF ok c] s1(4,5) by metis
  qed
qed

lemma descent_fuel_two:
  assumes "mem_ok M r (cm_npages s)"
  shows "\<exists>f. descent_fuel s = Suc (Suc f)"
  using mem_okD(2) [OF assms] by (cases "unat (cm_npages s)") (auto simp: descent_fuel_def page_less_unat)

lemma at_search_mem_tree:
  "at_search (mem_tree M r) key = map_of (leaf_pairs (M (unat (target M r key)))) key"
proof -
  have "ix (mem_seps M r) key < length (mem_leaves M r)"
    using ix_le [of "mem_seps M r" key] by (simp add: length_mem_leaves less_Suc_eq_le)
  then show ?thesis by (simp add: at_search_def target_def)
qed

lemma bpt_search_refines:
  assumes "bpt_inv t"
  shows "\<exists>t'. bpt_search t key = Inr (at_search (bpt_tree t) key, t') \<and> bpt_inv t' \<and>
           bpt_tree t' = bpt_tree t \<and> bpt_npages t' = bpt_npages t"
proof -
  have inv: "cm_inv (bt_cm t)" and ok: "mem_ok (bpt_mem t) (bt_root t) (bpt_npages t)"
    using assms by (simp_all add: bpt_inv_def)
  obtain f where "descent_fuel (bt_cm t) = Suc (Suc f)" using descent_fuel_two [OF ok] by blast
  then obtain s' where s': "search_loop (descent_fuel (bt_cm t)) (bt_cm t) key (bt_root t) =
      Inr (at_search (bpt_tree t) key, s')" "cm_inv s'" "cm_mem s' = bpt_mem t" "cm_npages s' = bpt_npages t"
    using search_loop_target [OF inv ok, of f key] by (auto simp: bpt_tree_def at_search_mem_tree)
  then have "bpt_search t key = Inr (at_search (bpt_tree t) key, t\<lparr>bt_cm := s'\<rparr>)"
    by (simp add: bpt_search_def)
  then show ?thesis using s' assms by (simp add: bpt_inv_def bpt_tree_def)
qed

section \<open>Writing a leaf, adding a page\<close>

lemma create_node_spec:
  assumes "cm_inv s" and "unat (cm_npages s) < max_pages"
  shows "\<exists>s'. create_node s ty = Inr (cm_npages s, s') \<and> cm_inv s' \<and>
           cm_mem s' = (cm_mem s)(unat (cm_npages s) := fresh_node ty) \<and> cm_npages s' = cm_npages s + 1"
proof -
  obtain s1 s2 where s2: "cm_allocate s = (cm_npages s, s1)"
    "cm_get_page s1 (cm_npages s) = Inr (Some (page_addr (cm_npages s)), s2)"
    "cm_inv s2" "cm_mem s2 = cm_mem s" "cm_npages s2 = cm_npages s + 1"
    using cm.alloc_fetch [OF assms] by blast
  then show ?thesis
    using cm.write_page [OF s2(3) assms(2), of "fresh_node ty"] by (auto simp: create_node_def)
qed

lemma mem_upd_leaf:
  assumes ok: "mem_ok M r np" and c: "c \<in> set (mem_leaves M r)" and leaf: "bn_type node = LEAF"
  shows "mem_leaves (M(unat c := node)) r = mem_leaves M r" "mem_seps (M(unat c := node)) r = mem_seps M r"
proof -
  have "bn_type (M (unat r)) = LEAF \<and> c = r \<or> bn_type (M (unat r)) \<noteq> LEAF \<and> unat c \<noteq> unat r"
    using ok c by (cases "bn_type (M (unat r))") (auto simp: mem_ok_def mem_leaves_def)
  then show "mem_leaves (M(unat c := node)) r = mem_leaves M r" "mem_seps (M(unat c := node)) r = mem_seps M r"
    using leaf by (auto simp: mem_leaves_def mem_seps_def)
qed

lemma mem_ok_upd_leaf:
  assumes "mem_ok M r np" and "c \<in> set (mem_leaves M r)" and "bn_type node = LEAF"
  shows "mem_ok (M(unat c := node)) r np"
proof -
  have types: "bn_type ((M(unat c := node)) (unat d)) = bn_type (M (unat d))" for d
    using mem_okD(7) [OF assms(1,2)] assms(3) by simp
  have nk: "bn_type (M (unat r)) = INTERNAL \<Longrightarrow> (M(unat c := node)) (unat r) = M (unat r)"
    using mem_okD(7) [OF assms(1,2)] by auto
  show ?thesis
    using assms(1) nk unfolding mem_ok_def mem_upd_leaf [OF assms] types by simp
qed

lemma mem_tree_upd_target:
  assumes ok: "mem_ok M r np" and leaf: "bn_type node = LEAF"
  shows "mem_tree (M(unat (target M r key) := node)) r =
           (mem_seps M r, (snd (mem_tree M r))[ix (mem_seps M r) key := leaf_pairs node])"
proof -
  let ?j = "ix (mem_seps M r) key" and ?ls = "mem_leaves M r"
  have j: "?j < length ?ls" using ix_le [of "mem_seps M r" key] by (simp add: length_mem_leaves less_Suc_eq_le)
  have "map (\<lambda>c. leaf_pairs ((M(unat (?ls ! ?j) := node)) (unat c))) ?ls =
      (map (\<lambda>c. leaf_pairs (M (unat c))) ?ls)[?j := leaf_pairs node]"
    using j mem_okD(4) [OF ok]
    by (intro nth_equalityI) (auto simp: nth_list_update nth_eq_iff_index_eq simp flip: word_unat_eq_iff)
  then show ?thesis
    using mem_upd_leaf [OF ok target_in leaf, of key] by (simp add: mem_tree_def target_def)
qed

lemma mem_add_page:
  assumes ok: "mem_ok M r np" and room: "unat np < max_pages"
  shows "mem_ok (M(unat np := x)) r (np + 1)" "mem_tree (M(unat np := x)) r = mem_tree M r"
    "mem_leaves (M(unat np := x)) r = mem_leaves M r"
proof -
  have r: "unat r \<noteq> unat np" using mem_okD(2) [OF ok] by (simp add: page_less_unat)
  have c: "unat c \<noteq> unat np" if "c \<in> set (mem_leaves M r)" for c
    using mem_okD(5) [OF ok that] by (simp add: page_less_unat)
  from r have l: "mem_leaves (M(unat np := x)) r = mem_leaves M r" "mem_seps (M(unat np := x)) r = mem_seps M r"
    by (simp_all add: mem_leaves_def mem_seps_def)
  then show "mem_leaves (M(unat np := x)) r = mem_leaves M r" by simp
  show "mem_tree (M(unat np := x)) r = mem_tree M r" using l c by (simp add: mem_tree_def)
  have "unat (np + 1) = Suc (unat np)" using room by simp
  then show "mem_ok (M(unat np := x)) r (np + 1)"
    using ok r c room unfolding mem_ok_def l by (simp add: page_less_unat less_Suc_eq)
qed

section \<open>Insertion\<close>

lemma mem_tree_target:
  "snd (mem_tree M r) ! ix (mem_seps M r) key = leaf_pairs (M (unat (target M r key)))"
  using ix_le [of "mem_seps M r" key] by (simp add: target_def length_mem_leaves less_Suc_eq_le)

text \<open>The outcome of an insertion on a memory of pages: the tree that \<open>at_insert\<close> gives.\<close>

definition inserted :: "bptree \<Rightarrow> u64 \<Rightarrow> u64 \<Rightarrow> bptree res \<Rightarrow> bool" where
  "inserted t k v res \<longleftrightarrow> (\<exists>t'. res = Inr t' \<and> cm_inv (bt_cm t') \<and>
     mem_ok (bpt_mem t') (bt_root t') (bpt_npages t') \<and>
     bpt_tree t' = at_insert BPT_ORDER (bpt_tree t) k v \<and>
     unat (bpt_npages t') \<le> unat (bpt_npages t) + 2)"

lemma insertedI:
  "cm_inv s \<Longrightarrow> mem_ok (cm_mem s) r (cm_npages s) \<Longrightarrow>
   mem_tree (cm_mem s) r = at_insert BPT_ORDER (bpt_tree t) k v \<Longrightarrow>
   unat (cm_npages s) \<le> unat (bpt_npages t) + 2 \<Longrightarrow> inserted t k v (Inr \<lparr>bt_cm = s, bt_root = r\<rparr>)"
  by (simp add: inserted_def bpt_tree_def)

lemma bpt_invD:
  assumes "bpt_inv t"
  shows "cm_inv (bt_cm t)" "mem_ok (bpt_mem t) (bt_root t) (bpt_npages t)"
    "at_inv (BPT_ORDER div 2) (mem_tree (bpt_mem t) (bt_root t))"
  using assms by (simp_all add: bpt_inv_def bpt_tree_def)

lemma target_leaf:
  fixes key :: u64
  assumes "bpt_inv t"
  defines "c \<equiv> target (bpt_mem t) (bt_root t) key"
  shows "c \<in> set (mem_leaves (bpt_mem t) (bt_root t))" "c < bpt_npages t" "unat c < max_pages"
    "bn_type (bpt_mem t (unat c)) = LEAF" "sorted (map fst (leaf_pairs (bpt_mem t (unat c))))"
    "unat (bn_num_keys (bpt_mem t (unat c))) \<le> BPT_ORDER"
proof -
  let ?a = "mem_tree (bpt_mem t) (bt_root t)"
  show c: "c \<in> set (mem_leaves (bpt_mem t) (bt_root t))" by (simp add: c_def target_in)
  show "c < bpt_npages t" "unat c < max_pages" "bn_type (bpt_mem t (unat c)) = LEAF"
    using mem_okD(5-7) [OF bpt_invD(2) [OF assms(1)] c] by blast+
  have "leaf_range (BPT_ORDER div 2) (fst ?a) (ix (fst ?a) key) (snd ?a ! ix (fst ?a) key)"
    "length (snd ?a ! ix (fst ?a) key) \<le> 2 * (BPT_ORDER div 2)"
    using bpt_invD(3) [OF assms(1)] at_invD(4,5) ix_leaf(1) by blast+
  then show "sorted (map fst (leaf_pairs (bpt_mem t (unat c))))"
    "unat (bn_num_keys (bpt_mem t (unat c))) \<le> BPT_ORDER"
    using mem_tree_target [of "bpt_mem t" "bt_root t" key] by (simp_all add: leaf_range_def c_def)
qed

lemma insert_into_leaf_room:
  fixes k v :: u64
  assumes inv: "bpt_inv t"
  defines "c \<equiv> target (bpt_mem t) (bt_root t) k"
  assumes room: "unat (bn_num_keys (bpt_mem t (unat c))) < BPT_ORDER"
  shows "inserted t k v (insert_into_leaf t c k v)"
proof -
  let ?M = "bpt_mem t" and ?r = "bt_root t" and ?n = "insert_pair (bpt_mem t (unat c)) k v"
  note c = target_leaf [OF inv, of k, folded c_def]
  note pairs = leaf_pairs_insert [OF room c(5), of k v]
  obtain s1 where s1: "cm_get_page (bt_cm t) c = Inr (Some (page_addr c), s1)"
    "cm_deref s1 (Some (page_addr c)) = Inr (?M (unat c))" "cm_inv s1" "cm_mem s1 = ?M"
    "cm_npages s1 = bpt_npages t"
    using cm.fetch [OF bpt_invD(1) [OF inv] c(2,3)] by blast
  obtain s2 s3 where s3: "cm_assign s1 (Some (page_addr c)) ?n = Inr s2" "cm_mark_dirty s2 c = Inr s3"
    "cm_inv s3" "cm_mem s3 = ?M(unat c := ?n)" "cm_npages s3 = bpt_npages t"
    using cm.write_page [OF s1(3) c(3), of ?n] s1(4,5) by auto
  have "insert_into_leaf t c k v = Inr \<lparr>bt_cm = s3, bt_root = ?r\<rparr>"
    using s1(1,2) s3(1,2) room by (simp add: insert_into_leaf_def)
  moreover have "mem_tree (cm_mem s3) ?r = at_insert BPT_ORDER (bpt_tree t) k v"
    unfolding s3(4) c_def mem_tree_upd_target [OF bpt_invD(2) [OF inv] trans [OF pairs(2) c(4)], unfolded c_def]
    using room pairs(1) mem_tree_target [of ?M ?r k]
    by (simp add: at_insert_def bpt_tree_def c_def Let_def)
  moreover have "mem_ok (cm_mem s3) ?r (cm_npages s3)"
    unfolding s3(4,5) using mem_ok_upd_leaf [OF bpt_invD(2) [OF inv] c(1)] pairs(2) c(4) by simp
  ultimately show ?thesis using s3(3,5) insertedI [of s3 ?r t k v] by simp
qed

text \<open>A split writes both halves, then links the right one.\<close>

lemma split_leaf_halves:
  fixes k v :: u64
  assumes inv: "bpt_inv t" and room: "unat (bpt_npages t) < max_pages"
  defines "c \<equiv> target (bpt_mem t) (bt_root t) k" and "np \<equiv> bpt_npages t"
  defines "temp \<equiv> sort (leaf_pairs (bpt_mem t (unat c)) @ [(k, v)])"
  assumes full: "unat (bn_num_keys (bpt_mem t (unat c))) = BPT_ORDER"
  shows "\<exists>s l r. split_leaf t c (Some (page_addr c)) k v =
           insert_into_parent (t\<lparr>bt_cm := s\<rparr>) c (fst (hd (drop (BPT_ORDER div 2) temp))) np \<and>
         cm_inv s \<and> cm_mem s = (bpt_mem t)(unat c := l, unat np := r) \<and> cm_npages s = np + 1 \<and>
         bn_type l = LEAF \<and> bn_type r = LEAF \<and>
         leaf_pairs l = take (BPT_ORDER div 2) temp \<and> leaf_pairs r = drop (BPT_ORDER div 2) temp"
proof -
  let ?M = "bpt_mem t" and ?h = "BPT_ORDER div 2" and ?p = "Some (page_addr c)" and ?q = "Some (page_addr np)"
  let ?node = "bpt_mem t (unat c)"
  let ?l = "fill_leaf ?node (take ?h temp) np" and ?r = "fill_leaf (fresh_node LEAF) (drop ?h temp) (bn_next_leaf ?node)"
  note c = target_leaf [OF inv, of k, folded c_def]
  have ne: "unat c \<noteq> unat np" using c(2) by (simp add: page_less_unat np_def)
  have len: "length temp = Suc BPT_ORDER" using full by (simp add: temp_def)
  have temp: "split_temp ?node k v = temp" using full by (simp add: temp_def split_temp_eq)
  have halves: "length temp div 2 = ?h" "length temp < 2 ^ 32" "drop ?h temp \<noteq> []"
    using len by (simp_all add: BPT_ORDER_def)
  obtain s1 where s1: "create_node (bt_cm t) LEAF = Inr (np, s1)" "cm_inv s1"
    "cm_mem s1 = ?M(unat np := fresh_node LEAF)" "cm_npages s1 = np + 1"
    using create_node_spec [OF bpt_invD(1) [OF inv] room, of LEAF] by (auto simp: np_def)
  have npn: "np < cm_npages s1" "unat np < max_pages"
    using s1(4) room by (simp_all add: np_def page_less_unat)
  obtain s2 where s2: "cm_get_page s1 np = Inr (?q, s2)" "cm_inv s2" "cm_mem s2 = cm_mem s1" "cm_npages s2 = np + 1"
    using cm.fetch [OF s1(2) npn] s1(4) by auto
  obtain s3 where s3: "cm_assign s2 ?p ?l = Inr s3" "cm_inv s3"
    "cm_mem s3 = (cm_mem s1)(unat c := ?l)" "cm_npages s3 = np + 1"
    using cm.assign_law [OF s2(2) c(3), of ?l] s2(3,4) by auto
  obtain s4 where s4: "cm_assign s3 ?q ?r = Inr s4" "cm_inv s4"
    "cm_mem s4 = (cm_mem s3)(unat np := ?r)" "cm_npages s4 = np + 1"
    using cm.assign_law [OF s3(2) npn(2), of ?r] s3(4) by auto
  obtain s5 where s5: "cm_mark_dirty s4 c = Inr s5" "cm_inv s5" "cm_mem s5 = cm_mem s4" "cm_npages s5 = np + 1"
    using cm.mark_dirty_law [OF s4(2), of c] s4(4) by auto
  obtain s6 where s6: "cm_mark_dirty s5 np = Inr s6" "cm_inv s6" "cm_mem s6 = cm_mem s5" "cm_npages s6 = np + 1"
    using cm.mark_dirty_law [OF s5(2), of np] s5(4) by auto
  have "cm_deref s2 ?p = Inr ?node" "cm_deref s3 ?q = Inr (fresh_node LEAF)"
    using cm.deref_law [OF c(3), of s2] cm.deref_law [OF npn(2), of s3] s2(3) s3(3) s1(3) ne by simp_all
  then have "split_leaf t c ?p k v =
      insert_into_parent (t\<lparr>bt_cm := s6\<rparr>) c (bn_keys ?r 0) np"
    using s1(1) s2(1) s3(1) s4(1) s5(1) s6(1) halves(1) by (simp add: split_leaf_def temp)
  moreover have "cm_mem s6 = ?M(unat c := ?l, unat np := ?r)"
    unfolding s6(3) s5(3) s4(3) s3(3) s1(3) using ne by (simp add: fun_upd_twist)
  ultimately show ?thesis
    using s6(2,4) halves(2,3) c(4) fill_leaf_first [OF halves(3)] leaf_pairs_fill
    by (intro exI [of _ s6] exI [of _ ?l] exI [of _ ?r]) (simp add: fresh_node_def)
qed

lemma new_root_spec:
  assumes inv: "cm_inv (bt_cm t)" and room: "unat (bpt_npages t) < max_pages"
  shows "\<exists>s root. new_root t left key right = Inr \<lparr>bt_cm = s, bt_root = bpt_npages t\<rparr> \<and> cm_inv s \<and>
           cm_mem s = (bpt_mem t)(unat (bpt_npages t) := root) \<and> cm_npages s = bpt_npages t + 1 \<and>
           bn_type root = INTERNAL \<and> bn_num_keys root = 1 \<and> sep_list root = [key] \<and> child_list root = [left, right]"
proof -
  let ?np = "bpt_npages t" and ?q = "Some (page_addr (bpt_npages t))"
  let ?root = "(fresh_node INTERNAL)\<lparr>bn_keys := (bn_keys (fresh_node INTERNAL))(0 := key),
      bn_children := (bn_children (fresh_node INTERNAL))(0 := left, 1 := right), bn_num_keys := 1\<rparr>"
  obtain s1 where s1: "create_node (bt_cm t) INTERNAL = Inr (?np, s1)" "cm_inv s1"
    "cm_mem s1 = (bpt_mem t)(unat ?np := fresh_node INTERNAL)" "cm_npages s1 = ?np + 1"
    using create_node_spec [OF inv room, of INTERNAL] by auto
  have np: "?np < cm_npages s1" using s1(4) room by (simp add: page_less_unat)
  obtain s2 where s2: "cm_get_page s1 ?np = Inr (?q, s2)" "cm_deref s2 ?q = Inr (fresh_node INTERNAL)"
    "cm_inv s2" "cm_mem s2 = cm_mem s1" "cm_npages s2 = ?np + 1"
    using cm.fetch [OF s1(2) np room] s1(3,4) by auto
  obtain s3 s4 where s4: "cm_assign s2 ?q ?root = Inr s3" "cm_mark_dirty s3 ?np = Inr s4" "cm_inv s4"
    "cm_mem s4 = (cm_mem s2)(unat ?np := ?root)" "cm_npages s4 = ?np + 1"
    using cm.write_page [OF s2(3) room, of ?root] s2(5) by auto
  have "new_root t left key right = Inr \<lparr>bt_cm = s4, bt_root = ?np\<rparr>"
    using s1(1) s2(1,2) s4(1,2) by (simp add: new_root_def)
  then show ?thesis
    using s4(3-5) s2(4) s1(3)
    by (intro exI [of _ s4] exI [of _ ?root]) (simp add: fresh_node_def sep_list_def child_list_def)
qed

text \<open>An internal root is the parent of every leaf, so the search for the parent ends there.\<close>

lemma parent_loop_root:
  assumes inv: "cm_inv s" and ok: "mem_ok (cm_mem s) r (cm_npages s)"
    and int: "bn_type (cm_mem s (unat r)) = INTERNAL" and c: "c \<in> set (mem_leaves (cm_mem s) r)"
  shows "\<exists>s'. parent_loop (Suc f) s c key r = Inr (r, s') \<and>
           cm_inv s' \<and> cm_mem s' = cm_mem s \<and> cm_npages s' = cm_npages s"
proof -
  obtain s1 where s1: "cm_get_page s r = Inr (Some (page_addr r), s1)"
    "cm_deref s1 (Some (page_addr r)) = Inr (cm_mem s (unat r))"
    "cm_inv s1" "cm_mem s1 = cm_mem s" "cm_npages s1 = cm_npages s"
    using cm.fetch [OF inv mem_okD(2,3) [OF ok]] by blast
  have "\<exists>i \<in> set [0..<Suc (unat (bn_num_keys (cm_mem s (unat r))))]. bn_children (cm_mem s (unat r)) i = c"
    using c int by (auto simp: mem_leaves_def child_list_def simp del: upt_Suc)
  moreover have "r \<noteq> NO_PAGE" using mem_okD(3) [OF ok] by (auto simp: NO_PAGE_def max_pages_def)
  ultimately have "parent_loop (Suc f) s c key r = Inr (r, s1)"
    using s1(1,2) int by (simp del: upt_Suc)
  then show ?thesis using s1 by blast
qed

lemma insert_into_parent_internal:
  assumes inv: "cm_inv (bt_cm t)" and ok: "mem_ok (bpt_mem t) (bt_root t) (bpt_npages t)"
  defines "node \<equiv> bpt_mem t (unat (bt_root t))"
  assumes int: "bn_type node = INTERNAL" and c: "c \<in> set (mem_leaves (bpt_mem t) (bt_root t))"
  shows "\<exists>s. insert_into_parent t c key right = Inr \<lparr>bt_cm = s, bt_root = bt_root t\<rparr> \<and> cm_inv s \<and>
           cm_npages s = bpt_npages t \<and>
           cm_mem s = (if unat (bn_num_keys node) < BPT_ORDER
             then (bpt_mem t)(unat (bt_root t) := insert_sep node key right) else bpt_mem t)"
proof -
  let ?r = "bt_root t" and ?p = "Some (page_addr (bt_root t))"
  have ne: "c \<noteq> ?r" using ok int c by (auto simp: mem_ok_def node_def)
  have rn: "?r \<noteq> NO_PAGE" using mem_okD(3) [OF ok] by (auto simp: NO_PAGE_def max_pages_def)
  obtain s1 where s1: "parent_loop (descent_fuel (bt_cm t)) (bt_cm t) c key ?r = Inr (?r, s1)"
    "cm_inv s1" "cm_mem s1 = bpt_mem t" "cm_npages s1 = bpt_npages t"
    using parent_loop_root [OF inv ok int [unfolded node_def] c] unfolding descent_fuel_def by blast
  have "?r < cm_npages s1" using mem_okD(2) [OF ok] s1(4) by simp
  then obtain s2 where s2: "cm_get_page s1 ?r = Inr (?p, s2)" "cm_deref s2 ?p = Inr node" "cm_inv s2"
    "cm_mem s2 = bpt_mem t" "cm_npages s2 = bpt_npages t"
    using cm.fetch [OF s1(2) _ mem_okD(3) [OF ok]] s1(3,4) by (auto simp: node_def)
  show ?thesis
  proof (cases "unat (bn_num_keys node) < BPT_ORDER")
    case True
    obtain s3 s4 where s4: "cm_assign s2 ?p (insert_sep node key right) = Inr s3" "cm_mark_dirty s3 ?r = Inr s4"
      "cm_inv s4" "cm_mem s4 = (bpt_mem t)(unat ?r := insert_sep node key right)" "cm_npages s4 = bpt_npages t"
      using cm.write_page [OF s2(3) mem_okD(3) [OF ok], of "insert_sep node key right"] s2(4,5) by auto
    then show ?thesis
      using True s1(1) s2(1,2) ne rn by (intro exI [of _ s4]) (simp add: insert_into_parent_def)
  next
    case False
    then show ?thesis
      using s1(1) s2 ne rn by (intro exI [of _ s2]) (simp add: insert_into_parent_def)
  qed
qed

text \<open>Linking the right half at the abstract level.\<close>

lemma at_insert_full:
  fixes k v :: u64
  assumes "bpt_tree t = mem_tree M r"
    and "unat (bn_num_keys (M (unat (target M r k)))) = BPT_ORDER"
  defines "temp \<equiv> sort (leaf_pairs (M (unat (target M r k))) @ [(k, v)])"
  defines "rt \<equiv> drop (BPT_ORDER div 2) temp"
  defines "ls \<equiv> (snd (mem_tree M r))[ix (mem_seps M r) k := take (BPT_ORDER div 2) temp]"
  shows "at_insert BPT_ORDER (bpt_tree t) k v =
     (if length (mem_seps M r) < BPT_ORDER
      then (ins_at (ix (mem_seps M r) (fst (hd rt))) (fst (hd rt)) (mem_seps M r),
            ins_at (Suc (ix (mem_seps M r) (fst (hd rt)))) rt ls)
      else (mem_seps M r, ls))"
proof -
  have "length temp div 2 = BPT_ORDER div 2" using assms(2) by (simp add: temp_def BPT_ORDER_def)
  then show ?thesis
    using assms(1,2) mem_tree_target [of M r k]
    by (simp add: at_insert_def Let_def rt_def ls_def flip: temp_def)
qed

lemma mem_link:
  fixes key :: u64
  assumes ok: "mem_ok M r np" and int: "bn_type (M (unat r)) = INTERNAL"
    and room: "unat (bn_num_keys (M (unat r))) < BPT_ORDER" and srt: "sorted (mem_seps M r)"
    and new: "c < np" "c \<notin> set (mem_leaves M r)" "c \<noteq> r" "bn_type (M (unat c)) = LEAF"
  defines "M' \<equiv> M(unat r := insert_sep (M (unat r)) key c)" and "i \<equiv> ix (mem_seps M r) key"
  shows "mem_ok M' r np"
    "mem_tree M' r = (ins_at i key (mem_seps M r), ins_at (Suc i) (leaf_pairs (M (unat c))) (snd (mem_tree M r)))"
proof -
  have sl: "sorted (sep_list (M (unat r)))" using srt int by (simp add: mem_seps_def)
  note l = insert_sep_lists [OF room sl, of key c]
  have leaves: "mem_leaves M' r = ins_at (Suc i) c (mem_leaves M r)"
    and seps: "mem_seps M' r = ins_at i key (mem_seps M r)"
    using l int by (simp_all add: mem_leaves_def mem_seps_def M'_def i_def)
  have other: "M' (unat d) = M (unat d)" if "d \<in> set (mem_leaves M' r)" for d
  proof -
    have "d \<noteq> r" using that new(3) ok int by (auto simp: leaves mem_ok_def)
    then show ?thesis by (simp add: M'_def flip: word_unat_eq_iff)
  qed
  have nk: "unat (bn_num_keys (M' (unat r))) = Suc (unat (bn_num_keys (M (unat r))))"
    using num_keys_Suc [OF room] by (simp add: M'_def insert_sep_def shift_parent_eq)
  have "distinct (mem_leaves M' r)"
  proof -
    have "distinct (mem_leaves M r)" "mset (mem_leaves M' r) = mset (c # mem_leaves M r)"
      using mem_okD(4) [OF ok] by (simp_all add: leaves)
    then show ?thesis using new(2) by (metis distinct.simps(2) mset_eq_imp_distinct_iff)
  qed
  then show "mem_ok M' r np"
    using ok new other nk int leaves unfolding mem_ok_def by (auto simp: leaves)
  have "map (\<lambda>d. leaf_pairs (M' (unat d))) (mem_leaves M' r) = map (\<lambda>d. leaf_pairs (M (unat d))) (mem_leaves M' r)"
    by (rule map_cong) (simp_all add: other)
  then show "mem_tree M' r = (ins_at i key (mem_seps M r), ins_at (Suc i) (leaf_pairs (M (unat c))) (snd (mem_tree M r)))"
    unfolding mem_tree_def seps leaves by (simp add: map_ins_at)
qed

lemma mem_new_root:
  assumes ok: "mem_ok M r np" and leaf: "bn_type (M (unat r)) = LEAF" and room: "unat np < max_pages"
    and c: "c < np" "c \<noteq> r" "bn_type (M (unat c)) = LEAF"
    and root: "bn_type root = INTERNAL" "bn_num_keys root = 1" "sep_list root = [key]" "child_list root = [r, c]"
  defines "M' \<equiv> M(unat np := root)"
  shows "mem_ok M' np (np + 1)"
    "mem_tree M' np = ([key], [leaf_pairs (M (unat r)), leaf_pairs (M (unat c))])"
proof -
  have ne: "unat r \<noteq> unat np" "unat c \<noteq> unat np"
    using mem_okD(2) [OF ok] c(1) by (auto simp: page_less_unat)
  have leaves: "mem_leaves M' np = [r, c]" "mem_seps M' np = [key]"
    using root by (simp_all add: mem_leaves_def mem_seps_def M'_def)
  show "mem_tree M' np = ([key], [leaf_pairs (M (unat r)), leaf_pairs (M (unat c))])"
    using ne by (simp add: mem_tree_def leaves) (simp add: M'_def)
  show "mem_ok M' np (np + 1)"
    using ok leaf c ne root room unfolding mem_ok_def leaves
    by (auto simp: M'_def page_less_unat)
qed

text \<open>The two ways to link the new leaf \<open>np\<close>: under a new root, or under the root there is.\<close>

lemma link_new_root:
  assumes s: "cm_inv s" "cm_npages s = np + 1" "mem_ok (cm_mem s) r (np + 1)" and root: "bt_root t = r"
    and leaves: "bn_type (cm_mem s (unat r)) = LEAF" "bn_type (cm_mem s (unat np)) = LEAF"
    and ne: "unat np \<noteq> unat r" and room: "unat np + 2 \<le> max_pages"
  shows "\<exists>s'. insert_into_parent (t\<lparr>bt_cm := s\<rparr>) r sep np = Inr \<lparr>bt_cm = s', bt_root = np + 1\<rparr> \<and> cm_inv s' \<and>
    unat (cm_npages s') = Suc (Suc (unat np)) \<and> mem_ok (cm_mem s') (np + 1) (cm_npages s') \<and>
    mem_tree (cm_mem s') (np + 1) = ([sep], [leaf_pairs (cm_mem s (unat r)), leaf_pairs (cm_mem s (unat np))])"
proof -
  have Suc: "unat (np + 1) = Suc (unat np)" using room by simp
  obtain s' node where s': "insert_into_parent (t\<lparr>bt_cm := s\<rparr>) r sep np = Inr \<lparr>bt_cm = s', bt_root = np + 1\<rparr>"
    "cm_inv s'" "cm_mem s' = (cm_mem s)(unat (np + 1) := node)" "cm_npages s' = np + 1 + 1"
    and node: "bn_type node = INTERNAL" "bn_num_keys node = 1" "sep_list node = [sep]" "child_list node = [r, np]"
    using new_root_spec [of "t\<lparr>bt_cm := s\<rparr>" r sep np] s(1,2) room Suc root by (auto simp: insert_into_parent_def)
  have "mem_ok (cm_mem s') (np + 1) (cm_npages s')"
    "mem_tree (cm_mem s') (np + 1) = ([sep], [leaf_pairs (cm_mem s (unat r)), leaf_pairs (cm_mem s (unat np))])"
    using mem_new_root [OF s(3), of np node sep] node ne leaves room Suc s'(3,4) by (auto simp: page_less_unat)
  moreover have "unat (cm_npages s') = Suc (Suc (unat np))"
    using unat_next_page [of "np + 1"] Suc room by (simp add: s'(4) del: unat_next_page)
  ultimately show ?thesis using s'(1,2) by blast
qed

lemma split_leaf_inserted:
  fixes k v :: u64
  assumes inv: "bpt_inv t" and room: "unat (bpt_npages t) + 2 \<le> max_pages"
  defines "c \<equiv> target (bpt_mem t) (bt_root t) k"
  assumes full: "unat (bn_num_keys (bpt_mem t (unat c))) = BPT_ORDER"
  shows "inserted t k v (split_leaf t c (Some (page_addr c)) k v)"
proof -
  define M r np where "M = bpt_mem t" and "r = bt_root t" and "np = bpt_npages t"
  define temp where "temp = sort (leaf_pairs (M (unat c)) @ [(k, v)])"
  define rt sep where "rt = drop (BPT_ORDER div 2) temp" and "sep = fst (hd rt)"
  define ls where "ls = (snd (mem_tree M r))[ix (mem_seps M r) k := take (BPT_ORDER div 2) temp]"
  note defs = M_def r_def np_def
  note ok = bpt_invD(2) [OF inv, folded defs] and c = target_leaf [OF inv, of k, folded c_def, folded defs]
  have c_eq: "c = target M r k" by (simp add: c_def defs)
  have np: "unat np < max_pages" using room by (simp add: np_def)
  obtain s l rn where s: "split_leaf t c (Some (page_addr c)) k v = insert_into_parent (t\<lparr>bt_cm := s\<rparr>) c sep np"
    "cm_inv s" "cm_mem s = M(unat c := l, unat np := rn)" "cm_npages s = np + 1"
    and t: "bn_type l = LEAF" "bn_type rn = LEAF" "leaf_pairs l = take (BPT_ORDER div 2) temp" "leaf_pairs rn = rt"
    using split_leaf_halves [OF inv, of k v] np full
    unfolding temp_def sep_def rt_def c_def np_def M_def r_def by blast
  define M1 where "M1 = M(unat c := l)"
  have ok1: "mem_ok M1 r np" using mem_ok_upd_leaf [OF ok c(1) t(1)] by (simp add: M1_def)
  have tree1: "mem_tree M1 r = (mem_seps M r, ls)"
    using mem_tree_upd_target [OF ok t(1), of k] t(3) by (simp add: M1_def ls_def c_eq)
  have leaves1: "mem_leaves M1 r = mem_leaves M r" and seps1: "mem_seps M1 r = mem_seps M r"
    using mem_upd_leaf [OF ok c(1) t(1)] by (simp_all add: M1_def)
  have mem_s: "cm_mem s = M1(unat np := rn)" by (simp add: s(3) M1_def)
  note add = mem_add_page [OF ok1 np, of rn, folded mem_s]
  note at = at_insert_full [of t M r k v, folded c_eq, folded temp_def, folded rt_def, folded sep_def, folded ls_def]
  have at': "at_insert BPT_ORDER (bpt_tree t) k v = (if length (mem_seps M r) < BPT_ORDER
      then (ins_at (ix (mem_seps M r) sep) sep (mem_seps M r), ins_at (Suc (ix (mem_seps M r) sep)) rt ls)
      else (mem_seps M r, ls))"
    using at full by (simp add: bpt_tree_def defs)
  have Suc: "unat (np + 1) = Suc (unat np)" using np by simp
  have ne: "unat np \<noteq> unat r" "np \<noteq> r" "np \<notin> set (mem_leaves M r)"
    using mem_okD(2,5) [OF ok] by (auto simp: page_less_unat)
  have mem_np: "cm_mem s (unat np) = rn" by (simp add: mem_s)
  show ?thesis
  proof (cases "bn_type (M (unat r))")
    case LEAF
    then have rc: "c = r" using c(1) by (simp add: mem_leaves_def)
    have "bn_type (cm_mem s (unat r)) = LEAF" "bn_type (cm_mem s (unat np)) = LEAF"
      using t(1,2) ne rc by (simp_all add: s(3))
    then obtain s' where s': "insert_into_parent (t\<lparr>bt_cm := s\<rparr>) c sep np = Inr \<lparr>bt_cm = s', bt_root = np + 1\<rparr>" "cm_inv s'"
        "unat (cm_npages s') = Suc (Suc (unat np))" "mem_ok (cm_mem s') (np + 1) (cm_npages s')"
        "mem_tree (cm_mem s') (np + 1) = ([sep], [leaf_pairs (cm_mem s (unat r)), rt])"
      using link_new_root [OF s(2,4) add(1), of t sep] ne room mem_np t(4) rc by (auto simp: np_def r_def)
    have "at_insert BPT_ORDER (bpt_tree t) k v = ([sep], [leaf_pairs (cm_mem s (unat r)), rt])"
      unfolding at' using LEAF rc ne t(3)
      by (simp add: ls_def mem_seps_def mem_leaves_def ix_def ins_at_def BPT_ORDER_def s(3))
    then show ?thesis unfolding s(1) s'(1) using s'(2-5) by (intro insertedI) (simp_all add: np_def)
  next
    case INTERNAL
    then have "unat c \<noteq> unat r" using c(4) by auto
    then have node: "cm_mem s (unat r) = M (unat r)" using ne by (simp add: s(3))
    have len: "length (mem_seps M r) = unat (bn_num_keys (M (unat r)))" using INTERNAL by (simp add: mem_seps_def)
    obtain s' where s': "insert_into_parent (t\<lparr>bt_cm := s\<rparr>) c sep np = Inr \<lparr>bt_cm = s', bt_root = r\<rparr>"
      "cm_inv s'" "cm_npages s' = np + 1"
      "cm_mem s' = (if unat (bn_num_keys (M (unat r))) < BPT_ORDER
         then (cm_mem s)(unat r := insert_sep (M (unat r)) sep np) else cm_mem s)"
      using insert_into_parent_internal [of "t\<lparr>bt_cm := s\<rparr>" c sep np] s(2,4) add(1,3) INTERNAL c(1) node leaves1
      by (auto simp: r_def)
    have "sorted (mem_seps M r)" using at_invD(1) [OF bpt_invD(3) [OF inv]] by (simp add: defs)
    moreover have "mem_seps (cm_mem s) r = mem_seps M r" using INTERNAL node by (simp add: mem_seps_def)
    ultimately have link: "mem_ok ((cm_mem s)(unat r := insert_sep (M (unat r)) sep np)) r (np + 1)"
      "mem_tree ((cm_mem s)(unat r := insert_sep (M (unat r)) sep np)) r =
        (ins_at (ix (mem_seps M r) sep) sep (mem_seps M r), ins_at (Suc (ix (mem_seps M r) sep)) rt ls)"
      if "unat (bn_num_keys (M (unat r))) < BPT_ORDER"
      using mem_link [OF add(1), of np sep] that INTERNAL node ne add(2,3) leaves1 t(2,4) tree1 np mem_np
      by (simp_all add: page_less_unat)
    have "mem_tree (cm_mem s') r = at_insert BPT_ORDER (bpt_tree t) k v"
      unfolding at' s'(4) len using link(2) add(2) tree1 by simp
    moreover have "mem_ok (cm_mem s') r (cm_npages s')" using link(1) add(1) s'(3,4) by simp
    ultimately show ?thesis
      unfolding s(1) s'(1) using s'(2,3) Suc by (intro insertedI) (auto simp: np_def)
  qed
qed

theorem bpt_insert_refines:
  assumes inv: "bpt_inv t" and room: "unat (bpt_npages t) + 2 \<le> max_pages"
  shows "\<exists>t'. bpt_insert t k v = Inr t' \<and> bpt_inv t' \<and>
           bpt_tree t' = at_insert BPT_ORDER (bpt_tree t) k v \<and>
           unat (bpt_npages t') \<le> unat (bpt_npages t) + 2"
proof -
  let ?c = "target (bpt_mem t) (bt_root t) k"
  obtain f where f: "descent_fuel (bt_cm t) = Suc (Suc f)"
    using descent_fuel_two [OF bpt_invD(2) [OF inv]] by blast
  obtain s where s: "find_leaf_loop (descent_fuel (bt_cm t)) (bt_cm t) k (bt_root t) = Inr (?c, s)"
    "cm_inv s" "cm_mem s = bpt_mem t" "cm_npages s = bpt_npages t"
    using find_leaf_loop_target [OF bpt_invD(1,2) [OF inv], of f k] unfolding f by blast
  define t1 where "t1 = t\<lparr>bt_cm := s\<rparr>"
  have inv1: "bpt_inv t1" and same: "bpt_tree t1 = bpt_tree t" "bpt_npages t1 = bpt_npages t"
    "bpt_mem t1 = bpt_mem t" "bt_root t1 = bt_root t"
    using inv s(2-4) by (simp_all add: t1_def bpt_inv_def bpt_tree_def)
  note c = target_leaf [OF inv1, of k]
  have "inserted t1 k v (insert_into_leaf t1 ?c k v)"
  proof (cases "unat (bn_num_keys (bpt_mem t1 (unat ?c))) < BPT_ORDER")
    case True
    then show ?thesis using insert_into_leaf_room [OF inv1, of k v] same by simp
  next
    case False
    obtain s2 where s2: "cm_get_page (bt_cm t1) ?c = Inr (Some (page_addr ?c), s2)"
      "cm_deref s2 (Some (page_addr ?c)) = Inr (bpt_mem t1 (unat ?c))" "cm_inv s2" "cm_mem s2 = bpt_mem t1"
      "cm_npages s2 = bpt_npages t1"
      using cm.fetch [OF bpt_invD(1) [OF inv1]] c(2,3) same by metis
    define t2 where "t2 = t1\<lparr>bt_cm := s2\<rparr>"
    have inv2: "bpt_inv t2" and same2: "bpt_tree t2 = bpt_tree t1" "bpt_npages t2 = bpt_npages t1"
      "bpt_mem t2 = bpt_mem t1" "bt_root t2 = bt_root t1"
      using inv1 s2(3-5) by (simp_all add: t2_def bpt_inv_def bpt_tree_def)
    have "insert_into_leaf t1 ?c k v = split_leaf t2 ?c (Some (page_addr ?c)) k v"
      using s2(1,2) False by (simp add: insert_into_leaf_def t2_def)
    moreover have "inserted t2 k v (split_leaf t2 ?c (Some (page_addr ?c)) k v)"
      using split_leaf_inserted [OF inv2, of k v] room False c(6) same same2 by simp
    ultimately show ?thesis using same2 by (simp add: inserted_def)
  qed
  moreover have "bpt_insert t k v = insert_into_leaf t1 ?c k v"
    using s(1) by (simp add: bpt_insert_def find_leaf_def t1_def)
  moreover have "at_inv (BPT_ORDER div 2) (at_insert BPT_ORDER (bpt_tree t) k v)"
    using at_inv_insert [of "BPT_ORDER div 2" "bpt_tree t" k v] inv by (simp add: bpt_inv_def)
  ultimately show ?thesis using same by (auto simp: inserted_def bpt_inv_def)
qed

end
