(* ===== verification/IndexCapacity.thy ===== *)
theory IndexCapacity
  imports IndexSpec
begin

text \<open>
  How many entries the one-level tree holds before it starts to lose some. Every leaf of a
  tree that has split is at least half full, so with \<open>2 * h\<close> separators and a full target
  leaf there are at least \<open>2 * h * h + 2 * h\<close> entries; below that number no insertion drops
  a half. Ascending keys reach the bound exactly: the closed form \<open>asc_tree\<close> of the tree
  after \<open>n\<close> ascending insertions shows the first loss.
\<close>

section \<open>Leaves are at least half full\<close>

definition at_half :: "nat \<Rightarrow> ('k, 'v) atree \<Rightarrow> bool" where
  "at_half h a \<longleftrightarrow> fst a \<noteq> [] \<longrightarrow> (\<forall>l \<in> set (snd a). h \<le> length l)"

lemma at_half_empty: "at_half h at_empty"
  by (simp add: at_half_def at_empty_def)

lemma at_half_insert:
  fixes a :: "('k::linorder, 'v::linorder) atree"
  assumes inv: "at_inv h a" and h: "0 < h" and half: "at_half h a"
  shows "at_half h (at_insert (2 * h) a k v)"
proof -
  define ks ls j where "ks = fst a" and "ls = snd a" and "j = ix (fst a) k"
  define t where "t = sort (ls ! j @ [(k, v)])"
  note defs = ks_def ls_def j_def
  have j: "j < length ls" using ix_leaf(1) [OF inv, of k] by (simp add: defs)
  have single: "ls = [ls ! 0]" "j = 0" if "ks = []"
    using at_invD(2) [OF inv] j that by (auto simp: defs length_Suc_conv)
  have lj: "h \<le> length (ls ! j)" if "ks \<noteq> []" using half j that by (auto simp: at_half_def defs)
  from at_insert_cases [OF inv h, of k v, folded defs, folded t_def] show ?thesis
  proof (elim disjE conjE)
    assume "at_insert (2 * h) a k v = (ks, ls[j := at_leaf_insert k v (ls ! j)])"
    then show ?thesis
      using half lj set_update_subset_insert [of ls j] by (fastforce simp: at_half_def at_leaf_insert_def defs)
  next
    assume "length (ls ! j) = 2 * h" and eq: "at_insert (2 * h) a k v = (ks, ls[j := take h t])"
    then have "length (take h t) = h" by (simp add: t_def)
    then show ?thesis
      using half set_update_subset_insert [of ls j "take h t"] unfolding eq by (auto simp: at_half_def defs)
  next
    assume full: "length (ls ! j) = 2 * h"
      and eq: "at_insert (2 * h) a k v = (ins_at j (fst (t ! h)) ks, ins_at (Suc j) (drop h t) (ls[j := take h t]))"
    have lens: "length (take h t) = h" "length (drop h t) = Suc h" using full by (simp_all add: t_def)
    have "h \<le> length l" if l: "l \<in> set (ls[j := take h t])" for l
    proof (cases "ks = []")
      case True
      then show ?thesis using l lens single j by (metis list_update_code(2) empty_iff insert_iff le_refl list.set(1,2))
    next
      case False
      then show ?thesis
        using l lens half set_update_subset_insert [of ls j "take h t"] by (auto simp: at_half_def defs)
    qed
    then show ?thesis using lens unfolding eq by (auto simp: at_half_def)
  qed
qed

lemma sum_list_one_big:
  assumes "\<forall>l \<in> set ls. h \<le> length l" and "j < length ls" and "2 * h \<le> length (ls ! j)"
  shows "h * length ls + h \<le> length (concat ls)"
proof -
  have all: "h * length xs \<le> length (concat xs)" if "\<forall>l \<in> set xs. h \<le> length l" for xs
    using that by (induction xs) auto
  have ls: "ls = take j ls @ ls ! j # drop (Suc j) ls" using assms(2) by (rule id_take_nth_drop)
  have "h * length (take j ls) \<le> length (concat (take j ls))"
    "h * length (drop (Suc j) ls) \<le> length (concat (drop (Suc j) ls))"
    using assms(1) all [of "take j ls"] all [of "drop (Suc j) ls"] by (meson in_set_takeD in_set_dropD)+
  moreover have "length (concat ls) = length (concat (take j ls)) + length (ls ! j) + length (concat (drop (Suc j) ls))"
    by (subst ls) simp
  moreover have "h * length ls + h = h * length (take j ls) + h * length (drop (Suc j) ls) + 2 * h"
  proof -
    have "length ls = Suc (length (take j ls) + length (drop (Suc j) ls))" using assms(2) by simp
    then have "h * length ls = h * Suc (length (take j ls) + length (drop (Suc j) ls))" by (rule arg_cong)
    then show ?thesis by (simp only: mult_Suc_right add_mult_distrib2)
  qed
  ultimately show ?thesis using assms(3) by linarith
qed

text \<open>Below \<open>2 * h * (h + 1)\<close> entries no half is dropped.\<close>

lemma drops_only_large:
  fixes a :: "('k::linorder, 'v) atree"
  assumes inv: "at_inv h a" and h: "0 < h" and half: "at_half h a" and d: "at_drops (2 * h) a k"
  shows "2 * h * (h + 1) \<le> length (at_entries a)"
proof -
  have ks: "length (fst a) = 2 * h" "fst a \<noteq> []" using d at_invD(3) [OF inv] h by (auto simp: at_drops_def)
  have "h * length (snd a) + h \<le> length (at_entries a)"
    unfolding at_entries_def using half d ks ix_leaf(1) [OF inv, of k]
    by (intro sum_list_one_big [of _ _ "ix (fst a) k"]) (auto simp: at_half_def at_drops_def)
  then show ?thesis using at_invD(2) [OF inv] ks by (simp add: algebra_simps)
qed

section \<open>Ascending keys\<close>

definition asc_pairs :: "(nat \<Rightarrow> 'k) \<Rightarrow> (nat \<Rightarrow> 'v) \<Rightarrow> nat \<Rightarrow> nat \<Rightarrow> ('k \<times> 'v) list" where
  "asc_pairs e g i j = map (\<lambda>x. (e x, g x)) [i..<j]"

text \<open>\<open>m\<close> left halves of \<open>h\<close> entries, and the rest of the first \<open>n\<close> entries in the last leaf.\<close>

definition asc_tree :: "(nat \<Rightarrow> 'k) \<Rightarrow> (nat \<Rightarrow> 'v) \<Rightarrow> nat \<Rightarrow> nat \<Rightarrow> nat \<Rightarrow> ('k, 'v) atree" where
  "asc_tree e g h m n = (map (\<lambda>i. e (h * Suc i)) [0..<m],
     map (\<lambda>i. asc_pairs e g (h * i) (h * Suc i)) [0..<m] @ [asc_pairs e g (h * m) n])"

lemma length_asc_pairs [simp]: "length (asc_pairs e g i j) = j - i"
  by (simp add: asc_pairs_def)

lemma fst_asc_pairs: "map fst (asc_pairs e g i j) = map e [i..<j]"
  by (simp add: asc_pairs_def)

lemma asc_pairs_snoc: "i \<le> j \<Longrightarrow> asc_pairs e g i j @ [(e j, g j)] = asc_pairs e g i (Suc j)"
  by (simp add: asc_pairs_def)

lemma take_asc_pairs: "i + m \<le> j \<Longrightarrow> take m (asc_pairs e g i j) = asc_pairs e g i (i + m)"
  by (simp add: asc_pairs_def take_map)

lemma drop_asc_pairs: "drop m (asc_pairs e g i j) = asc_pairs e g (i + m) j"
  by (simp add: asc_pairs_def drop_map)

lemma ix_all: "\<forall>x \<in> set ks. x \<le> k \<Longrightarrow> ix ks k = length ks"
  by (simp add: ix_def takeWhile_eq_all_conv [THEN iffD2])

lemma sort_asc_pairs:
  fixes e :: "nat \<Rightarrow> 'k::linorder" and g :: "nat \<Rightarrow> 'v::linorder"
  assumes "strict_mono_on {..<N} e" and "j \<le> N"
  shows "sort (asc_pairs e g i j) = asc_pairs e g i j"
proof -
  have "sorted_wrt (\<lambda>x y. (e x, g x) \<le> (e y, g y)) [i..<j]"
    using assms by (auto simp: sorted_wrt_iff_nth_less less_eq_prod_def intro!: strict_mono_onD [OF assms(1)])
  then show ?thesis
    by (intro sort_key_id_if_sorted) (simp add: asc_pairs_def sorted_map)
qed

lemma asc_insert:
  fixes e :: "nat \<Rightarrow> 'k::linorder" and g :: "nat \<Rightarrow> 'v::linorder"
  assumes e: "strict_mono_on {..<N} e" and n: "n < N" and lo: "h * m \<le> n" and hi: "n \<le> h * m + 2 * h" and h: "0 < h"
  shows "n < h * m + 2 * h \<Longrightarrow> at_insert (2 * h) (asc_tree e g h m n) (e n) (g n) = asc_tree e g h m (Suc n)"
    and "n = h * m + 2 * h \<Longrightarrow> m < 2 * h \<Longrightarrow>
      at_insert (2 * h) (asc_tree e g h m n) (e n) (g n) = asc_tree e g h (Suc m) (Suc n)"
    and "n = h * m + 2 * h \<Longrightarrow> m = 2 * h \<Longrightarrow>
      at_insert (2 * h) (asc_tree e g h m n) (e n) (g n) = asc_tree e g h m (h * Suc m)"
proof -
  define ks where "ks = map (\<lambda>i. e (h * Suc i)) [0..<m]"
  define bs where "bs = map (\<lambda>i. asc_pairs e g (h * i) (h * Suc i)) [0..<m]"
  define b where "b = h * Suc m"
  have tree: "asc_tree e g h m x = (ks, bs @ [asc_pairs e g (h * m) x])" for x
    by (simp add: asc_tree_def ks_def bs_def)
  have lens [simp]: "length ks = m" "length bs = m" by (simp_all add: ks_def bs_def)
  have le: "e x \<le> e y" if "x \<le> y" "y < N" for x y
    using that e strict_mono_onD [OF e, of x y] by (cases "x = y") auto
  have mul: "h * Suc i \<le> h * m" if "i < m" for i using that by (intro mult_le_mono) simp_all
  have ixk: "ix ks (e y) = m" if "h * m \<le> y" "y < N" for y
  proof -
    have "e (h * Suc i) \<le> e y" if "i < m" for i
      by (rule le) (use mul [OF that] \<open>h * m \<le> y\<close> \<open>y < N\<close> in linarith)+
    then have "\<forall>x \<in> set ks. x \<le> e y" by (auto simp: ks_def)
    then show ?thesis using ix_all [of ks "e y"] by simp
  qed
  have ixn: "ix (map fst (asc_pairs e g (h * m) n)) (e n) = length (asc_pairs e g (h * m) n)"
    using le n by (subst ix_all) (auto simp: fst_asc_pairs)
  show "at_insert (2 * h) (asc_tree e g h m n) (e n) (g n) = asc_tree e g h m (Suc n)" if "n < h * m + 2 * h"
    using that ixk [OF lo n] ixn lo
    by (simp add: at_insert_def tree Let_def at_leaf_insert_def ins_at_def asc_pairs_snoc less_diff_conv2
        nth_append list_update_append)
  let ?t = "asc_pairs e g (h * m) (Suc n)"
  have t: "sort (asc_pairs e g (h * m) n @ [(e n, g n)]) = ?t"
    using sort_asc_pairs [OF e, of "Suc n" g "h * m"] n lo by (simp add: asc_pairs_snoc)
  have len: "\<not> length (asc_pairs e g (h * m) n) < 2 * h" "(Suc n - h * m) div 2 = h" if "n = h * m + 2 * h"
    using that by simp_all
  have split: "take h ?t = asc_pairs e g (h * m) b" "drop h ?t = asc_pairs e g b (Suc n)"
    "fst (hd (asc_pairs e g b (Suc n))) = e b" "ix ks (e b) = m" if eq: "n = h * m + 2 * h"
  proof -
    show "take h ?t = asc_pairs e g (h * m) b" "drop h ?t = asc_pairs e g b (Suc n)"
      using eq by (simp_all add: b_def take_asc_pairs drop_asc_pairs add.commute)
    show "ix ks (e b) = m" using eq n by (intro ixk) (simp_all add: b_def)
    have "b < Suc n" using eq by (simp add: b_def)
    then show "fst (hd (asc_pairs e g b (Suc n))) = e b" by (simp add: asc_pairs_def upt_conv_Cons del: upt_Suc)
  qed
  show "at_insert (2 * h) (asc_tree e g h m n) (e n) (g n) = asc_tree e g h (Suc m) (Suc n)"
    if eq: "n = h * m + 2 * h" and m: "m < 2 * h"
  proof -
    have "at_insert (2 * h) (asc_tree e g h m n) (e n) (g n) =
        (ins_at m (e b) ks, ins_at (Suc m) (asc_pairs e g b (Suc n)) (bs @ [asc_pairs e g (h * m) b]))"
      using m ixk [OF lo n] len [OF eq] t split [OF eq]
      by (simp add: at_insert_def tree Let_def nth_append list_update_append)
    moreover have "asc_tree e g h (Suc m) (Suc n) = (ks @ [e b], bs @ [asc_pairs e g (h * m) b, asc_pairs e g b (Suc n)])"
      by (simp add: asc_tree_def ks_def bs_def b_def)
    ultimately show ?thesis by (simp add: ins_at_def)
  qed
  show "at_insert (2 * h) (asc_tree e g h m n) (e n) (g n) = asc_tree e g h m (h * Suc m)"
    if eq: "n = h * m + 2 * h" and m: "m = 2 * h"
  proof -
    have "\<not> m < 2 * h" using m by simp
    then show ?thesis
      using ixk [OF lo n] len [OF eq] t split [OF eq] unfolding b_def [symmetric]
      by (simp add: at_insert_def tree Let_def nth_append list_update_append)
  qed
qed

text \<open>The tree after \<open>n\<close> ascending insertions, up to the capacity and one beyond it.\<close>

primrec asc_run :: "(nat \<Rightarrow> 'k::linorder) \<Rightarrow> (nat \<Rightarrow> 'v::linorder) \<Rightarrow> nat \<Rightarrow> nat \<Rightarrow> ('k, 'v) atree" where
  "asc_run e g h 0 = at_empty"
| "asc_run e g h (Suc n) = at_insert (2 * h) (asc_run e g h n) (e n) (g n)"

lemma asc_run_tree:
  assumes "strict_mono_on {..<N} e" and h: "0 < h" and "n \<le> N" and "n \<le> 2 * h * (h + 1)"
  shows "\<exists>m \<le> 2 * h. h * m \<le> n \<and> n \<le> h * m + 2 * h \<and> asc_run e g h n = asc_tree e g h m n"
  using assms(3,4)
proof (induction n)
  case 0
  then show ?case by (intro exI [of _ 0]) (simp add: asc_tree_def at_empty_def asc_pairs_def)
next
  case (Suc n)
  then obtain m where m: "m \<le> 2 * h" "h * m \<le> n" "n \<le> h * m + 2 * h" "asc_run e g h n = asc_tree e g h m n"
    by auto
  note step = asc_insert [OF assms(1) _ m(2,3) h, of g]
  show ?case
  proof (cases "n < h * m + 2 * h")
    case True
    then show ?thesis using m step(1) Suc.prems by (intro exI [of _ m]) simp
  next
    case False
    then have eq: "n = h * m + 2 * h" using m(3) by simp
    have "m \<noteq> 2 * h" using eq Suc.prems(2) by (auto simp: algebra_simps)
    then have "m < 2 * h" using m(1) by simp
    then show ?thesis using eq m step(2) Suc.prems(1) by (intro exI [of _ "Suc m"]) simp
  qed
qed

theorem asc_run_loses:
  assumes e: "strict_mono_on {..<N} e" and h: "0 < h" and N: "2 * h * (h + 1) < N"
    and i: "2 * h * h + h \<le> i" "i < N"
  shows "at_search (asc_run e g h (Suc (2 * h * (h + 1)))) (e i) = None"
proof -
  let ?n = "2 * h * (h + 1)"
  obtain m where m: "m \<le> 2 * h" "h * m \<le> ?n" "?n \<le> h * m + 2 * h" "asc_run e g h ?n = asc_tree e g h m ?n"
    using asc_run_tree [OF e h less_imp_le [OF N] le_refl, of g] by blast
  have "h * (2 * h) \<le> h * m" using m(3) by (simp add: algebra_simps)
  then have m2: "m = 2 * h" using m(1) h by simp
  then have n: "?n = h * m + 2 * h" by (simp add: algebra_simps)
  have run: "asc_run e g h (Suc ?n) = asc_tree e g h m (h * Suc m)"
    using asc_insert(3) [OF e N m(2,3) h n m2, of g] m(4) by simp
  let ?ks = "map (\<lambda>i. e (h * Suc i)) [0..<m]"
  have le: "e x < e i" if "x < h * Suc m" for x
    using that i m2 by (intro strict_mono_onD [OF e]) (auto simp: algebra_simps)
  have "e (h * Suc x) < e i" if "x < m" for x
    using that h by (intro le) simp
  then have ixm: "ix ?ks (e i) = m"
    using ix_all [of ?ks "e i"] by (fastforce intro: less_imp_le)
  have "e i \<notin> fst ` set (asc_pairs e g (h * m) (h * Suc m))"
    using le by (force simp: asc_pairs_def)
  then show ?thesis
    unfolding run by (simp only: at_search_def asc_tree_def fst_conv snd_conv ixm)
      (simp add: nth_append map_of_eq_None_iff)
qed

end
