(* ===== verification/IndexModel.thy ===== *)
theory IndexModel
  imports BPTreeProofs IndexCapacity
begin

text \<open>
  The index as its clients see it: \<open>IndexManager\<close> (\<open>index_manager.cpp\<close>), the contract of a
  key index as a locale, its interpretation on \<open>BPTree\<close>, and the properties of the
  primary-key index over whole histories of insertions.
\<close>

section \<open>The index manager\<close>

type_synonym index_manager = "string \<rightharpoonup> bptree"

text \<open>\<open>create_index\<close> builds a tree on the file and replaces what the name had before.\<close>

definition im_create_index :: "index_manager \<Rightarrow> string \<Rightarrow> bptnode pager res \<Rightarrow> index_manager res" where
  "im_create_index m name file =
     rbind file (\<lambda>pg. rbind (bpt_open pg) (\<lambda>t. Inr (m(name \<mapsto> t))))"

definition im_get_index :: "index_manager \<Rightarrow> string \<Rightarrow> bptree option" where
  "im_get_index m name = m name"

section \<open>A new and a cleared tree\<close>

definition idx_inv :: "bptree \<Rightarrow> bool" where
  "idx_inv t \<longleftrightarrow> bpt_inv t \<and> at_half (BPT_ORDER div 2) (bpt_tree t)"

definition idx_entries :: "bptree \<Rightarrow> (u64 \<times> u64) list" where
  "idx_entries t = at_entries (bpt_tree t)"

lemma single_leaf:
  assumes "cm_inv s" and "cm_npages s = 0"
  shows "\<exists>s'. create_node s LEAF = Inr (0, s') \<and> idx_inv \<lparr>bt_cm = s', bt_root = 0\<rparr> \<and>
           bpt_tree \<lparr>bt_cm = s', bt_root = 0\<rparr> = at_empty \<and> cm_npages s' = 1"
proof -
  obtain s' where s': "create_node s LEAF = Inr (0, s')" "cm_inv s'"
    "cm_mem s' = (cm_mem s)(0 := fresh_node LEAF)" "cm_npages s' = 1"
    using create_node_spec [OF assms(1), of LEAF] assms(2) by (auto simp: max_pages_def)
  have leaf: "mem_leaves (cm_mem s') 0 = [0]" "mem_seps (cm_mem s') 0 = []" "bn_type (cm_mem s' 0) = LEAF"
    "leaf_pairs (cm_mem s' 0) = []"
    by (simp_all add: mem_leaves_def mem_seps_def s'(3) fresh_node_def leaf_pairs_def)
  then have tree: "bpt_tree \<lparr>bt_cm = s', bt_root = 0\<rparr> = at_empty"
    by (simp add: bpt_tree_def mem_tree_def at_empty_def)
  moreover have "mem_ok (cm_mem s') 0 (cm_npages s')"
    using leaf s'(4) by (simp add: mem_ok_def max_pages_def page_less_unat)
  ultimately show ?thesis
    using s' at_inv_empty at_half_empty by (auto simp: idx_inv_def bpt_inv_def)
qed

lemma bpt_open_spec:
  assumes "pg_num_pages pg = 0"
  shows "\<exists>t. bpt_open pg = Inr t \<and> idx_inv t \<and> bpt_tree t = at_empty \<and> bpt_npages t = 1"
proof -
  have "cm_inv (cm_new pg 256)" "cm_npages (cm_new pg 256) = 0"
    using assms by (simp_all add: cm_inv_new) (simp add: cm_new_def)
  then show ?thesis
    using single_leaf assms by (fastforce simp: bpt_open_def pager_get_num_pages_def)
qed

lemma bpt_clear_spec:
  assumes "cm_inv (bt_cm t)"
  shows "\<exists>t'. bpt_clear t = Inr t' \<and> idx_inv t' \<and> bpt_tree t' = at_empty \<and> bpt_npages t' = 1"
proof -
  let ?s = "(cm_clear (bt_cm t))\<lparr>cm_pager := pager_clear (cm_pager (cm_clear (bt_cm t)))\<rparr>"
  have "cm_inv ?s" "cm_npages ?s = 0" using cm_clear_inv [OF assms] by (simp_all add: pager_clear_def)
  then show ?thesis using single_leaf [of ?s] by (auto simp: bpt_clear_def Let_def)
qed

section \<open>The contract of a key index\<close>

text \<open>
  \<open>entries\<close> is the content. An insertion adds the pair while there are fewer than \<open>cap\<close>
  entries, and never brings in any other pair; a search returns a value of the key, or that
  there is none. Two pages are enough for an insertion.
\<close>

locale key_index =
  fixes insert :: "'s \<Rightarrow> u64 \<Rightarrow> u64 \<Rightarrow> 's res"
    and search :: "'s \<Rightarrow> u64 \<Rightarrow> (u64 option \<times> 's) res"
    and inv :: "'s \<Rightarrow> bool"
    and entries :: "'s \<Rightarrow> (u64 \<times> u64) list"
    and pages :: "'s \<Rightarrow> nat"
    and cap :: nat
  assumes insert_law: "inv s \<Longrightarrow> pages s + 2 \<le> max_pages \<Longrightarrow> \<exists>s'. insert s k v = Inr s' \<and> inv s' \<and>
        pages s' \<le> pages s + 2 \<and> set (entries s') \<subseteq> Set.insert (k, v) (set (entries s)) \<and>
        (length (entries s) < cap \<longrightarrow> mset (entries s') = add_mset (k, v) (mset (entries s)))"
    and search_law: "inv s \<Longrightarrow> \<exists>r s'. search s k = Inr (r, s') \<and> inv s' \<and> entries s' = entries s \<and>
        pages s' = pages s \<and>
        (case r of None \<Rightarrow> k \<notin> fst ` set (entries s) | Some v \<Rightarrow> (k, v) \<in> set (entries s))"
begin

lemma run_sound:
  assumes "inv s" and "pages s + 2 * length ps \<le> max_pages"
  shows "\<exists>s'. rfold (\<lambda>(k, v) s. insert s k v) ps s = Inr s' \<and> inv s' \<and>
           pages s' \<le> pages s + 2 * length ps \<and> set (entries s') \<subseteq> set (entries s) \<union> set ps"
proof -
  have "\<exists>s'. rfold (\<lambda>(k, v) s. insert s k v) ps s = Inr s' \<and>
      (inv s' \<and> pages s' \<le> pages s + 2 * length ps \<and> set (entries s') \<subseteq> set (entries s) \<union> set ps)"
  proof (rule rfold_invariant)
    fix ys x zs t
    assume ps: "ps = ys @ x # zs"
      and t: "inv t \<and> pages t \<le> pages s + 2 * length ys \<and> set (entries t) \<subseteq> set (entries s) \<union> set ys"
    have "pages t + 2 \<le> max_pages" using t ps assms(2) by simp
    then obtain t' where "insert t (fst x) (snd x) = Inr t'" "inv t'" "pages t' \<le> pages t + 2"
      "set (entries t') \<subseteq> Set.insert (fst x, snd x) (set (entries t))"
      using t insert_law [of t "fst x" "snd x"] by blast
    then show "\<exists>t'. (case x of (k, v) \<Rightarrow> \<lambda>s. insert s k v) t = Inr t' \<and>
        inv t' \<and> pages t' \<le> pages s + 2 * length (ys @ [x]) \<and>
        set (entries t') \<subseteq> set (entries s) \<union> set (ys @ [x])"
      using t by (intro exI [of _ t']) (auto simp: split_beta)
  qed (use assms in simp)
  then show ?thesis by blast
qed

lemma run_exact:
  assumes "inv s" and "entries s = []" and "pages s + 2 * length ps \<le> max_pages" and "length ps \<le> cap"
  shows "\<exists>s'. rfold (\<lambda>(k, v) s. insert s k v) ps s = Inr s' \<and> inv s' \<and> mset (entries s') = mset ps"
proof -
  have "\<exists>s'. rfold (\<lambda>(k, v) s. insert s k v) ps s = Inr s' \<and>
      (inv s' \<and> pages s' \<le> pages s + 2 * length ps \<and> mset (entries s') = mset ps)"
  proof (rule rfold_invariant)
    fix ys x zs t
    assume ps: "ps = ys @ x # zs"
      and t: "inv t \<and> pages t \<le> pages s + 2 * length ys \<and> mset (entries t) = mset ys"
    have "length (entries t) = length ys" using t by (metis size_mset)
    then have "pages t + 2 \<le> max_pages" "length (entries t) < cap" using t ps assms(3,4) by simp_all
    then obtain t' where "insert t (fst x) (snd x) = Inr t'" "inv t'" "pages t' \<le> pages t + 2"
      "mset (entries t') = add_mset (fst x, snd x) (mset (entries t))"
      using t insert_law [of t "fst x" "snd x"] by blast
    then show "\<exists>t'. (case x of (k, v) \<Rightarrow> \<lambda>s. insert s k v) t = Inr t' \<and>
        inv t' \<and> pages t' \<le> pages s + 2 * length (ys @ [x]) \<and> mset (entries t') = mset (ys @ [x])"
      using t by (intro exI [of _ t']) (auto simp: split_beta)
  qed (use assms in simp)
  then show ?thesis by blast
qed

lemma search_distinct:
  assumes "inv s" and "mset (entries s) = mset ps" and "distinct (map fst ps)"
  shows "\<exists>s'. search s k = Inr (map_of ps k, s')"
proof -
  have set: "set (entries s) = set ps" using assms(2) by (metis set_mset_mset)
  obtain r s' where r: "search s k = Inr (r, s')"
    "case r of None \<Rightarrow> k \<notin> fst ` set ps | Some v \<Rightarrow> (k, v) \<in> set ps"
    using search_law [OF assms(1), of k] unfolding set by blast
  then have "r = map_of ps k"
    using assms(3) by (cases r) (auto simp: map_of_eq_None_iff intro!: sym [of "map_of ps k" None])
  then show ?thesis using r(1) by blast
qed

end

lemma idx_search_law:
  assumes "idx_inv t"
  shows "\<exists>r t'. bpt_search t k = Inr (r, t') \<and> idx_inv t' \<and> idx_entries t' = idx_entries t \<and>
    unat (bpt_npages t') = unat (bpt_npages t) \<and>
    (case r of None \<Rightarrow> k \<notin> fst ` set (idx_entries t) | Some v \<Rightarrow> (k, v) \<in> set (idx_entries t))"
proof -
  have inv: "bpt_inv t" "at_inv (BPT_ORDER div 2) (bpt_tree t)" using assms by (simp_all add: idx_inv_def bpt_inv_def)
  obtain t' where "bpt_search t k = Inr (at_search (bpt_tree t) k, t')" "bpt_inv t'" "bpt_tree t' = bpt_tree t"
    "bpt_npages t' = bpt_npages t"
    using bpt_search_refines [OF inv(1)] by blast
  moreover have "case at_search (bpt_tree t) k of None \<Rightarrow> k \<notin> fst ` set (idx_entries t)
      | Some v \<Rightarrow> (k, v) \<in> set (idx_entries t)"
    using at_search_sound [OF inv(2)] at_search_complete [OF inv(2)]
    by (fastforce simp: idx_entries_def split: option.splits)
  ultimately show ?thesis using assms by (auto simp: idx_inv_def idx_entries_def)
qed

lemma idx_insert_law:
  assumes "idx_inv t" and "unat (bpt_npages t) + 2 \<le> max_pages"
  shows "\<exists>t'. bpt_insert t k v = Inr t' \<and> idx_inv t' \<and> unat (bpt_npages t') \<le> unat (bpt_npages t) + 2 \<and>
     set (idx_entries t') \<subseteq> insert (k, v) (set (idx_entries t)) \<and>
     (length (idx_entries t) < 31500 \<longrightarrow> mset (idx_entries t') = add_mset (k, v) (mset (idx_entries t)))"
proof -
  let ?h = "BPT_ORDER div 2"
  have inv: "bpt_inv t" "at_inv ?h (bpt_tree t)" "at_half ?h (bpt_tree t)"
    using assms by (simp_all add: idx_inv_def bpt_inv_def)
  obtain t' where t': "bpt_insert t k v = Inr t'" "bpt_inv t'" "bpt_tree t' = at_insert BPT_ORDER (bpt_tree t) k v"
    "unat (bpt_npages t') \<le> unat (bpt_npages t) + 2"
    using bpt_insert_refines [OF inv(1) assms(2)] by blast
  have "at_half ?h (bpt_tree t')" using at_half_insert [OF inv(2) _ inv(3), of k v] t'(3) by simp
  moreover have "set (idx_entries t') \<subseteq> insert (k, v) (set (idx_entries t))"
    using at_insert_sound [OF inv(2), of k v] t'(3) by (simp add: idx_entries_def)
  moreover have "mset (idx_entries t') = add_mset (k, v) (mset (idx_entries t))" if "length (idx_entries t) < 31500"
  proof -
    have "2 * ?h * (?h + 1) = 31500" by (simp add: BPT_ORDER_def)
    then have "\<not> at_drops BPT_ORDER (bpt_tree t) k"
      using drops_only_large [OF inv(2) _ inv(3), of k] that by (auto simp: idx_entries_def)
    then show ?thesis using at_insert_entries [OF inv(2), of k v] t'(3) by (simp add: idx_entries_def)
  qed
  ultimately show ?thesis using t' by (auto simp: idx_inv_def)
qed

interpretation bpt: key_index bpt_insert bpt_search idx_inv idx_entries "\<lambda>t. unat (bpt_npages t)" 31500
  by unfold_locales (use idx_insert_law idx_search_law in blast)+

section \<open>Ascending insertions\<close>

lemma inserts_asc_run:
  assumes "idx_inv t" and "bpt_tree t = at_empty" and "unat (bpt_npages t) + 2 * n \<le> max_pages"
  shows "\<exists>t'. rfold (\<lambda>(k, v) t. bpt_insert t k v) (map (\<lambda>i. (e i, g i)) [0..<n]) t = Inr t' \<and>
           bpt_inv t' \<and> bpt_tree t' = asc_run e g (BPT_ORDER div 2) n \<and>
           unat (bpt_npages t') \<le> unat (bpt_npages t) + 2 * n"
  using assms(3)
proof (induction n)
  case 0
  then show ?case using assms by (simp add: idx_inv_def)
next
  case (Suc n)
  then obtain t1 where t1: "rfold (\<lambda>(k, v) t. bpt_insert t k v) (map (\<lambda>i. (e i, g i)) [0..<n]) t = Inr t1"
    "bpt_inv t1" "bpt_tree t1 = asc_run e g (BPT_ORDER div 2) n" "unat (bpt_npages t1) \<le> unat (bpt_npages t) + 2 * n"
    by auto
  have "unat (bpt_npages t1) + 2 \<le> max_pages" using t1(4) Suc.prems by simp
  then obtain t2 where "bpt_insert t1 (e n) (g n) = Inr t2" "bpt_inv t2"
    "bpt_tree t2 = at_insert BPT_ORDER (bpt_tree t1) (e n) (g n)" "unat (bpt_npages t2) \<le> unat (bpt_npages t1) + 2"
    using bpt_insert_refines [OF t1(2)] by blast
  then show ?case using t1 by (simp add: rfold_append)
qed

lemma of_nat_mono_u64: "strict_mono_on {..<2 ^ 64} (of_nat :: nat \<Rightarrow> u64)"
  by (auto simp: strict_mono_on_def word_less_nat_alt unat_of_nat)

section \<open>Properties of the primary-key index\<close>

text \<open>
  C5. The index is exact up to 31500 entries. On a new index file, any sequence of at most
  31500 calls of \<open>BPTree::insert\<close> returns, and every later \<open>search\<close> returns: it reports no
  entry only for a key that was never inserted, and otherwise a row id inserted with that
  key; when the keys are distinct it is the lookup in the inserted pairs.
\<close>

theorem index_exact:
  assumes "pg_num_pages pg = 0" and "length ps \<le> 31500"
  shows "\<exists>t t'. bpt_open pg = Inr t \<and> rfold (\<lambda>(k, v) t. bpt_insert t k v) ps t = Inr t' \<and>
    (\<forall>k. \<exists>r t''. bpt_search t' k = Inr (r, t'') \<and>
       (case r of None \<Rightarrow> k \<notin> fst ` set ps | Some v \<Rightarrow> (k, v) \<in> set ps) \<and>
       (distinct (map fst ps) \<longrightarrow> r = map_of ps k))"
proof -
  obtain t where t: "bpt_open pg = Inr t" "idx_inv t" "bpt_tree t = at_empty" "bpt_npages t = 1"
    using bpt_open_spec [OF assms(1)] by blast
  have empty: "idx_entries t = []" using t(3) by (simp add: idx_entries_def at_entries_def at_empty_def)
  obtain t' where t': "rfold (\<lambda>(k, v) t. bpt_insert t k v) ps t = Inr t'" "idx_inv t'"
    "mset (idx_entries t') = mset ps"
    using bpt.run_exact [OF t(2) empty, of ps] t(4) assms(2) by (auto simp: max_pages_def)
  have set: "set (idx_entries t') = set ps" using t'(3) by (metis set_mset_mset)
  have "\<exists>r t''. bpt_search t' k = Inr (r, t'') \<and>
      (case r of None \<Rightarrow> k \<notin> fst ` set ps | Some v \<Rightarrow> (k, v) \<in> set ps) \<and>
      (distinct (map fst ps) \<longrightarrow> r = map_of ps k)" for k
    using bpt.search_law [OF t'(2), of k] bpt.search_distinct [OF t'(2,3), of k] unfolding set by fastforce
  then show ?thesis using t(1) t'(1) by blast
qed

theorem index_exact_witness:
  "\<exists>t t' t''. bpt_open \<lparr>pg_mem = (\<lambda>_. fresh_node LEAF), pg_disk = (\<lambda>_. fresh_node LEAF), pg_num_pages = 0\<rparr> = Inr t \<and>
     rfold (\<lambda>(k, v) t. bpt_insert t k v) [(7, 0), (3, 1)] t = Inr t' \<and> bpt_search t' 3 = Inr (Some 1, t'')"
proof -
  let ?pg = "\<lparr>pg_mem = (\<lambda>_. fresh_node LEAF), pg_disk = (\<lambda>_. fresh_node LEAF), pg_num_pages = 0\<rparr>"
  obtain t t' where t: "bpt_open ?pg = Inr t" "rfold (\<lambda>(k, v) t. bpt_insert t k v) [(7, 0), (3, 1)] t = Inr t'"
    and s: "\<forall>k. \<exists>r t''. bpt_search t' k = Inr (r, t'') \<and>
       (case r of None \<Rightarrow> k \<notin> fst ` set [(7 :: u64, 0), (3, 1)] | Some v \<Rightarrow> (k, v) \<in> set [(7 :: u64, 0), (3, 1)]) \<and>
       (distinct (map fst [(7 :: u64, 0 :: u64), (3, 1)]) \<longrightarrow> r = map_of [(7, 0), (3, 1)] k)"
    using index_exact [of ?pg "[(7, 0), (3, 1)]"] by auto
  have "map_of [(7 :: u64, 0 :: u64), (3, 1)] 3 = Some 1" "distinct (map fst [(7 :: u64, 0 :: u64), (3, 1)])" by simp_all
  then show ?thesis using t spec [OF s, of 3] by metis
qed

text \<open>
  C14. The index is sound and total on long histories. Any sequence of up to 131071
  insertions on a new file returns without a fault, whatever the keys, and every search
  afterwards returns, with a pair that was inserted if it reports one.
\<close>

theorem index_sound:
  assumes "pg_num_pages pg = 0" and "length ps \<le> 131071"
  shows "\<exists>t t'. bpt_open pg = Inr t \<and> rfold (\<lambda>(k, v) t. bpt_insert t k v) ps t = Inr t' \<and>
    (\<forall>k. \<exists>r t''. bpt_search t' k = Inr (r, t'') \<and> (\<forall>v. r = Some v \<longrightarrow> (k, v) \<in> set ps))"
proof -
  obtain t where t: "bpt_open pg = Inr t" "idx_inv t" "bpt_tree t = at_empty" "bpt_npages t = 1"
    using bpt_open_spec [OF assms(1)] by blast
  have empty: "idx_entries t = []" using t(3) by (simp add: idx_entries_def at_entries_def at_empty_def)
  obtain t' where t': "rfold (\<lambda>(k, v) t. bpt_insert t k v) ps t = Inr t'" "idx_inv t'"
    "set (idx_entries t') \<subseteq> set ps"
    using bpt.run_sound [OF t(2), of ps] t(4) assms(2) empty by (auto simp: max_pages_def)
  have "\<exists>r t''. bpt_search t' k = Inr (r, t'') \<and> (\<forall>v. r = Some v \<longrightarrow> (k, v) \<in> set ps)" for k
    using bpt.search_law [OF t'(2), of k] t'(3) by (fastforce split: option.splits)
  then show ?thesis using t(1) t'(1) by blast
qed

theorem index_sound_witness:
  "\<exists>t t' t''. bpt_open \<lparr>pg_mem = (\<lambda>_. fresh_node LEAF), pg_disk = (\<lambda>_. fresh_node LEAF), pg_num_pages = 0\<rparr> = Inr t \<and>
     rfold (\<lambda>(k, v) t. bpt_insert t k v) (replicate 1000 (5, 6)) t = Inr t' \<and> bpt_search t' 4 = Inr (None, t'')"
proof -
  let ?pg = "\<lparr>pg_mem = (\<lambda>_. fresh_node LEAF), pg_disk = (\<lambda>_. fresh_node LEAF), pg_num_pages = 0\<rparr>"
  obtain t t' where t: "bpt_open ?pg = Inr t" "rfold (\<lambda>(k, v) t. bpt_insert t k v) (replicate 1000 (5, 6)) t = Inr t'"
    and s: "\<forall>k. \<exists>r t''. bpt_search t' k = Inr (r, t'') \<and> (\<forall>v. r = Some v \<longrightarrow> (k, v) \<in> set (replicate 1000 (5, 6)))"
    using index_sound [of ?pg "replicate 1000 (5, 6)"] by fastforce
  obtain r t'' where r: "bpt_search t' 4 = Inr (r, t'')" "\<forall>v. r = Some v \<longrightarrow> (4 :: u64, v) \<in> set (replicate 1000 (5, 6))"
    using spec [OF s, of 4] by blast
  have "r = None" using r(2) by (cases r) auto
  then show ?thesis using t r(1) by blast
qed

text \<open>
  C31. The bound of 31500 is sharp: the index loses entries. After the ascending keys 0 to
  31500 have been inserted on a new file, the last split finds its parent full and does not
  link the upper half, so the keys 31375 to 31500, the one just inserted among them, are not
  found.
\<close>

theorem index_loses_split_half:
  assumes "pg_num_pages pg = 0"
  shows "\<exists>t t'. bpt_open pg = Inr t \<and>
    rfold (\<lambda>(k, v) t. bpt_insert t k v) (map (\<lambda>i. (of_nat i, of_nat i)) [0..<31501]) t = Inr t' \<and>
    (\<forall>i \<in> {31375..31500}. \<exists>t''. bpt_search t' (of_nat i) = Inr (None, t''))"
proof -
  let ?run = "asc_run (of_nat :: nat \<Rightarrow> u64) (of_nat :: nat \<Rightarrow> u64) (BPT_ORDER div 2)"
  obtain t where t: "bpt_open pg = Inr t" "idx_inv t" "bpt_tree t = at_empty" "bpt_npages t = 1"
    using bpt_open_spec [OF assms(1)] by blast
  have room: "unat (bpt_npages t) + 2 * 31501 \<le> max_pages" using t(4) by (simp add: max_pages_def)
  obtain t' where t': "rfold (\<lambda>(k, v) t. bpt_insert t k v) (map (\<lambda>i. (of_nat i, of_nat i)) [0..<31501]) t = Inr t'"
    "bpt_inv t'" "bpt_tree t' = ?run 31501"
    using inserts_asc_run [OF t(2,3) room] by blast
  have n: "31501 = Suc (2 * (BPT_ORDER div 2) * (BPT_ORDER div 2 + 1))" by (simp add: BPT_ORDER_def)
  have none: "at_search (bpt_tree t') (of_nat i) = None" if "i \<in> {31375..31500}" for i
    unfolding t'(3) n by (rule asc_run_loses [OF of_nat_mono_u64]) (use that in \<open>simp_all add: BPT_ORDER_def\<close>)
  have "\<forall>i \<in> {31375..31500}. \<exists>t''. bpt_search t' (of_nat i) = Inr (None, t'')"
  proof
    fix i :: nat
    assume "i \<in> {31375..31500}"
    then show "\<exists>t''. bpt_search t' (of_nat i) = Inr (None, t'')"
      using bpt_search_refines [OF t'(2), of "of_nat i"] none [of i] by (elim exE) simp
  qed
  with t(1) t'(1) show ?thesis by (intro exI conjI)
qed

theorem index_loses_split_half_witness:
  "\<exists>t t' t''. bpt_open \<lparr>pg_mem = (\<lambda>_. fresh_node LEAF), pg_disk = (\<lambda>_. fresh_node LEAF), pg_num_pages = 0\<rparr> = Inr t \<and>
    rfold (\<lambda>(k, v) t. bpt_insert t k v) (map (\<lambda>i. (of_nat i, of_nat i)) [0..<31501]) t = Inr t' \<and>
    bpt_search t' (of_nat 31400) = Inr (None, t'')"
proof -
  let ?pg = "\<lparr>pg_mem = (\<lambda>_. fresh_node LEAF), pg_disk = (\<lambda>_. fresh_node LEAF), pg_num_pages = 0\<rparr>"
  have "pg_num_pages ?pg = 0" "(31400 :: nat) \<in> {31375..31500}" by simp_all
  then show ?thesis using index_loses_split_half [of ?pg] by blast
qed

text \<open>
  C32. An index does not survive the process. Whatever the file holds, the pager starts with no
  allocated page, so opening an existing index file gives an empty index: every search
  reports that there is no entry, and the first insertion overwrites page 0.
\<close>

theorem index_reopen_empty:
  "\<exists>t. rbind (pager_open True True True contents) bpt_open = Inr t \<and> bt_root t = 0 \<and>
     bpt_mem t 0 = fresh_node LEAF \<and> (\<forall>k. \<exists>t'. bpt_search t k = Inr (None, t'))"
proof -
  let ?pg = "\<lparr>pg_mem = contents, pg_disk = contents, pg_num_pages = 0\<rparr>"
  have s: "cm_inv (cm_new ?pg 256)" "cm_npages (cm_new ?pg 256) = 0" by (simp_all add: cm_inv_new) (simp add: cm_new_def)
  obtain s' where "create_node (cm_new ?pg 256) LEAF = Inr (0, s')" "idx_inv \<lparr>bt_cm = s', bt_root = 0\<rparr>"
    "bpt_tree \<lparr>bt_cm = s', bt_root = 0\<rparr> = at_empty" "cm_mem s' 0 = fresh_node LEAF"
    using single_leaf [OF s] create_node_spec [OF s(1), of LEAF] s(2) by (auto simp: max_pages_def)
  moreover from this have "\<exists>t'. bpt_search \<lparr>bt_cm = s', bt_root = 0\<rparr> k = Inr (None, t')" for k
    using bpt.search_distinct [of "\<lparr>bt_cm = s', bt_root = 0\<rparr>" "[]" k]
    by (simp add: idx_entries_def at_entries_def at_empty_def)
  ultimately show ?thesis
    by (simp add: pager_open_def bpt_open_def pager_get_num_pages_def)
qed

end
