(* ===== verification/TableModel.thy ===== *)
theory TableModel
  imports ColumnProofs IndexModel TextModel
begin

text \<open>
  Tables (\<open>src/src/storage/table.cpp\<close>, \<open>table.h\<close>, \<open>row.h\<close>) and the reading of a row
  (\<open>Executor::materialize_row\<close>, repeated in \<open>HashJoin::join\<close>).

  The union of a \<open>Value\<close> is a \<open>payload\<close> that remembers which member was written; reading
  bytes that no assignment has set is \<open>Indeterminate\<close>. A column name is a fixed array of 32
  characters filled by \<open>strncpy(.., 31)\<close>: from 31 characters on it has no terminator, and
  reading it is \<open>Indeterminate\<close> too. The files behind a table are arguments: what opening a
  path gives.
\<close>

section \<open>Schemas, values and rows\<close>

datatype column_type = CT_INT | CT_FLOAT | CT_DECIMAL | CT_CHAR | CT_VARCHAR | CT_DATETIME

record coldef =
  cd_name :: string
  cd_terminated :: bool
  cd_type :: column_type

record schema =
  sc_columns :: "coldef list"

datatype payload = Uninit | I32 u32 | F32 u32 | I64 u64

record dbvalue =
  v_type :: column_type
  v_num :: payload
  v_str :: string

type_synonym dbrow = "dbvalue list"

text \<open>\<open>strncpy(d.name, name.c_str(), 31)\<close> into an array without initial value.\<close>

definition strncpy_name :: "string \<Rightarrow> string \<times> bool" where
  "strncpy_name name = (take 31 (c_str name), length (c_str name) < 31)"

definition col_name :: "coldef \<Rightarrow> string res" where
  "col_name d = (if cd_terminated d then Inr (cd_name d) else Inl Indeterminate)"

text \<open>Reading the members of the union.\<close>

definition read_i64 :: "payload \<Rightarrow> u64 res" where
  "read_i64 p = (case p of I64 w \<Rightarrow> Inr w | _ \<Rightarrow> Inl Indeterminate)"

definition read_word :: "payload \<Rightarrow> u32 res" where
  "read_word p = (case p of I32 w \<Rightarrow> Inr w | F32 w \<Rightarrow> Inr w | I64 w \<Rightarrow> Inr (ucast w) | Uninit \<Rightarrow> Inl Indeterminate)"

section \<open>Tables\<close>

record table =
  tb_name :: string
  tb_schema :: schema
  tb_columns :: "colstore list"
  tb_index :: index_manager

definition column_path :: "string \<Rightarrow> string \<Rightarrow> string \<Rightarrow> string" where
  "column_path data_dir name col = data_dir @ ''/'' @ name @ ''_'' @ col @ ''.bin''"

fun open_columns :: "(string \<Rightarrow> pagedata pager res) \<Rightarrow> string \<Rightarrow> string \<Rightarrow> coldef list \<Rightarrow> colstore list res" where
  "open_columns files data_dir name [] = Inr []"
| "open_columns files data_dir name (d # ds) =
     rbind (col_name d) (\<lambda>n. rbind (files (column_path data_dir name n)) (\<lambda>pg.
       rbind (col_open pg) (\<lambda>c. rbind (open_columns files data_dir name ds) (\<lambda>cs. Inr (c # cs)))))"

definition first_is_id :: "schema \<Rightarrow> bool res" where
  "first_is_id sc = (case sc_columns sc of [] \<Rightarrow> Inl OutOfBounds
     | d # _ \<Rightarrow> rbind (col_name d) (\<lambda>n. Inr (n = ''ID'')))"

definition table_open ::
  "(string \<Rightarrow> pagedata pager res) \<Rightarrow> (string \<Rightarrow> bptnode pager res) \<Rightarrow> string \<Rightarrow> string \<Rightarrow> schema \<Rightarrow> table res" where
  "table_open files idx_files data_dir name sc =
     rbind (open_columns files data_dir name (sc_columns sc)) (\<lambda>cols.
       rbind (first_is_id sc) (\<lambda>pk.
         rbind (if pk then im_create_index Map.empty ''PK'' (idx_files (data_dir @ ''/'' @ name @ ''_PK.idx''))
                else Inr Map.empty) (\<lambda>im.
           Inr \<lparr>tb_name = name, tb_schema = sc, tb_columns = cols, tb_index = im\<rparr>)))"

text \<open>The bytes that \<open>insert_row\<close> stores for a value, and their number.\<close>

definition str_bytes :: "string \<Rightarrow> u8 list" where
  "str_bytes s = map of_char s"

definition pad_to :: "nat \<Rightarrow> u8 list \<Rightarrow> u8 list" where
  "pad_to n bs = bs @ replicate (n - length bs) 0"

definition value_bytes :: "dbvalue \<Rightarrow> (u8 list \<times> u16) res" where
  "value_bytes v =
     (if v_type v = CT_VARCHAR then Inr (pad_to 128 (str_bytes (take 127 (c_str (v_str v)))), 128)
      else if v_type v = CT_INT \<or> v_type v = CT_FLOAT
      then rbind (read_word (v_num v)) (\<lambda>w. Inr (pad_to 128 (enc32 w), 4))
      else rbind (read_i64 (v_num v)) (\<lambda>w. Inr (pad_to 128 (enc64 w), 8)))"

fun insert_values :: "colstore list \<Rightarrow> dbrow \<Rightarrow> colstore list res" where
  "insert_values [] vs = Inr []"
| "insert_values cs [] = Inr cs"
| "insert_values (c # cs) (v # vs) =
     rbind (value_bytes v) (\<lambda>(buf, sz). rbind (insert_fixed c buf sz) (\<lambda>c'.
       rbind (insert_values cs vs) (\<lambda>cs'. Inr (c' # cs'))))"

definition insert_row :: "table \<Rightarrow> dbrow \<Rightarrow> table res" where
  "insert_row t row =
     (if tb_columns t = [] then Inl OutOfBounds
      else let rid = cs_total_rows (hd (tb_columns t)) in
      rbind (insert_values (tb_columns t) row) (\<lambda>cols.
        rbind (first_is_id (tb_schema t)) (\<lambda>pk.
          if \<not> pk then Inr (t\<lparr>tb_columns := cols\<rparr>)
          else case im_get_index (tb_index t) ''PK'' of None \<Rightarrow> Inl NullDeref
          | Some idx \<Rightarrow> if row = [] then Inl OutOfBounds
              else rbind (read_i64 (v_num (hd row))) (\<lambda>key.
                rbind (bpt_insert idx key rid) (\<lambda>idx'.
                  Inr (t\<lparr>tb_columns := cols, tb_index := (tb_index t)(''PK'' \<mapsto> idx')\<rparr>))))))"

definition table_clear :: "table \<Rightarrow> table" where
  "table_clear t = t\<lparr>tb_columns := map col_clear (tb_columns t)\<rparr>"

definition table_flush_all :: "table \<Rightarrow> table" where
  "table_flush_all t = t\<lparr>tb_columns := map col_flush (tb_columns t)\<rparr>"

definition get_column :: "table \<Rightarrow> nat \<Rightarrow> colstore option" where
  "get_column t i = (if i \<ge> length (tb_columns t) then None else Some (tb_columns t ! i))"

text \<open>\<open>Table::scan\<close> and \<open>Table::fetch_row\<close> have empty bodies.\<close>

definition table_scan :: "table \<Rightarrow> (dbrow \<Rightarrow> u64 \<Rightarrow> bool) \<Rightarrow> table" where
  "table_scan t cb = t"

definition table_fetch_row :: "table \<Rightarrow> u64 \<Rightarrow> dbrow \<Rightarrow> bool \<times> dbrow" where
  "table_fetch_row t rid out = (False, out)"

section \<open>Reading a row\<close>

definition cell_size :: "column_type \<Rightarrow> u16" where
  "cell_size ty = (if ty = CT_VARCHAR then 128 else 8)"

definition bytes_str :: "u8 list \<Rightarrow> string" where
  "bytes_str bs = map (\<lambda>b. char_of (unat b)) (takeWhile (\<lambda>b. b \<noteq> 0) bs)"

definition cell_value :: "column_type \<Rightarrow> u8 list option \<Rightarrow> dbvalue" where
  "cell_value ty bs = (case bs of None \<Rightarrow> \<lparr>v_type = ty, v_num = Uninit, v_str = []\<rparr>
     | Some buf \<Rightarrow> if ty = CT_VARCHAR then \<lparr>v_type = ty, v_num = Uninit, v_str = bytes_str (buf @ [0])\<rparr>
                   else \<lparr>v_type = ty, v_num = I64 (dec64 (take 8 buf)), v_str = []\<rparr>)"

fun read_cells :: "coldef list \<Rightarrow> colstore list \<Rightarrow> u64 \<Rightarrow> (dbrow \<times> colstore list) res" where
  "read_cells [] cs rid = Inr ([], cs)"
| "read_cells (d # ds) [] rid = Inl NullDeref"
| "read_cells (d # ds) (c # cs) rid =
     rbind (read_at (cs_cm c) rid (cell_size (cd_type d))) (\<lambda>(bs, cm1).
       rbind (read_cells ds cs rid) (\<lambda>(vs, cs').
         Inr (cell_value (cd_type d) bs # vs, c\<lparr>cs_cm := cm1\<rparr> # cs')))"

definition materialize_row :: "table \<Rightarrow> u64 \<Rightarrow> (dbrow \<times> table) res" where
  "materialize_row t rid =
     rbind (read_cells (sc_columns (tb_schema t)) (tb_columns t) rid)
       (\<lambda>(row, cols). Inr (row, t\<lparr>tb_columns := cols\<rparr>))"

end
