(* ===== verification/JoinModel.thy ===== *)
theory JoinModel
  imports TableModel
begin

text \<open>
  \<open>HashJoin::join\<close> (\<open>src/src/executor/hash_join.cpp\<close>). The two \<open>Table*\<close> are names in the
  map of tables, so that a join of a table with itself works on one table.
\<close>

type_synonym tables = "string \<rightharpoonup> table"

text \<open>The search for a column by name, as the loops over \<open>schema().columns\<close> do it.\<close>

fun find_column :: "coldef list \<Rightarrow> string \<Rightarrow> nat option res" where
  "find_column [] name = Inr None"
| "find_column (d # ds) name =
     rbind (col_name d) (\<lambda>n. if n = name then Inr (Some 0)
       else rbind (find_column ds name) (\<lambda>r. Inr (map_option Suc r)))"

definition table_of :: "tables \<Rightarrow> string \<Rightarrow> table res" where
  "table_of tabs n = (case tabs n of None \<Rightarrow> Inl NullDeref | Some t \<Rightarrow> Inr t)"

definition materialize_in :: "string \<Rightarrow> u64 \<Rightarrow> tables \<Rightarrow> (dbrow \<times> tables) res" where
  "materialize_in n rid tabs =
     rbind (table_of tabs n) (\<lambda>t. rbind (materialize_row t rid) (\<lambda>(row, t'). Inr (row, tabs(n \<mapsto> t'))))"

text \<open>A read of eight bytes from the key column.\<close>

definition read_key :: "string \<Rightarrow> nat \<Rightarrow> u64 \<Rightarrow> tables \<Rightarrow> (u64 option \<times> tables) res" where
  "read_key n c rid tabs =
     rbind (table_of tabs n) (\<lambda>t. case get_column t c of None \<Rightarrow> Inl NullDeref
       | Some col \<Rightarrow> rbind (read_at (cs_cm col) rid 8) (\<lambda>(bs, cm1).
           Inr (map_option (\<lambda>b. dec64 (take 8 b)) bs,
                tabs(n \<mapsto> t\<lparr>tb_columns := (tb_columns t)[c := col\<lparr>cs_cm := cm1\<rparr>]\<rparr>))))"

definition column_rows :: "tables \<Rightarrow> string \<Rightarrow> nat \<Rightarrow> u64 res" where
  "column_rows tabs n c =
     rbind (table_of tabs n) (\<lambda>t. case get_column t c of None \<Rightarrow> Inl NullDeref
       | Some col \<Rightarrow> Inr (cs_total_rows col))"

text \<open>The build phase: from key to the row ids that have it, in order.\<close>

definition build_step :: "string \<Rightarrow> nat \<Rightarrow> nat \<Rightarrow> tables \<times> (u64 \<Rightarrow> u64 list) \<Rightarrow> (tables \<times> (u64 \<Rightarrow> u64 list)) res" where
  "build_step n2 c2 i st = (case st of (tabs, ht) \<Rightarrow>
     rbind (read_key n2 c2 (of_nat i) tabs) (\<lambda>(val, tabs').
       case val of None \<Rightarrow> Inr (tabs', ht) | Some k \<Rightarrow> Inr (tabs', ht(k := ht k @ [of_nat i]))))"

text \<open>The probe phase: one row of the left table against the bucket of its key.\<close>

definition probe_step ::
  "string \<Rightarrow> nat \<Rightarrow> string \<Rightarrow> (u64 \<Rightarrow> u64 list) \<Rightarrow> nat \<Rightarrow> tables \<times> dbrow list \<Rightarrow> (tables \<times> dbrow list) res" where
  "probe_step n1 c1 n2 ht i st = (case st of (tabs, result) \<Rightarrow>
     rbind (read_key n1 c1 (of_nat i) tabs) (\<lambda>(val, tabs').
       case val of None \<Rightarrow> Inr (tabs', result)
       | Some k \<Rightarrow> if ht k = [] then Inr (tabs', result)
           else rbind (materialize_in n1 (of_nat i) tabs') (\<lambda>(row1, tabs1).
             rbind (rmap (materialize_in n2) (ht k) tabs1) (\<lambda>(rows2, tabs2).
               Inr (tabs2, result @ map (\<lambda>row2. row1 @ row2) rows2)))))"

definition hash_join :: "tables \<Rightarrow> string \<Rightarrow> string \<Rightarrow> string \<Rightarrow> string \<Rightarrow> (dbrow list \<times> tables) res" where
  "hash_join tabs n1 n2 col1 col2 =
     rbind (table_of tabs n1) (\<lambda>t1. rbind (table_of tabs n2) (\<lambda>t2.
       rbind (find_column (sc_columns (tb_schema t1)) col1) (\<lambda>i1.
         rbind (find_column (sc_columns (tb_schema t2)) col2) (\<lambda>i2.
           case (i1, i2) of (Some c1, Some c2) \<Rightarrow>
             rbind (column_rows tabs n2 c2) (\<lambda>total2.
               rbind (rfold (build_step n2 c2) [0..<unat total2] (tabs, \<lambda>_. [])) (\<lambda>(tabs1, ht).
                 rbind (column_rows tabs1 n1 c1) (\<lambda>total1.
                   rbind (rfold (probe_step n1 c1 n2 ht) [0..<unat total1] (tabs1, [])) (\<lambda>(tabs2, result).
                     Inr (result, tabs2)))))
           | _ \<Rightarrow> Inr ([], tabs)))))"

end
