(* ===== verification/ExecModel.thy ===== *)
theory ExecModel
  imports JoinModel Ast
begin

text \<open>
  The executor (\<open>src/src/executor/executor.cpp\<close>, \<open>executor.h\<close>).

  The state is the map of tables. A call returns the integer result, the error text and the
  rows handed to the callback, in order. What the code takes from outside is an argument:
  \<open>env\<close> carries how paths open and two functions of the C++ library, \<open>std::stof\<close>, which only
  supplies the four bytes of a FLOAT, and \<open>std::sort\<close>, whose result for equivalent rows is
  not determined. \<open>std::sort\<close> requires a strict weak order; a call with two or more rows and
  a comparison that is none is \<open>BadComparator\<close>.
\<close>

record exec_env =
  env_files :: "string \<Rightarrow> pagedata pager res"
  env_idx_files :: "string \<Rightarrow> bptnode pager res"
  env_stof :: "string \<Rightarrow> u32 res"
  env_sort :: "(dbrow \<Rightarrow> dbrow \<Rightarrow> bool) \<Rightarrow> dbrow list \<Rightarrow> dbrow list"

record executor =
  ex_data_dir :: string
  ex_tables :: tables

record exec_out =
  eo_code :: int
  eo_err :: string
  eo_rows :: "string list list"

definition exec_new :: "string \<Rightarrow> executor" where
  "exec_new data_dir = \<lparr>ex_data_dir = data_dir, ex_tables = Map.empty\<rparr>"

definition out_ok :: exec_out where
  "out_ok = \<lparr>eo_code = 0, eo_err = [], eo_rows = []\<rparr>"

definition out_err :: "string \<Rightarrow> exec_out" where
  "out_err msg = \<lparr>eo_code = 1, eo_err = msg, eo_rows = []\<rparr>"

section \<open>CREATE\<close>

definition column_type_of :: "string \<Rightarrow> column_type" where
  "column_type_of ty =
     (if ty = ''DECIMAL'' \<or> ty = ''INT'' then CT_DECIMAL else if ty = ''FLOAT'' then CT_FLOAT else CT_VARCHAR)"

definition schema_of :: "(string \<times> string) list \<Rightarrow> schema" where
  "schema_of cols = \<lparr>sc_columns = map (\<lambda>(n, ty). \<lparr>cd_name = fst (strncpy_name n),
     cd_terminated = snd (strncpy_name n), cd_type = column_type_of ty\<rparr>) cols\<rparr>"

definition exec_create :: "exec_env \<Rightarrow> create_stmt \<Rightarrow> executor \<Rightarrow> (exec_out \<times> executor) res" where
  "exec_create env s ex =
     (if cr_table s = [] then Inr (out_err ''Missing table name'', ex)
      else if ex_tables ex (cr_table s) \<noteq> None then Inr (out_ok, ex)
      else rbind (table_open (env_files env) (env_idx_files env) (ex_data_dir ex) (cr_table s) (schema_of (cr_columns s)))
        (\<lambda>t. Inr (out_ok, ex\<lparr>ex_tables := (ex_tables ex)(cr_table s \<mapsto> t)\<rparr>)))"

section \<open>INSERT\<close>

text \<open>The table name is upper-cased; \<open>None\<close> stands for the null pointer, with the error text.\<close>

definition get_table :: "executor \<Rightarrow> string \<Rightarrow> table option \<times> string" where
  "get_table ex name =
     (let n = upper name in case ex_tables ex n of None \<Rightarrow> (None, ''Table not found: '' @ n) | Some t \<Rightarrow> (Some t, []))"

text \<open>The texts between an opening and the next closing parenthesis.\<close>

function tuples :: "string \<Rightarrow> string list" where
  "tuples raw =
     (let r = dropWhile (\<lambda>c. c \<noteq> CHR ''('') raw in
      if r = [] \<or> CHR '')'' \<notin> set r then []
      else takeWhile (\<lambda>c. c \<noteq> CHR '')'') (tl r) # tuples (tl (dropWhile (\<lambda>c. c \<noteq> CHR '')'') r)))"
  by pat_completeness auto
termination
proof (relation "measure length")
  fix raw r :: string
  assume r: "r = dropWhile (\<lambda>c. c \<noteq> CHR ''('') raw" and ne: "\<not> (r = [] \<or> CHR '')'' \<notin> set r)"
  have "length (dropWhile (\<lambda>c. c \<noteq> CHR '')'') r) \<le> length raw"
    using length_dropWhile_le le_trans unfolding r by blast
  moreover have "dropWhile (\<lambda>c. c \<noteq> CHR '')'') r \<noteq> []" using ne by auto
  ultimately show "(tl (dropWhile (\<lambda>c. c \<noteq> CHR '')'') r), raw) \<in> measure length"
    by (cases "dropWhile (\<lambda>c. c \<noteq> CHR '')'') r") auto
qed simp

declare tuples.simps [simp del]

definition unquote :: "string \<Rightarrow> string" where
  "unquote v = (if length v \<ge> 2 \<and> hd v = CHR 0x27 \<and> last v = CHR 0x27 then butlast (tl v) else v)"

definition parse_value :: "(string \<Rightarrow> u32 res) \<Rightarrow> column_type \<Rightarrow> string \<Rightarrow> dbvalue res" where
  "parse_value stof ty v =
     (if ty = CT_VARCHAR then Inr \<lparr>v_type = CT_VARCHAR, v_num = Uninit, v_str = unquote v\<rparr>
      else if ty = CT_DECIMAL \<or> ty = CT_INT
      then rbind (stoll v) (\<lambda>i. Inr \<lparr>v_type = CT_DECIMAL, v_num = I64 (word_of_int i), v_str = []\<rparr>)
      else rbind (stof v) (\<lambda>f. Inr \<lparr>v_type = CT_FLOAT, v_num = F32 f, v_str = []\<rparr>))"

fun parse_values :: "(string \<Rightarrow> u32 res) \<Rightarrow> coldef list \<Rightarrow> string list \<Rightarrow> dbrow res" where
  "parse_values stof ds [] = Inr []"
| "parse_values stof [] (v # vs) = Inl OutOfBounds"
| "parse_values stof (d # ds) (v # vs) =
     rbind (parse_value stof (cd_type d) (trim v)) (\<lambda>x.
       rbind (parse_values stof ds vs) (\<lambda>xs. Inr (x # xs)))"

definition exec_insert :: "exec_env \<Rightarrow> insert_stmt \<Rightarrow> executor \<Rightarrow> (exec_out \<times> executor) res" where
  "exec_insert env s ex =
     (case get_table ex (in_table s) of (None, err) \<Rightarrow> Inr (out_err err, ex)
      | (Some t, _) \<Rightarrow>
          rbind (rfold (\<lambda>tuple t.
                   rbind (parse_values (env_stof env) (sc_columns (tb_schema t)) (getlines (CHR '','') tuple)) (insert_row t))
                 (tuples (in_raw_values s)) t)
            (\<lambda>t'. Inr (out_ok, ex\<lparr>ex_tables := (ex_tables ex)(upper (in_table s) \<mapsto> t')\<rparr>)))"

section \<open>SELECT\<close>

text \<open>The position of a column: in the first table, else after it in the second.\<close>

definition locate_column :: "coldef list \<Rightarrow> coldef list option \<Rightarrow> string \<Rightarrow> nat option res" where
  "locate_column ds1 ds2 name =
     rbind (find_column ds1 name) (\<lambda>r. if r \<noteq> None then Inr r
       else case ds2 of None \<Rightarrow> Inr None
            | Some ds \<Rightarrow> rbind (find_column ds name) (\<lambda>r2. Inr (map_option (\<lambda>i. length ds1 + i) r2)))"

fun validate_columns :: "coldef list \<Rightarrow> string list \<Rightarrow> string option res" where
  "validate_columns ds [] = Inr None"
| "validate_columns ds (c # cs) =
     rbind (find_column ds c) (\<lambda>r. if r = None \<and> c \<noteq> ''*'' then Inr (Some (''Unknown column: '' @ c))
       else validate_columns ds cs)"

text \<open>One condition on one row; \<open>None\<close>: the column is unknown and the loop continues.\<close>

definition eval_where :: "coldef list \<Rightarrow> coldef list option \<Rightarrow> dbrow \<Rightarrow> where_clause \<Rightarrow> bool res" where
  "eval_where ds1 ds2 row w =
     rbind (locate_column ds1 ds2 (wh_column w)) (\<lambda>r. case r of None \<Rightarrow> Inr True
     | Some i \<Rightarrow> if i \<ge> length row then Inl OutOfBounds
         else let v = row ! i; num = (\<lambda>cmp. rbind (read_i64 (v_num v)) (\<lambda>x. rbind (stoll (wh_value w)) (\<lambda>y. Inr (cmp (sint x) y)))) in
         if wh_op w = ''='' then (if v_type v = CT_VARCHAR then Inr (v_str v = wh_value w) else num (=))
         else if wh_op w = ''>'' then num (>)
         else if wh_op w = ''>='' then num (\<ge>)
         else Inr True)"

fun match_row :: "coldef list \<Rightarrow> coldef list option \<Rightarrow> where_clause list \<Rightarrow> dbrow \<Rightarrow> bool res" where
  "match_row ds1 ds2 [] row = Inr True"
| "match_row ds1 ds2 (w # ws) row =
     rbind (eval_where ds1 ds2 row w) (\<lambda>b. if b then match_row ds1 ds2 ws row else Inr False)"

fun filter_rows :: "(dbrow \<Rightarrow> bool res) \<Rightarrow> dbrow list \<Rightarrow> dbrow list res" where
  "filter_rows P [] = Inr []"
| "filter_rows P (r # rs) =
     rbind (P r) (\<lambda>b. rbind (filter_rows P rs) (\<lambda>rs'. Inr (if b then r # rs' else rs')))"

text \<open>\<open>operator<\<close> of \<open>std::string\<close>: lexicographic on unsigned characters.\<close>

fun str_less :: "string \<Rightarrow> string \<Rightarrow> bool" where
  "str_less s [] = False"
| "str_less [] (d # t) = True"
| "str_less (c # s) (d # t) = (char_nat c < char_nat d \<or> (c = d \<and> str_less s t))"

definition order_lt :: "nat \<Rightarrow> dbrow \<Rightarrow> dbrow \<Rightarrow> bool" where
  "order_lt i a b = (if v_type (a ! i) = CT_VARCHAR then str_less (v_str (a ! i)) (v_str (b ! i))
     else case (v_num (a ! i), v_num (b ! i)) of (I64 x, I64 y) \<Rightarrow> sint x < sint y | _ \<Rightarrow> False)"

definition order_readable :: "nat \<Rightarrow> dbrow \<Rightarrow> bool" where
  "order_readable i a \<longleftrightarrow> i < length a \<and> (v_type (a ! i) = CT_VARCHAR \<or> (case v_num (a ! i) of I64 _ \<Rightarrow> True | _ \<Rightarrow> False))"

definition strict_weak :: "('a \<Rightarrow> 'a \<Rightarrow> bool) \<Rightarrow> 'a list \<Rightarrow> bool" where
  "strict_weak lt xs \<longleftrightarrow> (\<forall>a \<in> set xs. \<not> lt a a) \<and>
     (\<forall>a \<in> set xs. \<forall>b \<in> set xs. \<forall>c \<in> set xs. lt a b \<longrightarrow> lt b c \<longrightarrow> lt a c) \<and>
     (\<forall>a \<in> set xs. \<forall>b \<in> set xs. \<forall>c \<in> set xs.
        \<not> lt a b \<and> \<not> lt b a \<and> \<not> lt b c \<and> \<not> lt c b \<longrightarrow> \<not> lt a c \<and> \<not> lt c a)"

definition sort_rows :: "exec_env \<Rightarrow> nat \<Rightarrow> bool \<Rightarrow> dbrow list \<Rightarrow> dbrow list res" where
  "sort_rows env i ascending rows =
     (let cmp = (\<lambda>a b. if ascending then order_lt i a b else \<not> order_lt i a b) in
      if length rows \<le> 1 then Inr rows
      else if \<not> list_all (order_readable i) rows then Inl Indeterminate
      else if \<not> strict_weak cmp rows then Inl BadComparator
      else Inr (env_sort env cmp rows))"

text \<open>The strings of one result row.\<close>

definition cell_text :: "dbvalue \<Rightarrow> string res" where
  "cell_text v = (if v_type v = CT_VARCHAR then Inr (v_str v)
     else rbind (read_i64 (v_num v)) (\<lambda>x. Inr (to_string (sint x))))"

fun row_texts :: "coldef list \<Rightarrow> coldef list option \<Rightarrow> dbrow \<Rightarrow> string list \<Rightarrow> string list res" where
  "row_texts ds1 ds2 row [] = Inr []"
| "row_texts ds1 ds2 row (c # cs) =
     rbind (locate_column ds1 ds2 c) (\<lambda>r.
       rbind (case r of None \<Rightarrow> Inr ''NULL''
              | Some i \<Rightarrow> if i < length row then cell_text (row ! i) else Inr ''NULL'') (\<lambda>txt.
         rbind (row_texts ds1 ds2 row cs) (\<lambda>txts. Inr (txt # txts))))"

fun all_texts :: "coldef list \<Rightarrow> coldef list option \<Rightarrow> string list \<Rightarrow> dbrow list \<Rightarrow> string list list res" where
  "all_texts ds1 ds2 cols [] = Inr []"
| "all_texts ds1 ds2 cols (r # rs) =
     rbind (row_texts ds1 ds2 r cols) (\<lambda>x. rbind (all_texts ds1 ds2 cols rs) (\<lambda>xs. Inr (x # xs)))"

text \<open>The index lookup inside \<open>try .. catch(...)\<close>: the exceptions of \<open>stoll\<close> are dropped.\<close>

definition index_lookup :: "string \<Rightarrow> string \<Rightarrow> tables \<Rightarrow> (dbrow option \<times> tables) res" where
  "index_lookup n value tabs = (case stoll value of
       Inl e \<Rightarrow> if e = InvalidArgument \<or> e = OutOfRange then Inr (None, tabs) else Inl e
     | Inr key \<Rightarrow> rbind (table_of tabs n) (\<lambda>t. case im_get_index (tb_index t) ''PK'' of None \<Rightarrow> Inl NullDeref
         | Some idx \<Rightarrow> rbind (bpt_search idx (word_of_int key)) (\<lambda>(r, idx').
             let tabs1 = tabs(n \<mapsto> t\<lparr>tb_index := (tb_index t)(''PK'' \<mapsto> idx')\<rparr>) in
             case r of None \<Rightarrow> Inr (None, tabs1)
             | Some rid \<Rightarrow> rbind (materialize_in n rid tabs1) (\<lambda>(row, tabs2). Inr (Some row, tabs2)))))"

definition uses_index :: "select_stmt \<Rightarrow> bool" where
  "uses_index s \<longleftrightarrow> \<not> se_has_join s \<and> length (se_where s) = 1 \<and> wh_column (hd (se_where s)) = ''ID'' \<and>
     wh_op (hd (se_where s)) = ''=''"

text \<open>The full scan: every row id below the row count of the first column.\<close>

definition scan_rows :: "string \<Rightarrow> tables \<Rightarrow> (dbrow list \<times> tables) res" where
  "scan_rows n tabs =
     rbind (column_rows tabs n 0) (\<lambda>total. rmap (\<lambda>i. materialize_in n (of_nat i)) [0..<unat total] tabs)"

text \<open>From the candidate rows to the output: filter, sort, print.\<close>

definition finish_select :: "exec_env \<Rightarrow> select_stmt \<Rightarrow> coldef list \<Rightarrow> coldef list option \<Rightarrow> bool \<Rightarrow> dbrow list \<Rightarrow> exec_out res" where
  "finish_select env s ds1 ds2 used_index rows =
     rbind (if used_index then Inr rows else filter_rows (match_row ds1 ds2 (se_where s)) rows) (\<lambda>kept.
       rbind (if \<not> se_has_order s then Inr kept
              else rbind (locate_column ds1 ds2 (ob_column (se_order_by s))) (\<lambda>r. case r of None \<Rightarrow> Inr kept
                   | Some i \<Rightarrow> sort_rows env i (ob_ascending (se_order_by s)) kept)) (\<lambda>ordered.
         rbind (all_texts ds1 ds2 (se_columns s) ordered) (\<lambda>out. Inr (out_ok\<lparr>eo_rows := out\<rparr>))))"

definition exec_select :: "exec_env \<Rightarrow> select_stmt \<Rightarrow> executor \<Rightarrow> (exec_out \<times> executor) res" where
  "exec_select env s ex =
     (case get_table ex (se_table s) of (None, err) \<Rightarrow> Inr (out_err err, ex)
      | (Some t, _) \<Rightarrow>
        let n = upper (se_table s); ds1 = sc_columns (tb_schema t); tabs = ex_tables ex in
        rbind (if se_has_join s then Inr None else validate_columns ds1 (se_columns s)) (\<lambda>bad.
          case bad of Some msg \<Rightarrow> Inr (out_err msg, ex)
          | None \<Rightarrow>
            rbind (if uses_index s then index_lookup n (wh_value (hd (se_where s))) tabs else Inr (None, tabs)) (\<lambda>(hit, tabs1).
              case hit of Some row \<Rightarrow>
                rbind (finish_select env s ds1 None True [row]) (\<lambda>out. Inr (out, ex\<lparr>ex_tables := tabs1\<rparr>))
              | None \<Rightarrow>
                if se_has_join s
                then (case get_table (ex\<lparr>ex_tables := tabs1\<rparr>) (jn_table (se_join s)) of
                       (None, err) \<Rightarrow> Inr (out_err err, ex\<lparr>ex_tables := tabs1\<rparr>)
                     | (Some t2, _) \<Rightarrow>
                       rbind (hash_join tabs1 n (upper (jn_table (se_join s))) (jn_on_left (se_join s)) (jn_on_right (se_join s)))
                         (\<lambda>(rows, tabs2). rbind (finish_select env s ds1 (Some (sc_columns (tb_schema t2))) False rows)
                           (\<lambda>out. Inr (out, ex\<lparr>ex_tables := tabs2\<rparr>))))
                else rbind (scan_rows n tabs1) (\<lambda>(rows, tabs2).
                       rbind (finish_select env s ds1 None False rows) (\<lambda>out. Inr (out, ex\<lparr>ex_tables := tabs2\<rparr>))))))"

section \<open>DELETE and the dispatch\<close>

definition exec_delete :: "delete_stmt \<Rightarrow> executor \<Rightarrow> (exec_out \<times> executor) res" where
  "exec_delete s ex =
     (case get_table ex (de_table s) of (None, err) \<Rightarrow> Inr (out_err err, ex)
      | (Some t, _) \<Rightarrow> Inr (out_ok, ex\<lparr>ex_tables := (ex_tables ex)(upper (de_table s) \<mapsto> table_clear t)\<rparr>))"

definition exec :: "exec_env \<Rightarrow> statement \<Rightarrow> executor \<Rightarrow> (exec_out \<times> executor) res" where
  "exec env s ex = (case st_type s of
       ST_CREATE \<Rightarrow> exec_create env (st_create s) ex
     | ST_INSERT \<Rightarrow> exec_insert env (st_insert s) ex
     | ST_SELECT \<Rightarrow> exec_select env (st_select s) ex
     | ST_DELETE \<Rightarrow> exec_delete (st_delete s) ex
     | ST_NONE \<Rightarrow> Inr (\<lparr>eo_code = 1, eo_err = [], eo_rows = []\<rparr>, ex))"

end
