(* ===== verification/ServerModel.thy ===== *)
theory ServerModel
  imports ParserModel ExecModel
begin

text \<open>
  The connection handler (\<open>src/src/server/server.cpp\<close>) and the client library
  (\<open>src/src/client/flexql.cpp\<close>), with the text protocol between them: statements end with a
  semicolon; a reply is a line \<open>ROW ..\<close> for each row, a line \<open>ERROR: ..\<close> if the statement
  failed, and a line \<open>END\<close>.

  A connection is the list of the chunks that \<open>recv\<close> returns, an empty chunk (or the end of the
  list) is the end of the stream. What is sent is a string. \<open>accumulator += buffer\<close> appends a C
  string: a chunk counts up to its first NUL.
\<close>

abbreviation nl :: char where
  "nl \<equiv> CHR 0x0A"

abbreviation tab :: char where
  "tab \<equiv> CHR 0x09"

section \<open>The server\<close>

record session =
  ss_acc :: string
  ss_sent :: string
  ss_exec :: executor

definition server_exec_callback :: "string list \<Rightarrow> string" where
  "server_exec_callback argv = ''ROW '' @ sep_by [tab] (map c_str argv) @ [nl]"

text \<open>What is sent for one executed statement.\<close>

definition reply :: "exec_out \<Rightarrow> string" where
  "reply out = concat (map server_exec_callback (eo_rows out)) @
     (if eo_err out \<noteq> [] then ''ERROR: '' @ eo_err out @ [nl] else []) @ ''END'' @ [nl]"

definition serve :: "exec_env \<Rightarrow> string \<Rightarrow> executor \<Rightarrow> (exec_out \<times> executor) res" where
  "serve env sql ex =
     (let stmt = parse sql in
      if st_type stmt \<noteq> ST_CREATE \<and> st_type stmt \<noteq> ST_INSERT \<and> st_type stmt \<noteq> ST_SELECT \<and> st_type stmt \<noteq> ST_DELETE
      then Inr (out_err ''Invalid SQL'', ex)
      else exec env stmt ex)"

text \<open>The inner loop: every statement that the accumulator holds in full.\<close>

function drain :: "exec_env \<Rightarrow> session \<Rightarrow> session res" where
  "drain env s =
     (if CHR '';'' \<notin> set (ss_acc s) then Inr s
      else
        let sql = takeWhile (\<lambda>c. c \<noteq> CHR '';'') (ss_acc s); rest = tl (dropWhile (\<lambda>c. c \<noteq> CHR '';'') (ss_acc s)) in
        case serve env sql (ss_exec s) of Inl e \<Rightarrow> Inl e
        | Inr (out, ex) \<Rightarrow> drain env \<lparr>ss_acc = rest, ss_sent = ss_sent s @ reply out, ss_exec = ex\<rparr>)"
  by pat_completeness auto
termination
proof (relation "measure (\<lambda>(env, s). length (ss_acc s))")
  fix s :: session and rest :: string and env :: exec_env and sql r out ex
  assume "\<not> CHR '';'' \<notin> set (ss_acc s)" and r: "rest = tl (dropWhile (\<lambda>c. c \<noteq> CHR '';'') (ss_acc s))"
  then have "dropWhile (\<lambda>c. c \<noteq> CHR '';'') (ss_acc s) \<noteq> []" by auto
  then have "length rest < length (ss_acc s)"
    using length_dropWhile_le [of "\<lambda>c. c \<noteq> CHR '';''" "ss_acc s"] unfolding r
    by (cases "dropWhile (\<lambda>c. c \<noteq> CHR '';'') (ss_acc s)") auto
  then show "((env, \<lparr>ss_acc = rest, ss_sent = ss_sent s @ reply out, ss_exec = ex\<rparr>), env, s)
      \<in> measure (\<lambda>(env, s). length (ss_acc s))" by simp
qed simp

declare drain.simps [simp del]

fun handle_client :: "exec_env \<Rightarrow> string list \<Rightarrow> session \<Rightarrow> session res" where
  "handle_client env [] s = Inr s"
| "handle_client env (chunk # chunks) s =
     (if chunk = [] then Inr s
      else rbind (drain env (s\<lparr>ss_acc := ss_acc s @ c_str chunk\<rparr>)) (handle_client env chunks))"

section \<open>The client\<close>

definition FLEXQL_OK :: int where "FLEXQL_OK = 0"

definition FLEXQL_ERROR :: int where "FLEXQL_ERROR = -1"

text \<open>What one call has seen: rows handed to the callback, the error text, whether there was one.\<close>

record client_seen =
  cl_rows :: "string list list"
  cl_errmsg :: "string option"
  cl_error :: bool

definition no_lines :: client_seen where
  "no_lines = \<lparr>cl_rows = [], cl_errmsg = None, cl_error = False\<rparr>"

text \<open>One line that is not \<open>END\<close>, already trimmed.\<close>

definition client_line :: "string \<Rightarrow> client_seen \<Rightarrow> client_seen" where
  "client_line line st =
     (if starts_with ''ERROR:'' line
      then st\<lparr>cl_errmsg := Some (c_str (trim_left (drop 6 line))), cl_error := True\<rparr>
      else if starts_with ''ROW '' line
      then (if cl_error st then st else st\<lparr>cl_rows := cl_rows st @ [map c_str (getlines tab (drop 4 line))]\<rparr>)
      else st)"

function client_lines :: "string \<Rightarrow> client_seen \<Rightarrow> int option \<times> string \<times> client_seen" where
  "client_lines acc st =
     (if nl \<notin> set acc then (None, acc, st)
      else
        let line = trim (takeWhile (\<lambda>c. c \<noteq> nl) acc); rest = tl (dropWhile (\<lambda>c. c \<noteq> nl) acc) in
        if line = ''END'' then (Some (if cl_error st then FLEXQL_ERROR else FLEXQL_OK), rest, st)
        else client_lines rest (client_line line st))"
  by pat_completeness auto
termination
proof (relation "measure (\<lambda>(acc, st). length acc)")
  fix acc line rest :: string and st :: client_seen
  assume "\<not> nl \<notin> set acc" and r: "rest = tl (dropWhile (\<lambda>c. c \<noteq> nl) acc)"
  then have "dropWhile (\<lambda>c. c \<noteq> nl) acc \<noteq> []" by auto
  then have "length rest < length acc"
    using length_dropWhile_le [of "\<lambda>c. c \<noteq> nl" acc] unfolding r by (cases "dropWhile (\<lambda>c. c \<noteq> nl) acc") auto
  then show "((rest, client_line line st), acc, st) \<in> measure (\<lambda>(acc, st). length acc)" by simp
qed simp

declare client_lines.simps [simp del]

text \<open>The outer loop: the code, what was seen, the accumulator and the chunks that are left.\<close>

fun client_loop :: "string list \<Rightarrow> string \<Rightarrow> client_seen \<Rightarrow> int \<times> client_seen \<times> string \<times> string list" where
  "client_loop chunks acc st = (case client_lines acc st of
       (Some code, acc1, st1) \<Rightarrow> (code, st1, acc1, chunks)
     | (None, acc1, st1) \<Rightarrow> (case chunks of [] \<Rightarrow> (FLEXQL_ERROR, st1, acc1, [])
         | chunk # left \<Rightarrow> if chunk = [] then (FLEXQL_ERROR, st1, acc1, left)
             else client_loop left (acc1 @ c_str chunk) st1))"

declare client_loop.simps [simp del]

text \<open>
  \<open>flexql_exec\<close> on an open connection: \<open>None\<close> when nothing is sent, else the request. The
  callback and \<open>errmsg\<close> are given and \<open>send\<close> succeeds.
\<close>

definition client_request :: "string \<Rightarrow> string option" where
  "client_request sql =
     (let q = c_str sql in if q = [] then None else if last q \<noteq> CHR '';'' then Some (q @ '';'') else Some q)"

definition flexql_exec :: "string \<Rightarrow> string list \<Rightarrow> string \<Rightarrow> int \<times> client_seen \<times> string \<times> string list" where
  "flexql_exec sql chunks acc = (case client_request sql of
       None \<Rightarrow> (FLEXQL_OK, no_lines, acc, chunks)
     | Some _ \<Rightarrow> client_loop chunks acc no_lines)"

end
