(* ===== verification/TableProofs.thy ===== *)
theory TableProofs
  imports TableModel
begin

text \<open>
  A table is a list of rows. For schemas of DECIMAL and VARCHAR columns and rows that fit
  them, \<open>insert_row\<close> appends a row, \<open>materialize_row\<close> returns it by position, and the
  primary-key index holds the pair of key and position of each row.
\<close>

section \<open>Cells\<close>

datatype cell = CNum u64 | CStr string

fun cell_ok :: "column_type \<Rightarrow> cell \<Rightarrow> bool" where
  "cell_ok CT_DECIMAL (CNum w) = True"
| "cell_ok CT_VARCHAR (CStr s) = (length s \<le> 127 \<and> (\<forall>c \<in> set s. char_nat c \<noteq> 0))"
| "cell_ok _ _ = False"

fun cell_db :: "cell \<Rightarrow> dbvalue" where
  "cell_db (CNum w) = \<lparr>v_type = CT_DECIMAL, v_num = I64 w, v_str = []\<rparr>"
| "cell_db (CStr s) = \<lparr>v_type = CT_VARCHAR, v_num = Uninit, v_str = s\<rparr>"

fun cell_buf :: "cell \<Rightarrow> u8 list" where
  "cell_buf (CNum w) = pad_to 128 (enc64 w)"
| "cell_buf (CStr s) = pad_to 128 (str_bytes s)"

lemma cell_okD:
  "cell_ok ty c \<Longrightarrow> (ty = CT_DECIMAL \<and> (\<exists>w. c = CNum w)) \<or>
     (ty = CT_VARCHAR \<and> (\<exists>s. c = CStr s \<and> length s \<le> 127 \<and> (\<forall>c \<in> set s. char_nat c \<noteq> 0)))"
  by (cases ty; cases c) auto

lemma c_str_id: "\<forall>c \<in> set s. char_nat c \<noteq> 0 \<Longrightarrow> c_str s = s"
  by (simp add: c_str_def takeWhile_eq_all_conv [THEN iffD2])

lemma char_u8:
  "char_of (unat (of_char c :: u8)) = c" "(of_char c :: u8) = 0 \<longleftrightarrow> char_nat c = 0"
proof -
  have c: "(of_char c :: u8) = of_nat (char_nat c)" by (simp add: char_nat_def of_nat_of_char)
  have "unat (of_nat (char_nat c) :: u8) = char_nat c" using char_nat_less [of c] by (simp add: unat_of_nat)
  then have u: "unat (of_char c :: u8) = char_nat c" using c by simp
  then show "char_of (unat (of_char c :: u8)) = c" by (simp add: char_nat_def)
  show "(of_char c :: u8) = 0 \<longleftrightarrow> char_nat c = 0" using u by (metis unat_eq_zero)
qed

lemma bytes_str_pad:
  assumes "\<forall>c \<in> set s. char_nat c \<noteq> 0"
  shows "bytes_str (str_bytes s @ replicate n 0 @ [0]) = s"
proof -
  have "takeWhile (\<lambda>b. b \<noteq> 0) (str_bytes s @ replicate n 0 @ [0]) = str_bytes s"
    using assms by (cases n) (auto simp: takeWhile_append str_bytes_def char_u8)
  then show ?thesis by (simp add: bytes_str_def str_bytes_def comp_def char_u8)
qed

lemma value_bytes_cell:
  assumes "cell_ok ty c"
  shows "value_bytes (cell_db c) = Inr (cell_buf c, cell_size ty)"
  using cell_okD [OF assms] by (auto simp: value_bytes_def cell_size_def c_str_id read_i64_def)

lemma length_cell_buf: "cell_ok ty c \<Longrightarrow> length (cell_buf c) = 128"
  by (drule cell_okD) (auto simp: pad_to_def str_bytes_def)

lemma cell_value_buf:
  assumes "cell_ok ty c"
  shows "cell_value ty (Some (take (unat (cell_size ty)) (cell_buf c))) = cell_db c"
  using cell_okD [OF assms]
  by (auto simp: cell_value_def cell_size_def pad_to_def str_bytes_def bytes_str_pad [unfolded str_bytes_def])

section \<open>The columns of a table\<close>

definition fixed_inv :: "u16 \<Rightarrow> colstore \<Rightarrow> u8 list list \<Rightarrow> bool" where
  "fixed_inv z s xs \<longleftrightarrow> slot_format.col_inv (ucast z) (fixed_ok z) (fixed_wf z) (4088 div unat z) s xs"

lemma cell_size_cases: "cell_size ty = 8 \<or> cell_size ty = 128"
  by (simp add: cell_size_def)

lemma cell_format: "slot_format (fixed_full (cell_size ty)) (ucast (cell_size ty)) (\<lambda>x. write_fixed x (cell_size ty))
    (fixed_ok (cell_size ty)) (fixed_wf (cell_size ty)) (cell_size ty) (take (unat (cell_size ty)))
    (4088 div unat (cell_size ty))"
  using cell_size_cases [of ty] by (intro fixed_slot_format) auto

definition cell_capacity :: "column_type \<Rightarrow> nat" where
  "cell_capacity ty = 2 ^ 18 * (4088 div unat (cell_size ty))"

lemma cell_capacity_bound: "8126464 \<le> cell_capacity ty"
  using cell_size_cases [of ty] by (auto simp: cell_capacity_def)

lemma fixed_inv_insert:
  assumes "fixed_inv (cell_size ty) s xs" and "length xs < cell_capacity ty" and "length x = 128"
  shows "\<exists>s'. insert_fixed s x (cell_size ty) = Inr s' \<and> fixed_inv (cell_size ty) s' (xs @ [x])"
  using slot_format.insert_appends [OF cell_format, of ty s xs x] assms cell_size_cases [of ty]
  by (auto simp: fixed_inv_def insert_fixed_def fixed_wf_def cell_capacity_def max_pages_def)

lemma fixed_inv_read:
  assumes "fixed_inv (cell_size ty) s xs"
  shows "\<exists>c. read_at (cs_cm s) rid (cell_size ty) =
      Inr (if unat rid < length xs then Some (take (unat (cell_size ty)) (xs ! unat rid)) else None, c) \<and>
    fixed_inv (cell_size ty) (s\<lparr>cs_cm := c\<rparr>) xs"
proof -
  note f = cell_format [of ty]
  note inv = assms [unfolded fixed_inv_def]
  obtain c where c: "read_at (cs_cm s) rid (cell_size ty) =
      Inr (if unat rid < length xs then Some (take (unat (cell_size ty)) (xs ! unat rid)) else None, c)"
    "slot_format.holds (ucast (cell_size ty)) (fixed_ok (cell_size ty)) (fixed_wf (cell_size ty)) (4088 div unat (cell_size ty)) c xs"
    "cm_mem c = cm_mem (cs_cm s)" "cm_npages c = cm_npages (cs_cm s)"
    using slot_format.read_at_nth [OF f slot_format.col_inv_holds [OF f inv]] by blast
  have "cm_inv c" using c(2) by (simp add: slot_format.holds_def [OF f])
  then have "fixed_inv (cell_size ty) (s\<lparr>cs_cm := c\<rparr>) xs"
    using inv c(3,4) by (simp add: fixed_inv_def slot_format.col_inv_def [OF f])
  then show ?thesis using c(1) by blast
qed

lemma fixed_inv_rows: "fixed_inv (cell_size ty) s xs \<Longrightarrow> unat (cs_total_rows s) = length xs"
  by (simp add: fixed_inv_def slot_format.col_inv_def [OF cell_format])

text \<open>Column by column, the pages hold the cells of the rows.\<close>

fun cols_inv :: "column_type list \<Rightarrow> colstore list \<Rightarrow> cell list list \<Rightarrow> bool" where
  "cols_inv [] [] rows = True"
| "cols_inv (ty # tys) (c # cs) rows =
     (fixed_inv (cell_size ty) c (map (\<lambda>r. cell_buf (hd r)) rows) \<and> cols_inv tys cs (map tl rows))"
| "cols_inv _ _ _ = False"

definition rows_ok :: "column_type list \<Rightarrow> cell list list \<Rightarrow> bool" where
  "rows_ok tys rows \<longleftrightarrow> (\<forall>r \<in> set rows. list_all2 cell_ok tys r)"

lemma rows_ok_Cons:
  "rows_ok (ty # tys) rows \<longleftrightarrow> (\<forall>r \<in> set rows. r \<noteq> [] \<and> cell_ok ty (hd r)) \<and> rows_ok tys (map tl rows)"
proof -
  have "list_all2 cell_ok (ty # tys) r \<longleftrightarrow> r \<noteq> [] \<and> cell_ok ty (hd r) \<and> list_all2 cell_ok tys (tl r)" for r
    by (cases r) auto
  then show ?thesis by (auto simp: rows_ok_def)
qed

lemma insert_values_appends:
  assumes "cols_inv tys cs rows" and "list_all2 cell_ok tys row"
    and "\<forall>ty \<in> set tys. length rows < cell_capacity ty"
  shows "\<exists>cs'. insert_values cs (map cell_db row) = Inr cs' \<and> cols_inv tys cs' (rows @ [row])"
  using assms
proof (induction tys cs rows arbitrary: row rule: cols_inv.induct)
  case (2 ty tys c cs rows)
  obtain x xs where row: "row = x # xs" "cell_ok ty x" "list_all2 cell_ok tys xs"
    using "2.prems"(2) by (auto simp: list_all2_Cons1)
  obtain c' where c': "insert_fixed c (cell_buf x) (cell_size ty) = Inr c'"
    "fixed_inv (cell_size ty) c' (map (\<lambda>r. cell_buf (hd r)) rows @ [cell_buf x])"
    using fixed_inv_insert [of ty c "map (\<lambda>r. cell_buf (hd r)) rows" "cell_buf x"] "2.prems" length_cell_buf [OF row(2)] by auto
  obtain cs' where cs': "insert_values cs (map cell_db xs) = Inr cs'" "cols_inv tys cs' (map tl rows @ [xs])"
    using "2.IH" [OF _ row(3)] "2.prems" by auto
  show ?case using c' cs' row(1) value_bytes_cell [OF row(2)] by simp
qed auto

lemma read_cells_nth:
  assumes "cols_inv (map cd_type ds) cs rows" and "rows_ok (map cd_type ds) rows"
  shows "\<exists>cs'. read_cells ds cs rid =
      Inr (if unat rid < length rows then map cell_db (rows ! unat rid)
           else map (\<lambda>d. cell_value (cd_type d) None) ds, cs') \<and> cols_inv (map cd_type ds) cs' rows"
  using assms
proof (induction ds cs rid arbitrary: rows rule: read_cells.induct)
  case (1 cs rid)
  have "rows ! unat rid = []" if "unat rid < length rows"
    using "1.prems"(2) that by (simp add: rows_ok_def)
  then show ?case using "1.prems" by simp
next
  case (2 d ds rid)
  then show ?case by simp
next
  case (3 d ds c cs rid)
  let ?ty = "cd_type d"
  have ok: "\<forall>r \<in> set rows. r \<noteq> [] \<and> cell_ok ?ty (hd r)" "rows_ok (map cd_type ds) (map tl rows)"
    using "3.prems"(2) by (simp_all add: rows_ok_Cons)
  obtain cm where cm: "read_at (cs_cm c) rid (cell_size ?ty) =
      Inr (if unat rid < length rows then Some (take (unat (cell_size ?ty)) (cell_buf (hd (rows ! unat rid)))) else None, cm)"
    "fixed_inv (cell_size ?ty) (c\<lparr>cs_cm := cm\<rparr>) (map (\<lambda>r. cell_buf (hd r)) rows)"
    using fixed_inv_read [of ?ty c "map (\<lambda>r. cell_buf (hd r)) rows" rid] "3.prems"(1) by auto
  obtain cs' where cs': "read_cells ds cs rid =
      Inr (if unat rid < length rows then map cell_db (tl (rows ! unat rid))
           else map (\<lambda>d. cell_value (cd_type d) None) ds, cs')" "cols_inv (map cd_type ds) cs' (map tl rows)"
    using "3.IH" [OF cm(1) refl, of "map tl rows"] "3.prems"(1) ok(2) by auto
  show ?case
  proof (cases "unat rid < length rows")
    case True
    then have r: "rows ! unat rid \<noteq> []" "cell_ok ?ty (hd (rows ! unat rid))" using ok(1) by simp_all
    then have "map cell_db (rows ! unat rid) = cell_db (hd (rows ! unat rid)) # map cell_db (tl (rows ! unat rid))"
      by (cases "rows ! unat rid") simp_all
    then show ?thesis using True cm cs' cell_value_buf [OF r(2)] by simp
  next
    case False
    then show ?thesis using cm cs' by simp
  qed
qed

section \<open>Whole tables\<close>

abbreviation table_types :: "table \<Rightarrow> column_type list" where
  "table_types t \<equiv> map cd_type (sc_columns (tb_schema t))"

fun cell_key :: "cell \<Rightarrow> u64" where
  "cell_key (CNum w) = w"
| "cell_key (CStr s) = 0"

definition pk_pairs :: "cell list list \<Rightarrow> (u64 \<times> u64) list" where
  "pk_pairs rows = map (\<lambda>i. (cell_key (hd (rows ! i)), of_nat i)) [0..<length rows]"

text \<open>
  The invariant: \<open>pk\<close> says whether the table has the primary-key index. The index is exact,
  which it is for up to 31500 rows.
\<close>

definition table_inv :: "bool \<Rightarrow> table \<Rightarrow> cell list list \<Rightarrow> bool" where
  "table_inv pk t rows \<longleftrightarrow> table_types t \<noteq> [] \<and> cols_inv (table_types t) (tb_columns t) rows \<and>
     rows_ok (table_types t) rows \<and> first_is_id (tb_schema t) = Inr pk \<and>
     (pk \<longrightarrow> hd (table_types t) = CT_DECIMAL \<and> (\<exists>ix. im_get_index (tb_index t) ''PK'' = Some ix \<and> idx_inv ix \<and>
        mset (idx_entries ix) = mset (pk_pairs rows) \<and> unat (bpt_npages ix) \<le> 1 + 2 * length rows))"

definition table_room :: "bool \<Rightarrow> table \<Rightarrow> nat \<Rightarrow> bool" where
  "table_room pk t n \<longleftrightarrow> (\<forall>ty \<in> set (table_types t). n \<le> cell_capacity ty) \<and> (pk \<longrightarrow> n \<le> 31500)"

lemma small_room: "n \<le> 31500 \<Longrightarrow> table_room pk t n"
  using le_trans [OF _ cell_capacity_bound, of n] by (simp add: table_room_def)

lemma cols_inv_rows:
  assumes "cols_inv tys cs rows" and "tys \<noteq> []"
  shows "cs \<noteq> []" "unat (cs_total_rows (hd cs)) = length rows"
  using assms fixed_inv_rows by (cases tys; cases cs; fastforce)+

lemma pk_pairs_snoc:
  "pk_pairs (rows @ [r]) = pk_pairs rows @ [(cell_key (hd r), of_nat (length rows))]"
proof -
  have "map (\<lambda>i. (cell_key (hd ((rows @ [r]) ! i)), of_nat i)) [0..<length rows] = pk_pairs rows"
    by (auto simp: pk_pairs_def nth_append)
  then show ?thesis by (simp add: pk_pairs_def)
qed

lemma insert_row_appends:
  assumes inv: "table_inv pk t rows" and row: "list_all2 cell_ok (table_types t) row"
    and room: "table_room pk t (Suc (length rows))"
  shows "\<exists>t'. insert_row t (map cell_db row) = Inr t' \<and> table_inv pk t' (rows @ [row]) \<and>
           tb_schema t' = tb_schema t \<and> tb_name t' = tb_name t"
proof -
  have I: "table_types t \<noteq> []" "cols_inv (table_types t) (tb_columns t) rows" "rows_ok (table_types t) rows"
    "first_is_id (tb_schema t) = Inr pk"
    using inv by (simp_all add: table_inv_def)
  note cols = cols_inv_rows [OF I(2,1)]
  obtain cs' where cs': "insert_values (tb_columns t) (map cell_db row) = Inr cs'"
    "cols_inv (table_types t) cs' (rows @ [row])"
    using insert_values_appends [OF I(2) row] room by (auto simp: table_room_def Suc_le_eq)
  have rows: "rows_ok (table_types t) (rows @ [row])" using I(3) row by (simp add: rows_ok_def)
  show ?thesis
  proof (cases pk)
    case False
    then show ?thesis
      using cols(1) cs' I rows by (auto simp: insert_row_def table_inv_def Let_def)
  next
    case True
    obtain ix where ix: "im_get_index (tb_index t) ''PK'' = Some ix" "idx_inv ix"
      "mset (idx_entries ix) = mset (pk_pairs rows)" "unat (bpt_npages ix) \<le> 1 + 2 * length rows"
      and dec: "hd (table_types t) = CT_DECIMAL"
      using inv True by (auto simp: table_inv_def)
    obtain w ws where w: "row = CNum w # ws"
      using row dec I(1) cell_okD by (cases "table_types t") (fastforce simp: list_all2_Cons1)+
    have len: "length (idx_entries ix) = length rows"
      using arg_cong [OF ix(3), of size] by (simp add: pk_pairs_def)
    have "unat (bpt_npages ix) + 2 \<le> max_pages" "length (idx_entries ix) < 31500"
      using ix(4) room True len by (simp_all add: table_room_def max_pages_def)
    then obtain ix' where ix': "bpt_insert ix w (cs_total_rows (hd (tb_columns t))) = Inr ix'" "idx_inv ix'"
      "unat (bpt_npages ix') \<le> unat (bpt_npages ix) + 2"
      "mset (idx_entries ix') = add_mset (w, cs_total_rows (hd (tb_columns t))) (mset (idx_entries ix))"
      using idx_insert_law [OF ix(2)] by blast
    have "cs_total_rows (hd (tb_columns t)) = of_nat (length rows)" using cols(2) by (metis of_nat_unat ucast_id)
    then have "mset (idx_entries ix') = mset (pk_pairs (rows @ [row]))"
      using ix'(4) ix(3) w by (simp add: pk_pairs_snoc)
    moreover have "unat (bpt_npages ix') \<le> 1 + 2 * length (rows @ [row])" using ix'(3) ix(4) by simp
    ultimately show ?thesis
      using cols(1) cs' I rows ix(1) ix'(1,2) w dec True
      by (simp add: insert_row_def table_inv_def Let_def read_i64_def im_get_index_def)
  qed
qed

lemma materialize_row_nth:
  assumes "table_inv pk t rows"
  shows "\<exists>t'. materialize_row t rid = Inr (if unat rid < length rows then map cell_db (rows ! unat rid)
      else map (\<lambda>d. cell_value (cd_type d) None) (sc_columns (tb_schema t)), t') \<and> table_inv pk t' rows \<and>
    tb_schema t' = tb_schema t \<and> tb_index t' = tb_index t"
proof -
  obtain cs' where "read_cells (sc_columns (tb_schema t)) (tb_columns t) rid =
      Inr (if unat rid < length rows then map cell_db (rows ! unat rid)
           else map (\<lambda>d. cell_value (cd_type d) None) (sc_columns (tb_schema t)), cs')"
    "cols_inv (table_types t) cs' rows"
    using read_cells_nth [of "sc_columns (tb_schema t)" "tb_columns t" rows rid] assms by (auto simp: table_inv_def)
  then show ?thesis using assms by (auto simp: materialize_row_def table_inv_def)
qed

section \<open>New and cleared tables\<close>

text \<open>Files as the pager opens them, with any contents.\<close>

definition disk_files :: "(string \<Rightarrow> nat \<Rightarrow> 'p) \<Rightarrow> string \<Rightarrow> 'p pager res" where
  "disk_files contents path = pager_open True True True (contents path)"

definition schema_ok :: "schema \<Rightarrow> bool" where
  "schema_ok sc \<longleftrightarrow> sc_columns sc \<noteq> [] \<and>
     list_all (\<lambda>d. cd_terminated d \<and> (cd_type d = CT_DECIMAL \<or> cd_type d = CT_VARCHAR)) (sc_columns sc) \<and>
     distinct (map cd_name (sc_columns sc)) \<and>
     (cd_name (hd (sc_columns sc)) = ''ID'' \<longrightarrow> cd_type (hd (sc_columns sc)) = CT_DECIMAL)"

definition has_pk :: "schema \<Rightarrow> bool" where
  "has_pk sc \<longleftrightarrow> cd_name (hd (sc_columns sc)) = ''ID''"

lemma fixed_inv_empty:
  assumes "cm_inv (cs_cm s)" "cm_npages (cs_cm s) = 0" "cs_total_rows s = 0" "cs_active s = None"
  shows "fixed_inv (cell_size ty) s []"
  using slot_format.col_inv_empty [OF cell_format assms] by (simp add: fixed_inv_def)

lemma open_columns_empty:
  assumes "list_all cd_terminated ds"
  shows "\<exists>cs. open_columns (disk_files contents) dir name ds = Inr cs \<and> cols_inv (map cd_type ds) cs []"
  using assms
proof (induction ds)
  case (Cons d ds)
  let ?pg = "\<lparr>pg_mem = contents (column_path dir name (cd_name d)), pg_disk = contents (column_path dir name (cd_name d)),
      pg_num_pages = 0\<rparr>"
  obtain c where "col_open ?pg = Inr c" "fixed_inv (cell_size (cd_type d)) c []"
    using col_open_empty [of ?pg] fixed_inv_empty by auto
  then show ?case using Cons by (auto simp: col_name_def disk_files_def pager_open_def)
qed simp

lemma first_is_id_ok: "schema_ok sc \<Longrightarrow> first_is_id sc = Inr (has_pk sc)"
  by (auto simp: first_is_id_def schema_ok_def has_pk_def col_name_def neq_Nil_conv)

lemma table_open_empty:
  assumes "schema_ok sc"
  shows "\<exists>t. table_open (disk_files contents) (disk_files idx) dir name sc = Inr t \<and>
           table_inv (has_pk sc) t [] \<and> tb_schema t = sc \<and> tb_name t = name"
proof -
  have ds: "list_all cd_terminated (sc_columns sc)" using assms by (auto simp: schema_ok_def list_all_iff)
  obtain cs where cs: "open_columns (disk_files contents) dir name (sc_columns sc) = Inr cs"
    "cols_inv (map cd_type (sc_columns sc)) cs []"
    using open_columns_empty [OF ds] by blast
  have types: "sc_columns sc \<noteq> []" "has_pk sc \<longrightarrow> cd_type (hd (sc_columns sc)) = CT_DECIMAL"
    using assms by (simp_all add: schema_ok_def has_pk_def)
  show ?thesis
  proof (cases "has_pk sc")
    case False
    then show ?thesis
      using cs types first_is_id_ok [OF assms] by (simp add: table_open_def table_inv_def rows_ok_def)
  next
    case True
    obtain ix where ix: "rbind (disk_files idx (dir @ ''/'' @ name @ ''_PK.idx'')) bpt_open = Inr ix" "idx_inv ix"
      "bpt_tree ix = at_empty" "bpt_npages ix = 1"
      using bpt_open_spec [of "\<lparr>pg_mem = idx (dir @ ''/'' @ name @ ''_PK.idx''),
          pg_disk = idx (dir @ ''/'' @ name @ ''_PK.idx''), pg_num_pages = 0\<rparr>"]
      by (auto simp: disk_files_def pager_open_def)
    have "idx_entries ix = []" using ix(3) by (simp add: idx_entries_def at_entries_def at_empty_def)
    moreover have "im_create_index Map.empty ''PK'' (disk_files idx (dir @ ''/'' @ name @ ''_PK.idx'')) =
        Inr [''PK'' \<mapsto> ix]"
      using ix(1) by (simp add: im_create_index_def disk_files_def pager_open_def)
    ultimately show ?thesis
      using cs types first_is_id_ok [OF assms] True ix(2,4)
      by (simp add: table_open_def table_inv_def rows_ok_def im_get_index_def pk_pairs_def hd_map)
  qed
qed

lemma insert_rows_append:
  assumes "table_inv pk t rows" and "rows_ok (table_types t) news" and "table_room pk t (length rows + length news)"
  shows "\<exists>t'. rfold (\<lambda>r t. insert_row t (map cell_db r)) news t = Inr t' \<and> table_inv pk t' (rows @ news) \<and>
           tb_schema t' = tb_schema t"
proof (rule rfold_invariant)
  show "table_inv pk t (rows @ []) \<and> tb_schema t = tb_schema t" using assms(1) by simp
next
  fix ys x zs u
  assume news: "news = ys @ x # zs" and u: "table_inv pk u (rows @ ys) \<and> tb_schema u = tb_schema t"
  have "list_all2 cell_ok (table_types u) x" using assms(2) news u by (simp add: rows_ok_def)
  moreover have "table_room pk u (Suc (length (rows @ ys)))"
    using assms(3) news u by (fastforce simp: table_room_def)
  ultimately show "\<exists>t'. insert_row u (map cell_db x) = Inr t' \<and>
      table_inv pk t' (rows @ ys @ [x]) \<and> tb_schema t' = tb_schema t"
    using insert_row_appends [of pk u "rows @ ys" x] u by auto
qed

lemma cols_inv_clear:
  "cols_inv tys cs rows \<Longrightarrow> cols_inv tys (map col_clear cs) []"
proof (induction tys cs rows rule: cols_inv.induct)
  case (2 ty tys c cs rows)
  have "cm_inv (cs_cm c)" using "2.prems" by (simp add: fixed_inv_def slot_format.col_inv_def [OF cell_format])
  then show ?case using 2 fixed_inv_empty [OF col_clear_empty] by simp
qed auto

text \<open>What the index says about the rows.\<close>

lemma pk_pairs_set:
  "(k, v) \<in> set (pk_pairs rows) \<longleftrightarrow> (\<exists>i < length rows. k = cell_key (hd (rows ! i)) \<and> v = of_nat i)"
  by (auto simp: pk_pairs_def)

lemma pk_search:
  assumes "table_inv True t rows" and "length rows < 2 ^ 64"
  shows "\<exists>ix r ix'. im_get_index (tb_index t) ''PK'' = Some ix \<and> bpt_search ix k = Inr (r, ix') \<and>
    table_inv True (t\<lparr>tb_index := (tb_index t)(''PK'' \<mapsto> ix')\<rparr>) rows \<and>
    (case r of None \<Rightarrow> \<forall>row \<in> set rows. cell_key (hd row) \<noteq> k
     | Some rid \<Rightarrow> unat rid < length rows \<and> cell_key (hd (rows ! unat rid)) = k)"
proof -
  obtain ix where ix: "im_get_index (tb_index t) ''PK'' = Some ix" "idx_inv ix"
    "mset (idx_entries ix) = mset (pk_pairs rows)" "unat (bpt_npages ix) \<le> 1 + 2 * length rows"
    using assms(1) by (auto simp: table_inv_def)
  have set: "set (idx_entries ix) = set (pk_pairs rows)" using ix(3) by (metis set_mset_mset)
  obtain r ix' where r: "bpt_search ix k = Inr (r, ix')" "idx_inv ix'" "idx_entries ix' = idx_entries ix"
    "unat (bpt_npages ix') = unat (bpt_npages ix)"
    "case r of None \<Rightarrow> k \<notin> fst ` set (pk_pairs rows) | Some v \<Rightarrow> (k, v) \<in> set (pk_pairs rows)"
    using idx_search_law [OF ix(2), of k] unfolding set by blast
  have "case r of None \<Rightarrow> \<forall>row \<in> set rows. cell_key (hd row) \<noteq> k
     | Some rid \<Rightarrow> unat rid < length rows \<and> cell_key (hd (rows ! unat rid)) = k"
  proof (cases r)
    case None
    then have "k \<notin> fst ` set (pk_pairs rows)" using r(5) by simp
    then have "cell_key (hd (rows ! i)) \<noteq> k" if "i < length rows" for i using that by (force simp: pk_pairs_def)
    then show ?thesis using None by (simp add: all_set_conv_all_nth)
  next
    case (Some rid)
    then obtain i where i: "i < length rows" "k = cell_key (hd (rows ! i))" "rid = of_nat i"
      using r(5) by (auto simp: pk_pairs_set)
    have "unat rid = i" using i(1,3) assms(2) by (simp add: unat_of_nat)
    then show ?thesis using Some i by simp
  qed
  then show ?thesis
    using r ix assms(1) by (auto simp: table_inv_def im_get_index_def)
qed

section \<open>Properties of tables\<close>

text \<open>
  C8. A table is a list of rows with an exact primary-key index. For a schema of DECIMAL and
  VARCHAR columns (an ID column first being DECIMAL) and up to 31500 rows that fit it, every
  \<open>insert_row\<close> succeeds; then \<open>materialize_row\<close> returns the row with each row id, and the
  index finds, for each key, the id of a row with that key, and nothing for other keys.
\<close>

theorem table_roundtrip:
  assumes "schema_ok sc" and "rows_ok (map cd_type (sc_columns sc)) rows" and "length rows \<le> 31500"
  shows "\<exists>t t'. table_open (disk_files contents) (disk_files idx) dir name sc = Inr t \<and>
    rfold (\<lambda>r t. insert_row t (map cell_db r)) rows t = Inr t' \<and>
    (\<forall>rid. unat rid < length rows \<longrightarrow> (\<exists>t''. materialize_row t' rid = Inr (map cell_db (rows ! unat rid), t''))) \<and>
    (has_pk sc \<longrightarrow> (\<forall>k. \<exists>ix r ix'. im_get_index (tb_index t') ''PK'' = Some ix \<and> bpt_search ix k = Inr (r, ix') \<and>
       (case r of None \<Rightarrow> \<forall>row \<in> set rows. cell_key (hd row) \<noteq> k
        | Some rid \<Rightarrow> unat rid < length rows \<and> cell_key (hd (rows ! unat rid)) = k)))"
proof -
  obtain t where t: "table_open (disk_files contents) (disk_files idx) dir name sc = Inr t"
    "table_inv (has_pk sc) t []" "tb_schema t = sc"
    using table_open_empty [OF assms(1)] by blast
  have "table_room (has_pk sc) t (length [] + length rows)"
    using assms(3) small_room by simp
  then obtain t' where t': "rfold (\<lambda>r t. insert_row t (map cell_db r)) rows t = Inr t'"
    "table_inv (has_pk sc) t' rows"
    using insert_rows_append [OF t(2), of rows] assms(2) t(3) by auto
  have "\<exists>t''. materialize_row t' rid = Inr (map cell_db (rows ! unat rid), t'')" if "unat rid < length rows" for rid
    using materialize_row_nth [OF t'(2), of rid] that by auto
  moreover have "\<exists>ix r ix'. im_get_index (tb_index t') ''PK'' = Some ix \<and> bpt_search ix k = Inr (r, ix') \<and>
       (case r of None \<Rightarrow> \<forall>row \<in> set rows. cell_key (hd row) \<noteq> k
        | Some rid \<Rightarrow> unat rid < length rows \<and> cell_key (hd (rows ! unat rid)) = k)" if "has_pk sc" for k
    using pk_search [of t' rows k] t'(2) that assms(3) by auto
  ultimately show ?thesis using t(1) t'(1) by blast
qed

definition demo_schema :: schema where
  "demo_schema = \<lparr>sc_columns = [\<lparr>cd_name = ''ID'', cd_terminated = True, cd_type = CT_DECIMAL\<rparr>,
     \<lparr>cd_name = ''NAME'', cd_terminated = True, cd_type = CT_VARCHAR\<rparr>]\<rparr>"

theorem table_roundtrip_witness:
  "\<exists>t t' t''. table_open (disk_files (\<lambda>_ _. zero_page)) (disk_files (\<lambda>_ _. fresh_node LEAF)) ''data'' ''T'' demo_schema = Inr t \<and>
     rfold (\<lambda>r t. insert_row t (map cell_db r)) [[CNum 7, CStr ''Ann''], [CNum 9, CStr ''Bob'']] t = Inr t' \<and>
     materialize_row t' 1 = Inr (map cell_db [CNum 9, CStr ''Bob''], t'')"
proof -
  let ?rows = "[[CNum 7, CStr ''Ann''], [CNum 9, CStr ''Bob'']]"
  have pre: "schema_ok demo_schema" "rows_ok (map cd_type (sc_columns demo_schema)) ?rows" "length ?rows \<le> 31500"
    by (simp_all add: schema_ok_def demo_schema_def rows_ok_def char_nat_def)
  obtain t t' where t: "table_open (disk_files (\<lambda>_ _. zero_page)) (disk_files (\<lambda>_ _. fresh_node LEAF)) ''data'' ''T'' demo_schema = Inr t"
    "rfold (\<lambda>r t. insert_row t (map cell_db r)) ?rows t = Inr t'"
    "\<forall>rid. unat rid < length ?rows \<longrightarrow> (\<exists>t''. materialize_row t' rid = Inr (map cell_db (?rows ! unat rid), t''))"
    using table_roundtrip [OF pre] by blast
  show ?thesis using t(1,2) spec [OF t(3), of 1] by auto
qed

end
