(* ===== verification/JoinProofs.thy ===== *)
theory JoinProofs
  imports JoinModel TableProofs
begin

text \<open>
  The hash join computes the nested-loop join. Reads change the caches only: \<open>keeps\<close> says
  that every table still holds the rows it held, under whatever name it is used.
\<close>

section \<open>Reads keep the contents\<close>

definition tab_ok :: "tables \<Rightarrow> string \<Rightarrow> schema \<Rightarrow> bool \<Rightarrow> cell list list \<Rightarrow> bool" where
  "tab_ok tabs n sc pk rows \<longleftrightarrow> (\<exists>t. tabs n = Some t \<and> tb_schema t = sc \<and> table_inv pk t rows)"

definition keeps :: "tables \<Rightarrow> tables \<Rightarrow> bool" where
  "keeps tabs tabs' \<longleftrightarrow> dom tabs' = dom tabs \<and>
     (\<forall>m sc pk rows. tab_ok tabs m sc pk rows \<longrightarrow> tab_ok tabs' m sc pk rows)"

lemma keeps_refl [simp]: "keeps tabs tabs"
  by (simp add: keeps_def)

lemma keeps_trans [trans]: "keeps a b \<Longrightarrow> keeps b c \<Longrightarrow> keeps a c"
  by (simp add: keeps_def)

lemma keepsD: "keeps a b \<Longrightarrow> tab_ok a m sc pk rows \<Longrightarrow> tab_ok b m sc pk rows"
  by (simp add: keeps_def)

lemma keeps_upd:
  assumes "tabs n = Some t" and "tb_schema t' = tb_schema t"
    and "\<And>pk rows. table_inv pk t rows \<Longrightarrow> table_inv pk t' rows"
  shows "keeps tabs (tabs(n \<mapsto> t'))"
  using assms by (auto simp: keeps_def tab_ok_def)

lemma materialize_in_ok:
  assumes "tab_ok tabs n sc pk rows" and "unat rid < length rows"
  shows "\<exists>tabs'. materialize_in n rid tabs = Inr (map cell_db (rows ! unat rid), tabs') \<and> keeps tabs tabs'"
proof -
  obtain t where t: "tabs n = Some t" "tb_schema t = sc" "table_inv pk t rows"
    using assms(1) by (auto simp: tab_ok_def)
  obtain t' where t': "materialize_row t rid = Inr (map cell_db (rows ! unat rid), t')"
    using materialize_row_nth [OF t(3), of rid] assms(2) by auto
  have "table_inv pk' t' rows'" "tb_schema t' = tb_schema t" if "table_inv pk' t rows'" for pk' rows'
    using materialize_row_nth [OF that, of rid] t' by auto
  then have "keeps tabs (tabs(n \<mapsto> t'))" using t(1,3) by (intro keeps_upd [of tabs n t]) auto
  then show ?thesis using t(1) t' by (auto simp: materialize_in_def table_of_def)
qed

lemma cols_inv_nth:
  assumes "cols_inv tys cs rows" and "rows_ok tys rows" and "c < length tys"
  shows "c < length cs \<and> fixed_inv (cell_size (tys ! c)) (cs ! c) (map (\<lambda>r. cell_buf (r ! c)) rows) \<and>
    (\<forall>col. fixed_inv (cell_size (tys ! c)) col (map (\<lambda>r. cell_buf (r ! c)) rows) \<longrightarrow> cols_inv tys (cs[c := col]) rows)"
  using assms
proof (induction tys cs rows arbitrary: c rule: cols_inv.induct)
  case (2 ty tys k cs rows)
  have ok: "\<forall>r \<in> set rows. r \<noteq> []" "rows_ok tys (map tl rows)" using "2.prems"(2) by (simp_all add: rows_ok_Cons)
  show ?case
  proof (cases c)
    case 0
    have eq: "map (\<lambda>r. cell_buf (r ! 0)) rows = map (\<lambda>r. cell_buf (hd r)) rows"
      using ok(1) by (simp add: hd_conv_nth)
    show ?thesis using "2.prems"(1) unfolding 0 by (simp add: eq)
  next
    case (Suc d)
    have eq: "map (\<lambda>r. cell_buf (r ! Suc d)) rows = map (\<lambda>r. cell_buf (r ! d)) (map tl rows)"
      using ok(1) by (auto simp: neq_Nil_conv)
    have "d < length cs \<and> fixed_inv (cell_size (tys ! d)) (cs ! d) (map (\<lambda>r. cell_buf (r ! d)) (map tl rows)) \<and>
        (\<forall>col. fixed_inv (cell_size (tys ! d)) col (map (\<lambda>r. cell_buf (r ! d)) (map tl rows)) \<longrightarrow>
           cols_inv tys (cs[d := col]) (map tl rows))"
      using Suc "2.prems" ok(2) by (intro "2.IH") simp_all
    then show ?thesis using "2.prems"(1) unfolding Suc eq by simp
  qed
qed simp_all

lemma rows_ok_nth:
  assumes "rows_ok tys rows" and "i < length rows" and "c < length tys"
  shows "cell_ok (tys ! c) (rows ! i ! c)"
  using assms by (simp add: rows_ok_def list_all2_nthD)

lemma read_key_ok:
  assumes ok: "tab_ok tabs n sc pk rows" and c: "c < length (sc_columns sc)" "cd_type (sc_columns sc ! c) = CT_DECIMAL"
    and rid: "unat rid < length rows"
  shows "\<exists>tabs'. read_key n c rid tabs = Inr (Some (cell_key (rows ! unat rid ! c)), tabs') \<and> keeps tabs tabs'"
proof -
  obtain t where t: "tabs n = Some t" "tb_schema t = sc" "table_inv pk t rows"
    using ok by (auto simp: tab_ok_def)
  have ty: "table_types t ! c = CT_DECIMAL" "c < length (table_types t)" using t(2) c by simp_all
  have inv: "cols_inv (table_types t) (tb_columns t) rows" "rows_ok (table_types t) rows"
    using t(3) by (simp_all add: table_inv_def)
  note n = cols_inv_nth [OF inv ty(2)]
  let ?col = "tb_columns t ! c"
  have sz: "cell_size (table_types t ! c) = 8" using ty(1) by (simp add: cell_size_def)
  obtain w where w: "rows ! unat rid ! c = CNum w"
    using cell_okD [OF rows_ok_nth [OF inv(2) rid ty(2)]] ty(1) by auto
  obtain cm where cm: "read_at (cs_cm ?col) rid 8 =
      Inr (Some (take 8 (cell_buf (rows ! unat rid ! c))), cm)"
    using fixed_inv_read [of "table_types t ! c" ?col "map (\<lambda>r. cell_buf (r ! c)) rows" rid] n rid sz by auto
  define t' where "t' = t\<lparr>tb_columns := (tb_columns t)[c := ?col\<lparr>cs_cm := cm\<rparr>]\<rparr>"
  have "table_inv pk' t' rows'" if "table_inv pk' t rows'" for pk' rows'
  proof -
    have inv': "cols_inv (table_types t) (tb_columns t) rows'" "rows_ok (table_types t) rows'"
      using that by (simp_all add: table_inv_def)
    note n' = cols_inv_nth [OF inv' ty(2)]
    have "fixed_inv (cell_size (table_types t ! c)) (?col\<lparr>cs_cm := cm\<rparr>) (map (\<lambda>r. cell_buf (r ! c)) rows')"
      using fixed_inv_read [of "table_types t ! c" ?col "map (\<lambda>r. cell_buf (r ! c)) rows'" rid] n' cm sz by auto
    then show ?thesis using that n' by (simp add: table_inv_def t'_def)
  qed
  then have "keeps tabs (tabs(n \<mapsto> t'))" using t(1) by (intro keeps_upd [of tabs n t]) (simp_all add: t'_def)
  moreover have "get_column t c = Some ?col" using n by (simp add: get_column_def)
  ultimately show ?thesis
    using t(1) cm w by (auto simp: read_key_def table_of_def t'_def pad_to_def)
qed

lemma column_rows_ok:
  assumes "tab_ok tabs n sc pk rows" and "c < length (sc_columns sc)"
  shows "\<exists>w. column_rows tabs n c = Inr w \<and> unat w = length rows"
proof -
  obtain t where t: "tabs n = Some t" "tb_schema t = sc" "table_inv pk t rows"
    using assms(1) by (auto simp: tab_ok_def)
  have "c < length (tb_columns t) \<and> fixed_inv (cell_size (table_types t ! c)) (tb_columns t ! c) (map (\<lambda>r. cell_buf (r ! c)) rows)"
    using cols_inv_nth [of "table_types t" "tb_columns t" rows c] t assms(2) by (simp add: table_inv_def)
  then show ?thesis
    using t(1) fixed_inv_rows by (fastforce simp: column_rows_def table_of_def get_column_def)
qed

section \<open>The two phases\<close>

text \<open>
  The loops depend on the key column through the reads only: \<open>reads_keys\<close> says that reading
  row \<open>i\<close> gives \<open>K i\<close>, from the given tables on.
\<close>

definition reads_keys :: "tables \<Rightarrow> string \<Rightarrow> nat \<Rightarrow> nat \<Rightarrow> (nat \<Rightarrow> u64) \<Rightarrow> bool" where
  "reads_keys tabs n c len K \<longleftrightarrow> (\<forall>tabs' i. keeps tabs tabs' \<longrightarrow> i < len \<longrightarrow>
     (\<exists>tabs''. read_key n c (of_nat i) tabs' = Inr (Some (K i), tabs'') \<and> keeps tabs' tabs''))"

lemma reads_keysD:
  assumes "reads_keys tabs n c len K" and "keeps tabs tabs'" and "i < len"
  shows "\<exists>tabs''. read_key n c (of_nat i) tabs' = Inr (Some (K i), tabs'') \<and> keeps tabs tabs''"
  using assms keeps_trans unfolding reads_keys_def by blast

lemma reads_keys_keeps: "keeps tabs tabs' \<Longrightarrow> reads_keys tabs n c len K \<Longrightarrow> reads_keys tabs' n c len K"
  unfolding reads_keys_def using keeps_trans by blast

lemma reads_keys_decimal:
  assumes ok: "tab_ok tabs n sc pk rows" and c: "c < length (sc_columns sc)" "cd_type (sc_columns sc ! c) = CT_DECIMAL"
    and len: "length rows < 2 ^ 64"
  shows "reads_keys tabs n c (length rows) (\<lambda>i. cell_key (rows ! i ! c))"
  unfolding reads_keys_def
proof (intro allI impI)
  fix tabs' i assume k: "keeps tabs tabs'" and i: "i < length rows"
  have "unat (of_nat i :: u64) = i" using i len by (simp add: unat_of_nat)
  then show "\<exists>tabs''. read_key n c (of_nat i) tabs' = Inr (Some (cell_key (rows ! i ! c)), tabs'') \<and> keeps tabs' tabs''"
    using read_key_ok [OF keepsD [OF k ok] c, of "of_nat i"] i by simp
qed

definition bucket :: "(nat \<Rightarrow> u64) \<Rightarrow> nat \<Rightarrow> u64 \<Rightarrow> nat list" where
  "bucket K n k = filter (\<lambda>i. K i = k) [0..<n]"

lemma build_phase:
  assumes reads: "reads_keys tabs n c len K"
  shows "\<exists>tabs'. rfold (build_step n c) [0..<len] (tabs, \<lambda>_. []) =
           Inr (tabs', \<lambda>k. map of_nat (bucket K len k)) \<and> keeps tabs tabs'"
proof -
  have "\<exists>st. rfold (build_step n c) [0..<len] (tabs, \<lambda>_. []) = Inr st \<and>
      (keeps tabs (fst st) \<and> snd st = (\<lambda>k. map of_nat (bucket K len k)))"
  proof (rule rfold_upt)
    fix i and st :: "tables \<times> (u64 \<Rightarrow> u64 list)"
    assume i: "i < len" and st: "keeps tabs (fst st) \<and> snd st = (\<lambda>k. map of_nat (bucket K i k))"
    obtain tabs' where t': "read_key n c (of_nat i) (fst st) = Inr (Some (K i), tabs')" "keeps tabs tabs'"
      using reads_keysD [OF reads _ i] st by blast
    have "(snd st)(K i := snd st (K i) @ [of_nat i]) = (\<lambda>k. map of_nat (bucket K (Suc i) k))"
      using st by (auto simp: bucket_def)
    then show "\<exists>st'. build_step n c i st = Inr st' \<and>
        keeps tabs (fst st') \<and> snd st' = (\<lambda>k. map of_nat (bucket K (Suc i) k))"
      using t' by (auto simp: build_step_def split_beta)
  qed (simp add: bucket_def)
  then show ?thesis by (metis prod.collapse)
qed

definition joined :: "cell list list \<Rightarrow> (nat \<Rightarrow> u64) \<Rightarrow> cell list list \<Rightarrow> (nat \<Rightarrow> u64) \<Rightarrow> nat \<Rightarrow> cell list list" where
  "joined rows1 K1 rows2 K2 i = map (\<lambda>j. rows1 ! i @ rows2 ! j) (bucket K2 (length rows2) (K1 i))"

lemma probe_phase:
  fixes K2 :: "nat \<Rightarrow> u64"
  assumes ok1: "tab_ok tabs n1 sc1 pk1 rows1" and ok2: "tab_ok tabs n2 sc2 pk2 rows2"
    and reads: "reads_keys tabs n1 c1 (length rows1) K1"
    and len: "length rows1 < 2 ^ 64" "length rows2 < 2 ^ 64"
  defines "ht \<equiv> (\<lambda>k. map of_nat (bucket K2 (length rows2) k))"
  shows "\<exists>tabs'. rfold (probe_step n1 c1 n2 ht) [0..<length rows1] (tabs, []) =
      Inr (tabs', map (map cell_db) (concat (map (joined rows1 K1 rows2 K2) [0..<length rows1]))) \<and> keeps tabs tabs'"
proof -
  have "\<exists>st. rfold (probe_step n1 c1 n2 ht) [0..<length rows1] (tabs, []) = Inr st \<and>
      (keeps tabs (fst st) \<and> snd st = map (map cell_db) (concat (map (joined rows1 K1 rows2 K2) [0..<length rows1])))"
  proof (rule rfold_upt)
    fix i and st :: "tables \<times> dbrow list"
    assume i: "i < length rows1"
      and st: "keeps tabs (fst st) \<and> snd st = map (map cell_db) (concat (map (joined rows1 K1 rows2 K2) [0..<i]))"
    have u: "unat (of_nat i :: u64) = i" using i len(1) by (simp add: unat_of_nat)
    let ?js = "bucket K2 (length rows2) (K1 i)"
    obtain ta where ta: "read_key n1 c1 (of_nat i) (fst st) = Inr (Some (K1 i), ta)" "keeps tabs ta"
      using reads_keysD [OF reads _ i] st by blast
    obtain tb where tb: "materialize_in n1 (of_nat i) ta = Inr (map cell_db (rows1 ! i), tb)" "keeps tabs tb"
      using materialize_in_ok [OF keepsD [OF ta(2) ok1], of "of_nat i"] i u ta(2) keeps_trans by auto
    have step: "\<exists>t'. materialize_in n2 r t = Inr (map cell_db (rows2 ! unat r), t') \<and> keeps tabs t'"
      if "r \<in> set (map of_nat ?js)" "keeps tabs t" for r t
    proof -
      have "unat r < length rows2" using that(1) len(2) by (auto simp: bucket_def unat_of_nat)
      then show ?thesis using materialize_in_ok [OF keepsD [OF that(2) ok2]] that(2) keeps_trans by blast
    qed
    have "\<exists>tc. rmap (materialize_in n2) (map of_nat ?js) tb =
        Inr (map (\<lambda>r. map cell_db (rows2 ! unat r)) (map of_nat ?js :: u64 list), tc) \<and> keeps tabs tc"
      by (rule rmap_pure [where P = "keeps tabs", OF tb(2) step])
    then obtain tc where tc: "rmap (materialize_in n2) (map of_nat ?js) tb =
        Inr (map (\<lambda>r. map cell_db (rows2 ! unat r)) (map of_nat ?js :: u64 list), tc)" "keeps tabs tc" by blast
    have rows2: "map (\<lambda>r. map cell_db (rows2 ! unat r)) (map of_nat ?js :: u64 list) = map (\<lambda>j. map cell_db (rows2 ! j)) ?js"
      using len(2) by (auto simp: bucket_def unat_of_nat)
    show "\<exists>st'. probe_step n1 c1 n2 ht i st = Inr st' \<and> keeps tabs (fst st') \<and>
        snd st' = map (map cell_db) (concat (map (joined rows1 K1 rows2 K2) [0..<Suc i]))"
    proof (cases "?js = []")
      case True
      then show ?thesis
        using ta st by (auto simp: probe_step_def ht_def joined_def split_beta)
    next
      case False
      then have "probe_step n1 c1 n2 ht i st =
          Inr (tc, snd st @ map (\<lambda>row2. map cell_db (rows1 ! i) @ row2) (map (\<lambda>j. map cell_db (rows2 ! j)) ?js))"
        using ta(1) tb(1) tc(1) unfolding rows2 by (simp add: probe_step_def ht_def split_beta)
      then show ?thesis using tc(2) st by (simp add: joined_def)
    qed
  qed simp
  then show ?thesis by (metis prod.collapse)
qed

section \<open>The nested-loop join\<close>

definition nested_join :: "cell list list \<Rightarrow> nat \<Rightarrow> cell list list \<Rightarrow> nat \<Rightarrow> cell list list" where
  "nested_join rows1 c1 rows2 c2 =
     concat (map (\<lambda>r1. map (\<lambda>r2. r1 @ r2) (filter (\<lambda>r2. r2 ! c2 = r1 ! c1) rows2)) rows1)"

lemma map_nth_filter: "map (\<lambda>j. f (xs ! j)) (filter (\<lambda>j. P (xs ! j)) [0..<length xs]) = map f (filter P xs)"
proof -
  have "map f (filter P xs) = map f (filter P (map ((!) xs) [0..<length xs]))" by (simp add: map_nth)
  also have "\<dots> = map (\<lambda>j. f (xs ! j)) (filter (\<lambda>j. P (xs ! j)) [0..<length xs])"
    by (simp add: filter_map comp_def)
  finally show ?thesis by simp
qed

lemma joined_nested:
  assumes ok1: "rows_ok tys1 rows1" "c1 < length tys1" "tys1 ! c1 = CT_DECIMAL"
    and ok2: "rows_ok tys2 rows2" "c2 < length tys2" "tys2 ! c2 = CT_DECIMAL"
  shows "concat (map (joined rows1 (\<lambda>i. cell_key (rows1 ! i ! c1)) rows2 (\<lambda>j. cell_key (rows2 ! j ! c2))) [0..<length rows1]) = nested_join rows1 c1 rows2 c2"
proof -
  have num: "\<exists>w. rows ! i ! c = CNum w" if "rows_ok tys rows" "c < length tys" "tys ! c = CT_DECIMAL" "i < length rows"
    for tys rows i c
    using cell_okD [OF rows_ok_nth [OF that(1,4,2)]] that(3) by auto
  have "joined rows1 (\<lambda>i. cell_key (rows1 ! i ! c1)) rows2 (\<lambda>j. cell_key (rows2 ! j ! c2)) i = map (\<lambda>r2. rows1 ! i @ r2) (filter (\<lambda>r2. r2 ! c2 = rows1 ! i ! c1) rows2)"
    if i: "i < length rows1" for i
  proof -
    have "cell_key (rows2 ! j ! c2) = cell_key (rows1 ! i ! c1) \<longleftrightarrow> rows2 ! j ! c2 = rows1 ! i ! c1"
      if "j < length rows2" for j
      using num [OF ok1 i] num [OF ok2 that] by auto
    then have "bucket (\<lambda>j. cell_key (rows2 ! j ! c2)) (length rows2) (cell_key (rows1 ! i ! c1)) =
        filter (\<lambda>j. rows2 ! j ! c2 = rows1 ! i ! c1) [0..<length rows2]"
      unfolding bucket_def by (intro filter_cong) simp_all
    then show ?thesis
      using map_nth_filter [of "\<lambda>r2. rows1 ! i @ r2" rows2 "\<lambda>r2. r2 ! c2 = rows1 ! i ! c1"]
      by (simp add: joined_def)
  qed
  then have "map (joined rows1 (\<lambda>i. cell_key (rows1 ! i ! c1)) rows2 (\<lambda>j. cell_key (rows2 ! j ! c2))) [0..<length rows1] =
      map (\<lambda>i. map (\<lambda>r2. rows1 ! i @ r2) (filter (\<lambda>r2. r2 ! c2 = rows1 ! i ! c1) rows2)) [0..<length rows1]"
    by simp
  also have "\<dots> = map (\<lambda>r1. map (\<lambda>r2. r1 @ r2) (filter (\<lambda>r2. r2 ! c2 = r1 ! c1) rows2)) rows1"
    by (rule nth_equalityI) simp_all
  finally show ?thesis by (simp add: nested_join_def)
qed

lemma table_inv_length:
  assumes "tab_ok tabs n sc pk rows"
  shows "length rows < 2 ^ 64"
proof -
  obtain t where t: "table_inv pk t rows" using assms by (auto simp: tab_ok_def)
  then have "unat (cs_total_rows (hd (tb_columns t))) = length rows"
    using cols_inv_rows by (auto simp: table_inv_def)
  moreover have "unat (cs_total_rows (hd (tb_columns t))) < 2 ^ LENGTH(64)" by (rule unsigned_less)
  ultimately show ?thesis by simp
qed

text \<open>Whatever the key reads give, the join pairs the rows whose keys are equal.\<close>

lemma hash_join_keys:
  assumes ok1: "tab_ok tabs n1 sc1 pk1 rows1" and ok2: "tab_ok tabs n2 sc2 pk2 rows2"
    and c1: "find_column (sc_columns sc1) col1 = Inr (Some c1)" "c1 < length (sc_columns sc1)"
      "reads_keys tabs n1 c1 (length rows1) K1"
    and c2: "find_column (sc_columns sc2) col2 = Inr (Some c2)" "c2 < length (sc_columns sc2)"
      "reads_keys tabs n2 c2 (length rows2) K2"
  shows "\<exists>tabs'. hash_join tabs n1 n2 col1 col2 =
      Inr (map (map cell_db) (concat (map (joined rows1 K1 rows2 K2) [0..<length rows1])), tabs') \<and> keeps tabs tabs'"
proof -
  obtain t1 t2 where t: "tabs n1 = Some t1" "tb_schema t1 = sc1" "tabs n2 = Some t2" "tb_schema t2 = sc2"
    using ok1 ok2 by (auto simp: tab_ok_def)
  note len = table_inv_length [OF ok1] table_inv_length [OF ok2]
  obtain w2 where w2: "column_rows tabs n2 c2 = Inr w2" "unat w2 = length rows2"
    using column_rows_ok [OF ok2 c2(2)] by blast
  obtain ta where ta: "rfold (build_step n2 c2) [0..<length rows2] (tabs, \<lambda>_. []) =
      Inr (ta, \<lambda>k. map of_nat (bucket K2 (length rows2) k))" "keeps tabs ta"
    using build_phase [OF c2(3)] by blast
  note ok1' = keepsD [OF ta(2) ok1] and ok2' = keepsD [OF ta(2) ok2]
  obtain w1 where w1: "column_rows ta n1 c1 = Inr w1" "unat w1 = length rows1"
    using column_rows_ok [OF ok1' c1(2)] by blast
  obtain tb where tb: "rfold (probe_step n1 c1 n2 (\<lambda>k. map of_nat (bucket K2 (length rows2) k))) [0..<length rows1] (ta, []) =
      Inr (tb, map (map cell_db) (concat (map (joined rows1 K1 rows2 K2) [0..<length rows1])))" "keeps ta tb"
    using probe_phase [OF ok1' ok2' reads_keys_keeps [OF ta(2) c1(3)] len] by blast
  have "hash_join tabs n1 n2 col1 col2 =
      Inr (map (map cell_db) (concat (map (joined rows1 K1 rows2 K2) [0..<length rows1])), tb)"
    using t c1(1) c2(1) w1 w2 ta(1) tb(1) by (simp add: hash_join_def table_of_def)
  then show ?thesis using keeps_trans [OF ta(2) tb(2)] by blast
qed

lemma hash_join_nested:
  assumes ok1: "tab_ok tabs n1 sc1 pk1 rows1" and ok2: "tab_ok tabs n2 sc2 pk2 rows2"
    and c1: "find_column (sc_columns sc1) col1 = Inr (Some c1)" "c1 < length (sc_columns sc1)"
      "cd_type (sc_columns sc1 ! c1) = CT_DECIMAL"
    and c2: "find_column (sc_columns sc2) col2 = Inr (Some c2)" "c2 < length (sc_columns sc2)"
      "cd_type (sc_columns sc2 ! c2) = CT_DECIMAL"
  shows "\<exists>tabs'. hash_join tabs n1 n2 col1 col2 =
      Inr (map (map cell_db) (nested_join rows1 c1 rows2 c2), tabs') \<and> keeps tabs tabs'"
proof -
  obtain t1 t2 where t: "tb_schema t1 = sc1" "table_inv pk1 t1 rows1" "tb_schema t2 = sc2" "table_inv pk2 t2 rows2"
    using ok1 ok2 by (auto simp: tab_ok_def)
  note keys = reads_keys_decimal [OF ok1 c1(2,3) table_inv_length [OF ok1]]
    reads_keys_decimal [OF ok2 c2(2,3) table_inv_length [OF ok2]]
  show ?thesis
    using hash_join_keys [OF ok1 ok2 c1(1,2) keys(1) c2(1,2) keys(2)]
      joined_nested [of "table_types t1" rows1 c1 "table_types t2" rows2 c2] t c1(2,3) c2(2,3)
    by (simp add: table_inv_def)
qed

section \<open>The join of two tables\<close>

text \<open>
  C4. The hash join is the nested-loop join. For two tables whose join columns are DECIMAL, the
  result rows are, for each row of the left table in order, that row followed by each row of
  the right table, in order, with an equal value; both tables, and every other one, keep their
  rows. Duplicate keys on either side give every pair.
\<close>

theorem hash_join_equals_nested_loop:
  assumes "tab_ok tabs n1 sc1 pk1 rows1" and "tab_ok tabs n2 sc2 pk2 rows2"
    and "find_column (sc_columns sc1) col1 = Inr (Some c1)" "c1 < length (sc_columns sc1)"
      "cd_type (sc_columns sc1 ! c1) = CT_DECIMAL"
    and "find_column (sc_columns sc2) col2 = Inr (Some c2)" "c2 < length (sc_columns sc2)"
      "cd_type (sc_columns sc2 ! c2) = CT_DECIMAL"
  shows "\<exists>tabs'. hash_join tabs n1 n2 col1 col2 =
      Inr (map (map cell_db) [r1 @ r2. r1 \<leftarrow> rows1, r2 \<leftarrow> rows2, r2 ! c2 = r1 ! c1], tabs') \<and> keeps tabs tabs'"
proof -
  have "concat (map (\<lambda>x. if P x then [f x] else []) xs) = map f (filter P xs)" for P and f :: "cell list \<Rightarrow> cell list" and xs
    by (induction xs) auto
  then have "[r1 @ r2. r1 \<leftarrow> rows1, r2 \<leftarrow> rows2, r2 ! c2 = r1 ! c1] = nested_join rows1 c1 rows2 c2"
    by (simp add: nested_join_def)
  then show ?thesis using hash_join_nested [OF assms] by simp
qed

lemma demo_table:
  assumes "rows_ok (map cd_type (sc_columns demo_schema)) rows" and "length rows \<le> 31500"
  shows "\<exists>t. tb_schema t = demo_schema \<and> table_inv True t rows"
proof -
  have sc: "schema_ok demo_schema" "has_pk demo_schema" by (simp_all add: schema_ok_def demo_schema_def has_pk_def)
  obtain t where t: "table_inv True t []" "tb_schema t = demo_schema"
    using table_open_empty [OF sc(1), of "\<lambda>_ _. zero_page" "\<lambda>_ _. fresh_node LEAF" "''data''" "''T''"] sc(2) by auto
  have "table_room True t (length [] + length rows)"
    using assms(2) small_room by simp
  then show ?thesis using insert_rows_append [OF t(1), of rows] assms(1) t(2) by auto
qed

theorem hash_join_equals_nested_loop_witness:
  "\<exists>tabs tabs'. hash_join tabs ''A'' ''B'' ''ID'' ''ID'' = Inr (map (map cell_db)
     [[CNum 9, CStr ''Bob'', CNum 9, CStr ''x''], [CNum 9, CStr ''Bob'', CNum 9, CStr ''y'']], tabs')"
proof -
  let ?r1 = "[[CNum 7, CStr ''Ann''], [CNum 9, CStr ''Bob'']]" and ?r2 = "[[CNum 9, CStr ''x''], [CNum 9, CStr ''y'']]"
  obtain a b where ab: "tb_schema a = demo_schema" "table_inv True a ?r1" "tb_schema b = demo_schema" "table_inv True b ?r2"
    using demo_table [of ?r1] demo_table [of ?r2]
    by (auto simp: demo_schema_def rows_ok_def char_nat_def)
  let ?tabs = "[''A'' \<mapsto> a, ''B'' \<mapsto> b]"
  have ok: "tab_ok ?tabs ''A'' demo_schema True ?r1" "tab_ok ?tabs ''B'' demo_schema True ?r2"
    using ab by (simp_all add: tab_ok_def)
  have col: "find_column (sc_columns demo_schema) ''ID'' = Inr (Some 0)" "0 < length (sc_columns demo_schema)"
    "cd_type (sc_columns demo_schema ! 0) = CT_DECIMAL"
    by (simp_all add: demo_schema_def col_name_def)
  show ?thesis
    using hash_join_equals_nested_loop [OF ok col col] by auto
qed

end
