(* ===== verification/ExecProofs.thy ===== *)
theory ExecProofs
  imports ExecModel JoinProofs
begin

text \<open>
  What the statements compute, on tables that hold rows of DECIMAL and VARCHAR cells: a
  SELECT returns the projection of the filtered (and sorted) rows, with or without the index,
  and a join that of the nested-loop join.
\<close>

section \<open>Columns by name\<close>

definition names_ok :: "coldef list \<Rightarrow> bool" where
  "names_ok ds \<longleftrightarrow> list_all cd_terminated ds"

definition col_index :: "coldef list \<Rightarrow> string \<Rightarrow> nat option" where
  "col_index ds name = (let i = length (takeWhile (\<lambda>d. cd_name d \<noteq> name) ds) in if i < length ds then Some i else None)"

lemma find_column_eq: "names_ok ds \<Longrightarrow> find_column ds name = Inr (col_index ds name)"
proof (induction ds)
  case (Cons d ds)
  then show ?case by (auto simp: names_ok_def col_name_def col_index_def Let_def)
qed (simp add: col_index_def)

lemma col_index_less: "col_index ds name = Some i \<Longrightarrow> i < length ds"
  by (auto simp: col_index_def Let_def split: if_splits)

lemma schema_names_ok: "schema_ok sc \<Longrightarrow> names_ok (sc_columns sc)"
  by (auto simp: schema_ok_def names_ok_def list_all_iff)

section \<open>Reading all rows\<close>

lemma scan_rows_all:
  assumes ok: "tab_ok tabs n sc pk rows" and ne: "sc_columns sc \<noteq> []"
  shows "\<exists>tabs'. scan_rows n tabs = Inr (map (map cell_db) rows, tabs') \<and> keeps tabs tabs'"
proof -
  obtain w where w: "column_rows tabs n 0 = Inr w" "unat w = length rows"
    using column_rows_ok [OF ok, of 0] ne by auto
  have step: "\<exists>t'. materialize_in n (of_nat i) t = Inr (map cell_db (rows ! i), t') \<and> keeps tabs t'"
    if "i \<in> set [0..<length rows]" "keeps tabs t" for i t
  proof -
    have u: "unat (of_nat i :: u64) = i" using that(1) table_inv_length [OF ok] by (simp add: unat_of_nat)
    then show ?thesis
      using materialize_in_ok [OF keepsD [OF that(2) ok], of "of_nat i"] that keeps_trans by auto
  qed
  have "\<exists>t'. rmap (\<lambda>i. materialize_in n (of_nat i)) [0..<length rows] tabs =
      Inr (map (\<lambda>i. map cell_db (rows ! i)) [0..<length rows], t') \<and> keeps tabs t'"
    by (rule rmap_pure [where P = "keeps tabs", OF keeps_refl step])
  moreover have "map (\<lambda>i. map cell_db (rows ! i)) [0..<length rows] = map (map cell_db) rows"
    by (rule nth_equalityI) simp_all
  ultimately show ?thesis using w by (auto simp: scan_rows_def)
qed

section \<open>Conditions, projection\<close>

text \<open>The texts of cells, and the meaning of a condition.\<close>

fun cell_str :: "cell \<Rightarrow> string" where
  "cell_str (CNum w) = to_string (sint w)"
| "cell_str (CStr s) = s"

lemma cell_text_db: "cell_text (cell_db c) = Inr (cell_str c)"
  by (cases c) (simp_all add: cell_text_def read_i64_def)

fun where_sem :: "where_clause \<Rightarrow> cell \<Rightarrow> bool" where
  "where_sem w (CStr s) = (s = wh_value w)"
| "where_sem w (CNum x) = (case stoll (wh_value w) of Inl _ \<Rightarrow> False
     | Inr y \<Rightarrow> if wh_op w = ''='' then sint x = y else if wh_op w = ''>'' then sint x > y else sint x \<ge> y)"

text \<open>A condition that the executor can evaluate on a column of the given type.\<close>

definition where_fits :: "column_type \<Rightarrow> where_clause \<Rightarrow> bool" where
  "where_fits ty w \<longleftrightarrow> (ty = CT_VARCHAR \<and> wh_op w = ''='') \<or>
     (ty = CT_DECIMAL \<and> (wh_op w = ''='' \<or> wh_op w = ''>'' \<or> wh_op w = ''>='') \<and> (\<exists>y. stoll (wh_value w) = Inr y))"

text \<open>The columns of a query: those of the first table, then those of a joined one.\<close>

definition query_index :: "coldef list \<Rightarrow> coldef list option \<Rightarrow> string \<Rightarrow> nat option" where
  "query_index ds1 ds2 name = (case col_index ds1 name of Some i \<Rightarrow> Some i
     | None \<Rightarrow> (case ds2 of None \<Rightarrow> None | Some ds \<Rightarrow> map_option (\<lambda>i. length ds1 + i) (col_index ds name)))"

definition all_defs :: "coldef list \<Rightarrow> coldef list option \<Rightarrow> coldef list" where
  "all_defs ds1 ds2 = ds1 @ (case ds2 of None \<Rightarrow> [] | Some ds \<Rightarrow> ds)"

lemma locate_column_eq:
  assumes "names_ok (all_defs ds1 ds2)"
  shows "locate_column ds1 ds2 name = Inr (query_index ds1 ds2 name)"
  using assms
  by (auto simp: locate_column_def query_index_def all_defs_def names_ok_def find_column_eq [unfolded names_ok_def]
      split: option.splits)

lemma query_index_less: "query_index ds1 ds2 name = Some i \<Longrightarrow> i < length (all_defs ds1 ds2)"
  by (auto simp: query_index_def all_defs_def split: option.splits dest!: col_index_less)

definition row_fits :: "coldef list \<Rightarrow> cell list \<Rightarrow> bool" where
  "row_fits ds row \<longleftrightarrow> list_all2 cell_ok (map cd_type ds) row"

lemma row_fits_nth:
  assumes "row_fits ds row" and "i < length ds"
  shows "i < length row" "cell_ok (cd_type (ds ! i)) (row ! i)"
  using assms list_all2_nthD [of cell_ok "map cd_type ds" row i] by (auto simp: row_fits_def dest: list_all2_lengthD)

definition sem_row :: "coldef list \<Rightarrow> coldef list option \<Rightarrow> where_clause list \<Rightarrow> cell list \<Rightarrow> bool" where
  "sem_row ds1 ds2 ws row \<longleftrightarrow> (\<forall>w \<in> set ws. case query_index ds1 ds2 (wh_column w) of None \<Rightarrow> True
     | Some i \<Rightarrow> where_sem w (row ! i))"

definition wheres_fit :: "coldef list \<Rightarrow> coldef list option \<Rightarrow> where_clause list \<Rightarrow> bool" where
  "wheres_fit ds1 ds2 ws \<longleftrightarrow> (\<forall>w \<in> set ws. \<forall>i. query_index ds1 ds2 (wh_column w) = Some i \<longrightarrow>
     where_fits (cd_type (all_defs ds1 ds2 ! i)) w)"

lemma eval_where_eq:
  assumes names: "names_ok (all_defs ds1 ds2)" and fits: "row_fits (all_defs ds1 ds2) row"
    and w: "wheres_fit ds1 ds2 [w]"
  shows "eval_where ds1 ds2 (map cell_db row) w = Inr (sem_row ds1 ds2 [w] row)"
proof (cases "query_index ds1 ds2 (wh_column w)")
  case None
  then show ?thesis by (simp add: eval_where_def locate_column_eq [OF names] sem_row_def)
next
  case (Some i)
  note i = query_index_less [OF Some]
  note r = row_fits_nth [OF fits i]
  have wf: "where_fits (cd_type (all_defs ds1 ds2 ! i)) w" using w Some by (simp add: wheres_fit_def)
  show ?thesis
    using Some r cell_okD [OF r(2)] wf
    by (auto simp: eval_where_def locate_column_eq [OF names] sem_row_def where_fits_def read_i64_def Let_def)
qed

lemma match_row_eq:
  assumes "names_ok (all_defs ds1 ds2)" and "row_fits (all_defs ds1 ds2) row" and "wheres_fit ds1 ds2 ws"
  shows "match_row ds1 ds2 ws (map cell_db row) = Inr (sem_row ds1 ds2 ws row)"
  using assms(3)
proof (induction ws)
  case Nil
  then show ?case by (simp add: sem_row_def)
next
  case (Cons w ws)
  have "wheres_fit ds1 ds2 [w]" "wheres_fit ds1 ds2 ws" using Cons.prems by (auto simp: wheres_fit_def)
  then show ?case using eval_where_eq [OF assms(1,2)] Cons.IH by (auto simp: sem_row_def)
qed

lemma filter_rows_eq:
  assumes "\<forall>r \<in> set rows. P (f r) = Inr (Q r)"
  shows "filter_rows P (map f rows) = Inr (map f (filter Q rows))"
  using assms by (induction rows) auto

text \<open>The output of a list of rows: unknown columns print NULL.\<close>

definition project :: "coldef list \<Rightarrow> coldef list option \<Rightarrow> string list \<Rightarrow> cell list \<Rightarrow> string list" where
  "project ds1 ds2 cols row = map (\<lambda>c. case query_index ds1 ds2 c of None \<Rightarrow> ''NULL'' | Some i \<Rightarrow> cell_str (row ! i)) cols"

lemma row_texts_eq:
  assumes "names_ok (all_defs ds1 ds2)" and "row_fits (all_defs ds1 ds2) row"
  shows "row_texts ds1 ds2 (map cell_db row) cols = Inr (project ds1 ds2 cols row)"
proof (induction cols)
  case (Cons c cols)
  have "i < length row" if "query_index ds1 ds2 c = Some i" for i
    using row_fits_nth(1) [OF assms(2) query_index_less [OF that]] .
  then show ?case
    using Cons by (cases "query_index ds1 ds2 c")
      (simp_all add: locate_column_eq [OF assms(1)] project_def cell_text_db)
qed (simp add: project_def)

lemma all_texts_eq:
  assumes "names_ok (all_defs ds1 ds2)" and "\<forall>r \<in> set rows. row_fits (all_defs ds1 ds2) r"
  shows "all_texts ds1 ds2 cols (map (map cell_db) rows) = Inr (map (project ds1 ds2 cols) rows)"
  using assms(2) by (induction rows) (simp_all add: row_texts_eq [OF assms(1)])

section \<open>ORDER BY\<close>

text \<open>What \<open>std::sort\<close> promises.\<close>

definition sort_spec :: "(('a \<Rightarrow> 'a \<Rightarrow> bool) \<Rightarrow> 'a list \<Rightarrow> 'a list) \<Rightarrow> bool" where
  "sort_spec srt \<longleftrightarrow> (\<forall>lt xs. strict_weak lt xs \<longrightarrow> mset (srt lt xs) = mset xs \<and> sorted_wrt (\<lambda>a b. \<not> lt b a) (srt lt xs))"

fun cell_less :: "cell \<Rightarrow> cell \<Rightarrow> bool" where
  "cell_less (CNum x) (CNum y) = (sint x < sint y)"
| "cell_less (CStr s) (CStr t) = str_less s t"
| "cell_less _ _ = False"

lemma char_nat_inj: "char_nat c = char_nat d \<longleftrightarrow> c = d"
  by (simp add: char_nat_def)

lemma str_less_irrefl: "\<not> str_less s s"
  by (induction s) auto

lemma str_less_trans: "str_less s t \<Longrightarrow> str_less t u \<Longrightarrow> str_less s u"
proof (induction s t arbitrary: u rule: str_less.induct)
  case (2 d t)
  then show ?case by (cases u) auto
next
  case (3 c s d t)
  then show ?case by (cases u) auto
qed simp

lemma str_less_total: "\<not> str_less s t \<Longrightarrow> \<not> str_less t s \<Longrightarrow> s = t"
proof (induction s t rule: str_less.induct)
  case (1 s)
  then show ?case by (cases s) auto
next
  case (3 c s d t)
  then show ?case by (auto simp: char_nat_inj [symmetric] not_less)
qed simp

lemma order_lt_cells:
  assumes "i < length a" and "i < length b" and "cell_ok ty (a ! i)" and "cell_ok ty (b ! i)"
  shows "order_lt i (map cell_db a) (map cell_db b) \<longleftrightarrow> cell_less (a ! i) (b ! i)"
  using assms(1,2) cell_okD [OF assms(3)] cell_okD [OF assms(4)] by (auto simp: order_lt_def)


lemma cell_less_strict:
  assumes "cell_ok ty a" and "cell_ok ty b" and "cell_ok ty c"
  shows "\<not> cell_less a a" "cell_less a b \<Longrightarrow> cell_less b c \<Longrightarrow> cell_less a c"
    "\<not> cell_less a b \<Longrightarrow> \<not> cell_less b a \<Longrightarrow> a = b"
  using cell_okD [OF assms(1)] cell_okD [OF assms(2)] cell_okD [OF assms(3)] str_less_trans str_less_total str_less_irrefl
  by (auto simp: not_less intro: signed_word_eqI)

lemma strict_weak_cells:
  assumes "\<forall>r \<in> set rows. i < length r \<and> cell_ok ty (r ! i)"
  shows "strict_weak (order_lt i) (map (map cell_db) rows)"
proof -
  have lt: "order_lt i (map cell_db a) (map cell_db b) \<longleftrightarrow> cell_less (a ! i) (b ! i)" if "a \<in> set rows" "b \<in> set rows" for a b
    using assms that order_lt_cells by blast
  have less: "\<not> cell_less (a ! i) (a ! i)" "cell_less (a ! i) (b ! i) \<Longrightarrow> cell_less (b ! i) (c ! i) \<Longrightarrow> cell_less (a ! i) (c ! i)"
    "\<not> cell_less (a ! i) (b ! i) \<Longrightarrow> \<not> cell_less (b ! i) (a ! i) \<Longrightarrow> a ! i = b ! i"
    if "a \<in> set rows" "b \<in> set rows" "c \<in> set rows" for a b c
    using assms that cell_less_strict [of ty "a ! i" "b ! i" "c ! i"] by blast+
  show ?thesis
    unfolding strict_weak_def by (auto simp: lt less(1) dest: less(2)) (metis less(3))+
qed

lemma cell_db_inj: "inj cell_db"
proof (rule injI)
  fix a b assume "cell_db a = cell_db b"
  then show "a = b" by (cases a; cases b) auto
qed

lemma mset_map_inj:
  assumes "inj f" and "mset ys = mset (map f xs)"
  shows "\<exists>zs. ys = map f zs \<and> mset zs = mset xs"
proof (intro exI conjI)
  have "set ys = f ` set xs" using mset_eq_setD [OF assms(2)] by simp
  then have "\<forall>y \<in> set ys. f (inv f y) = y" by (auto simp: assms(1))
  then show "ys = map f (map (inv f) ys)" by (simp add: map_idI)
  have "mset (map (inv f) ys) = image_mset (inv f) (mset (map f xs))" using assms(2) by simp
  then show "mset (map (inv f) ys) = mset xs" by (simp add: assms(1) image_mset.compositionality comp_def)
qed

text \<open>What ORDER BY makes of the matching rows: a sorted permutation, if it names a column.\<close>

definition arranged :: "coldef list \<Rightarrow> coldef list option \<Rightarrow> select_stmt \<Rightarrow> cell list list \<Rightarrow> cell list list \<Rightarrow> bool" where
  "arranged ds1 ds2 s kept ordered \<longleftrightarrow>
     (case (if se_has_order s then query_index ds1 ds2 (ob_column (se_order_by s)) else None) of
        None \<Rightarrow> ordered = kept
      | Some i \<Rightarrow> mset ordered = mset kept \<and> sorted_wrt (\<lambda>a b. \<not> cell_less (b ! i) (a ! i)) ordered)"

definition sortable :: "select_stmt \<Rightarrow> cell list list \<Rightarrow> bool" where
  "sortable s kept \<longleftrightarrow> se_has_order s \<longrightarrow> ob_ascending (se_order_by s) \<or> length kept \<le> 1"

lemma sort_rows_cells:
  assumes srt: "sort_spec (env_sort env)" and rows: "\<forall>r \<in> set kept. i < length r \<and> cell_ok ty (r ! i)"
    and asc: "asc \<or> length kept \<le> 1"
  shows "\<exists>ordered. sort_rows env i asc (map (map cell_db) kept) = Inr (map (map cell_db) ordered) \<and>
    mset ordered = mset kept \<and> sorted_wrt (\<lambda>a b. \<not> cell_less (b ! i) (a ! i)) ordered"
proof (cases "length kept \<le> 1")
  case True
  then have "sorted_wrt (\<lambda>a b. \<not> cell_less (b ! i) (a ! i)) kept" by (cases kept; cases "tl kept") auto
  then show ?thesis using True by (intro exI [of _ kept]) (simp add: sort_rows_def Let_def)
next
  case False
  note sw = strict_weak_cells [OF rows]
  let ?R = "map (map cell_db) kept"
  have m: "mset (env_sort env (order_lt i) ?R) = mset ?R"
    and srtd: "sorted_wrt (\<lambda>a b. \<not> order_lt i b a) (env_sort env (order_lt i) ?R)"
    using srt sw by (simp_all only: sort_spec_def)
  obtain zs where zs: "env_sort env (order_lt i) ?R = map (map cell_db) zs" "mset zs = mset kept"
    using mset_map_inj [OF _ m] cell_db_inj by (auto simp: inj_map_eq_map)
  have "set zs = set kept" using mset_eq_setD [OF zs(2)] .
  then have "order_lt i (map cell_db a) (map cell_db b) \<longleftrightarrow> cell_less (a ! i) (b ! i)" if "a \<in> set zs" "b \<in> set zs" for a b
    using rows that order_lt_cells by blast
  then have "sorted_wrt (\<lambda>a b. \<not> cell_less (b ! i) (a ! i)) zs"
    using srtd unfolding zs(1) sorted_wrt_map by (auto intro: sorted_wrt_mono_rel [rotated])
  moreover have "list_all (order_readable i) ?R"
    using rows cell_okD by (fastforce simp: list_all_iff order_readable_def)
  ultimately show ?thesis
    using False sw zs asc by (intro exI [of _ zs]) (simp add: sort_rows_def Let_def)
qed

lemma finish_arranged:
  assumes names: "names_ok (all_defs ds1 ds2)" and fits: "\<forall>r \<in> set kept. row_fits (all_defs ds1 ds2) r"
    and srt: "sort_spec (env_sort env)" "sortable s kept"
    and R: "(if used then Inr R else filter_rows (match_row ds1 ds2 (se_where s)) R) = Inr (map (map cell_db) kept)"
  shows "\<exists>ordered. arranged ds1 ds2 s kept ordered \<and>
    finish_select env s ds1 ds2 used R = Inr (out_ok\<lparr>eo_rows := map (project ds1 ds2 (se_columns s)) ordered\<rparr>)"
proof (cases "if se_has_order s then query_index ds1 ds2 (ob_column (se_order_by s)) else None")
  case None
  then show ?thesis
    using all_texts_eq [OF names fits] R locate_column_eq [OF names]
    by (intro exI [of _ kept]) (simp add: arranged_def finish_select_def split: if_splits)
next
  case (Some i)
  then have q: "se_has_order s" "query_index ds1 ds2 (ob_column (se_order_by s)) = Some i" by (simp_all split: if_splits)
  have "\<forall>r \<in> set kept. i < length r \<and> cell_ok (cd_type (all_defs ds1 ds2 ! i)) (r ! i)"
    using fits row_fits_nth query_index_less [OF q(2)] by blast
  then obtain ordered where o: "sort_rows env i (ob_ascending (se_order_by s)) (map (map cell_db) kept) =
      Inr (map (map cell_db) ordered)" "mset ordered = mset kept"
      "sorted_wrt (\<lambda>a b. \<not> cell_less (b ! i) (a ! i)) ordered"
    using sort_rows_cells [OF srt(1)] srt(2) q(1) unfolding sortable_def by blast
  have "\<forall>r \<in> set ordered. row_fits (all_defs ds1 ds2) r" using fits mset_eq_setD [OF o(2)] by simp
  then show ?thesis
    using all_texts_eq [OF names] R locate_column_eq [OF names] q o
    by (intro exI [of _ ordered]) (simp add: arranged_def finish_select_def)
qed

lemma filter_rows_sem:
  assumes "names_ok (all_defs ds1 ds2)" and "\<forall>r \<in> set rows. row_fits (all_defs ds1 ds2) r" and "wheres_fit ds1 ds2 ws"
  shows "filter_rows (match_row ds1 ds2 ws) (map (map cell_db) rows) = Inr (map (map cell_db) (filter (sem_row ds1 ds2 ws) rows))"
  using match_row_eq [OF assms(1) _ assms(3)] assms(2) by (intro filter_rows_eq) auto

text \<open>Filter, sort and print the rows of a scan or a join.\<close>

lemma finish_filtered:
  assumes names: "names_ok (all_defs ds1 ds2)" and fits: "\<forall>r \<in> set rows. row_fits (all_defs ds1 ds2) r"
    and w: "wheres_fit ds1 ds2 (se_where s)" and srt: "sort_spec (env_sort env)"
    and asc: "sortable s (filter (sem_row ds1 ds2 (se_where s)) rows)"
  shows "\<exists>ordered. arranged ds1 ds2 s (filter (sem_row ds1 ds2 (se_where s)) rows) ordered \<and>
    finish_select env s ds1 ds2 False (map (map cell_db) rows) =
      Inr (out_ok\<lparr>eo_rows := map (project ds1 ds2 (se_columns s)) ordered\<rparr>)"
  using finish_arranged [OF names _ srt asc, of False] filter_rows_sem [OF names fits w] fits by simp

section \<open>The index path\<close>

lemma stoll_range: "stoll v = Inr y \<Longrightarrow> - (2 ^ 63) \<le> y \<and> y < 2 ^ 63"
  by (auto simp: stoll_def Let_def split: if_splits)

lemma sint_eq_iff:
  assumes "- (2 ^ 63) \<le> y" and "y < 2 ^ 63"
  shows "sint (x :: u64) = y \<longleftrightarrow> x = word_of_int y"
proof -
  have "sint (word_of_int y :: u64) = y"
    using assms by (simp add: sint_sbintrunc' signed_take_bit_int_eq_self)
  then show ?thesis by auto
qed

lemma keeps_index:
  assumes t: "tabs n = Some t" "table_inv True t rows" and bt: "im_get_index (tb_index t) ''PK'' = Some bt"
    and r: "bpt_search bt k = Inr (r, bt')"
  shows "keeps tabs (tabs(n \<mapsto> t\<lparr>tb_index := (tb_index t)(''PK'' \<mapsto> bt')\<rparr>))"
proof (rule keeps_upd [of tabs n t])
  fix pk' rows'
  assume inv: "table_inv pk' t rows'"
  then have pk': "pk'" using t(2) by (auto simp: table_inv_def)
  have "tab_ok [n \<mapsto> t] n (tb_schema t) True rows'" using inv pk' by (simp add: tab_ok_def)
  then have "length rows' < 2 ^ 64" by (rule table_inv_length)
  then show "table_inv pk' (t\<lparr>tb_index := (tb_index t)(''PK'' \<mapsto> bt')\<rparr>) rows'"
    using pk_search [of t rows' k] inv pk' bt r by auto
qed (use t in simp_all)

text \<open>The lookup returns a row with the key if there is one; the contents stay as they are.\<close>

lemma index_lookup_ok:
  assumes ok: "tab_ok tabs n sc True rows" and y: "stoll v = Inr y"
  shows "\<exists>hit tabs'. index_lookup n v tabs = Inr (map_option (map cell_db) hit, tabs') \<and> keeps tabs tabs' \<and>
    (case hit of None \<Rightarrow> \<forall>row \<in> set rows. cell_key (hd row) \<noteq> word_of_int y
     | Some row \<Rightarrow> row \<in> set rows \<and> cell_key (hd row) = word_of_int y)"
proof -
  obtain t where t: "tabs n = Some t" "tb_schema t = sc" "table_inv True t rows" using ok by (auto simp: tab_ok_def)
  obtain ix r ix' where s: "im_get_index (tb_index t) ''PK'' = Some ix" "bpt_search ix (word_of_int y) = Inr (r, ix')"
    "case r of None \<Rightarrow> \<forall>row \<in> set rows. cell_key (hd row) \<noteq> word_of_int y
     | Some rid \<Rightarrow> unat rid < length rows \<and> cell_key (hd (rows ! unat rid)) = word_of_int y"
    using pk_search [OF t(3) table_inv_length [OF ok], of "word_of_int y"] by blast
  define tabs1 where "tabs1 = tabs(n \<mapsto> t\<lparr>tb_index := (tb_index t)(''PK'' \<mapsto> ix')\<rparr>)"
  have k1: "keeps tabs tabs1" unfolding tabs1_def by (rule keeps_index [of tabs n t, OF t(1,3) s(1,2)])
  show ?thesis
  proof (cases r)
    case None
    then have "index_lookup n v tabs = Inr (None, tabs1)"
      using t(1) s(1,2) y by (simp add: index_lookup_def table_of_def tabs1_def)
    then show ?thesis using None s(3) k1 by (intro exI [of _ None]) simp
  next
    case (Some rid)
    then have rid: "unat rid < length rows" "cell_key (hd (rows ! unat rid)) = word_of_int y" using s(3) by simp_all
    obtain tabs2 where t2: "materialize_in n rid tabs1 = Inr (map cell_db (rows ! unat rid), tabs2)" "keeps tabs1 tabs2"
      using materialize_in_ok [OF keepsD [OF k1 ok] rid(1)] by blast
    then have "index_lookup n v tabs = Inr (Some (map cell_db (rows ! unat rid)), tabs2)"
      using t(1) s(1,2) y Some by (simp add: index_lookup_def table_of_def flip: tabs1_def)
    then show ?thesis
      using rid keeps_trans [OF k1 t2(2)] by (intro exI [of _ "Some (rows ! unat rid)"]) simp
  qed
qed

text \<open>With distinct keys, the rows that match \<open>ID = v\<close> are the one the index finds.\<close>

lemma filter_unique:
  assumes "distinct (map f xs)" and "x \<in> set xs"
  shows "filter (\<lambda>y. f y = f x) xs = [x]"
  using assms
proof (induction xs)
  case (Cons a xs)
  have "filter (\<lambda>y. f y = f a) xs = []" using Cons.prems(1) by (auto simp: filter_empty_conv intro: rev_image_eqI)
  then show ?case using Cons by (cases "x = a") auto
qed simp

lemma sem_row_id:
  assumes sc: "schema_ok sc" "has_pk sc" and w: "wh_column w = ''ID''" "wh_op w = ''=''" "stoll (wh_value w) = Inr y"
    and row: "row_fits (sc_columns sc) row"
  shows "sem_row (sc_columns sc) None [w] row \<longleftrightarrow> cell_key (hd row) = word_of_int y"
proof -
  obtain d ds where ds: "sc_columns sc = d # ds" "cd_name d = ''ID''" "cd_type d = CT_DECIMAL"
    using sc by (auto simp: schema_ok_def has_pk_def neq_Nil_conv)
  then have i: "query_index (sc_columns sc) None (wh_column w) = Some 0"
    using w(1) by (simp add: query_index_def col_index_def)
  obtain x xs where x: "row = CNum x # xs"
    using row ds cell_okD by (fastforce simp: row_fits_def list_all2_Cons1)
  have "sint x = y \<longleftrightarrow> x = word_of_int y" using stoll_range [OF w(3)] by (intro sint_eq_iff) auto
  then show ?thesis using i x w by (simp add: sem_row_def)
qed

section \<open>SELECT on one table\<close>

lemma get_table_ok:
  assumes "tab_ok (ex_tables ex) (upper name) sc pk rows"
  shows "\<exists>t. get_table ex name = (Some t, []) \<and> ex_tables ex (upper name) = Some t \<and> tb_schema t = sc \<and> table_inv pk t rows"
  using assms by (auto simp: tab_ok_def get_table_def Let_def)

lemma validate_columns_ok:
  assumes "names_ok ds" and "\<forall>c \<in> set cols. col_index ds c \<noteq> None \<or> c = ''*''"
  shows "validate_columns ds cols = Inr None"
  using assms(2) by (induction cols) (auto simp: find_column_eq [OF assms(1)])

lemma validate_columns_bad:
  assumes "names_ok ds" and "\<forall>x \<in> set xs. col_index ds x \<noteq> None \<or> x = ''*''" and "col_index ds c = None" and "c \<noteq> ''*''"
  shows "validate_columns ds (xs @ c # ys) = Inr (Some (''Unknown column: '' @ c))"
  using assms(2-) by (induction xs) (auto simp: find_column_eq [OF assms(1)])

lemma tab_ok_rows: "tab_ok tabs n sc pk rows \<Longrightarrow> row \<in> set rows \<Longrightarrow> row_fits (sc_columns sc) row"
  by (auto simp: tab_ok_def table_inv_def rows_ok_def row_fits_def)

lemma tab_ok_pk: "schema_ok sc \<Longrightarrow> tab_ok tabs n sc pk rows \<Longrightarrow> pk = has_pk sc"
  by (auto simp: tab_ok_def table_inv_def first_is_id_ok)

text \<open>The answer of a query: its output rows come from an arrangement of the matching rows.\<close>

definition answers :: "coldef list \<Rightarrow> coldef list option \<Rightarrow> select_stmt \<Rightarrow> cell list list \<Rightarrow> exec_out \<Rightarrow> bool" where
  "answers ds1 ds2 s rows out \<longleftrightarrow>
     (\<exists>ordered. arranged ds1 ds2 s (filter (sem_row ds1 ds2 (se_where s)) rows) ordered \<and>
        out = out_ok\<lparr>eo_rows := map (project ds1 ds2 (se_columns s)) ordered\<rparr>)"

lemma select_scan:
  assumes ok: "tab_ok (ex_tables ex) (upper (se_table s)) sc pk rows" and sc: "schema_ok sc"
    and s: "\<not> se_has_join s" "\<forall>c \<in> set (se_columns s). col_index (sc_columns sc) c \<noteq> None \<or> c = ''*''"
    and srt: "sort_spec (env_sort env)" "sortable s (filter (sem_row (sc_columns sc) None (se_where s)) rows)"
    and w: "wheres_fit (sc_columns sc) None (se_where s)" and ni: "\<not> uses_index s"
  shows "\<exists>out tabs'. exec_select env s ex = Inr (out, ex\<lparr>ex_tables := tabs'\<rparr>) \<and>
    answers (sc_columns sc) None s rows out \<and> keeps (ex_tables ex) tabs'"
proof -
  obtain t where t: "get_table ex (se_table s) = (Some t, [])" "tb_schema t = sc" using get_table_ok [OF ok] by blast
  have names: "names_ok (sc_columns sc)" "names_ok (all_defs (sc_columns sc) None)"
    using schema_names_ok [OF sc] by (simp_all add: all_defs_def)
  have "sc_columns sc \<noteq> []" using sc by (simp add: schema_ok_def)
  then obtain tabs' where tabs': "scan_rows (upper (se_table s)) (ex_tables ex) = Inr (map (map cell_db) rows, tabs')"
    "keeps (ex_tables ex) tabs'"
    using scan_rows_all [OF ok] by blast
  have rows: "\<forall>r \<in> set rows. row_fits (all_defs (sc_columns sc) None) r"
    using tab_ok_rows [OF ok] by (simp add: all_defs_def)
  obtain out where "finish_select env s (sc_columns sc) None False (map (map cell_db) rows) = Inr out"
    "answers (sc_columns sc) None s rows out"
    using finish_filtered [OF names(2) rows w srt] by (auto simp: answers_def)
  then show ?thesis
    using t s(1) validate_columns_ok [OF names(1) s(2)] ni tabs'
    by (intro exI [of _ out] exI [of _ tabs']) (simp add: exec_select_def Let_def)
qed

lemma select_index:
  assumes ok: "tab_ok (ex_tables ex) (upper (se_table s)) sc True rows" and sc: "schema_ok sc"
    and s: "\<not> se_has_join s" "\<forall>c \<in> set (se_columns s). col_index (sc_columns sc) c \<noteq> None \<or> c = ''*''"
    and srt: "sort_spec (env_sort env)" "sortable s (filter (sem_row (sc_columns sc) None (se_where s)) rows)"
    and w: "wheres_fit (sc_columns sc) None (se_where s)" and ui: "uses_index s"
    and d: "distinct (map (\<lambda>r. cell_key (hd r)) rows)"
  shows "\<exists>out tabs'. exec_select env s ex = Inr (out, ex\<lparr>ex_tables := tabs'\<rparr>) \<and>
    answers (sc_columns sc) None s rows out \<and> keeps (ex_tables ex) tabs'"
proof -
  let ?ds = "sc_columns sc" and ?n = "upper (se_table s)"
  obtain cl where cl: "se_where s = [cl]" "wh_column cl = ''ID''" "wh_op cl = ''=''"
    using ui by (auto simp: uses_index_def length_Suc_conv)
  have pk: "has_pk sc" using tab_ok_pk [OF sc ok] by simp
  obtain dd ds where ds: "sc_columns sc = dd # ds" "cd_name dd = ''ID''" "cd_type dd = CT_DECIMAL"
    using sc pk by (auto simp: schema_ok_def has_pk_def neq_Nil_conv)
  have "query_index ?ds None (wh_column cl) = Some 0" using ds cl(2) by (simp add: query_index_def col_index_def)
  then have "where_fits CT_DECIMAL cl" using w cl(1) ds by (auto simp: wheres_fit_def all_defs_def)
  then obtain y where y: "stoll (wh_value cl) = Inr y" by (auto simp: where_fits_def)
  have sem: "sem_row ?ds None (se_where s) row \<longleftrightarrow> cell_key (hd row) = word_of_int y" if "row \<in> set rows" for row
    using sem_row_id [OF sc pk cl(2,3) y tab_ok_rows [OF ok that]] cl(1) by simp
  obtain t where t: "get_table ex (se_table s) = (Some t, [])" "tb_schema t = sc" using get_table_ok [OF ok] by blast
  have names: "names_ok ?ds" "names_ok (all_defs ?ds None)" using schema_names_ok [OF sc] by (simp_all add: all_defs_def)
  obtain hit tabs1 where h: "index_lookup ?n (wh_value cl) (ex_tables ex) = Inr (map_option (map cell_db) hit, tabs1)"
    "keeps (ex_tables ex) tabs1"
    "case hit of None \<Rightarrow> \<forall>row \<in> set rows. cell_key (hd row) \<noteq> word_of_int y
     | Some row \<Rightarrow> row \<in> set rows \<and> cell_key (hd row) = word_of_int y"
    using index_lookup_ok [OF ok y] by blast
  have rows: "\<forall>r \<in> set rows. row_fits (all_defs ?ds None) r" using tab_ok_rows [OF ok] by (simp add: all_defs_def)
  show ?thesis
  proof (cases hit)
    case None
    obtain tabs' where tabs': "scan_rows ?n tabs1 = Inr (map (map cell_db) rows, tabs')" "keeps tabs1 tabs'"
      using scan_rows_all [OF keepsD [OF h(2) ok]] ds(1) by auto
    obtain out where "finish_select env s ?ds None False (map (map cell_db) rows) = Inr out" "answers ?ds None s rows out"
      using finish_filtered [OF names(2) rows w srt] by (auto simp: answers_def)
    then show ?thesis
      using t s(1) validate_columns_ok [OF names(1) s(2)] ui h(1) None tabs'(1) cl(1) keeps_trans [OF h(2) tabs'(2)]
      by (intro exI [of _ out] exI [of _ tabs']) (simp add: exec_select_def Let_def)
  next
    case (Some row)
    then have row: "row \<in> set rows" "cell_key (hd row) = word_of_int y" using h(3) by simp_all
    have "filter (sem_row ?ds None (se_where s)) rows = filter (\<lambda>r. cell_key (hd r) = cell_key (hd row)) rows"
      using sem row(2) by (intro filter_cong) simp_all
    also have "\<dots> = [row]" using filter_unique [OF d row(1)] .
    finally have f: "filter (sem_row ?ds None (se_where s)) rows = [row]" .
    have "row_fits (all_defs ?ds None) row" using rows row(1) by blast
    then obtain out where "finish_select env s ?ds None True [map cell_db row] = Inr out" "answers ?ds None s rows out"
      using finish_arranged [OF names(2) _ srt(1), of "[row]" s True "[map cell_db row]"] srt(2) f by (auto simp: answers_def)
    then show ?thesis
      using t s(1) validate_columns_ok [OF names(1) s(2)] ui h(1,2) Some cl(1)
      by (intro exI [of _ out] exI [of _ tabs1]) (simp add: exec_select_def Let_def)
  qed
qed

section \<open>Joins\<close>

lemma nested_join_fits:
  assumes "\<forall>r \<in> set rows1. row_fits ds1 r" and "\<forall>r \<in> set rows2. row_fits ds2 r"
  shows "\<forall>r \<in> set (nested_join rows1 c1 rows2 c2). row_fits (all_defs ds1 (Some ds2)) r"
  using assms by (auto simp: nested_join_def row_fits_def all_defs_def intro!: list_all2_appendI)

lemma select_join:
  assumes ok1: "tab_ok (ex_tables ex) (upper (se_table s)) sc1 pk1 rows1"
    and ok2: "tab_ok (ex_tables ex) (upper (jn_table (se_join s))) sc2 pk2 rows2"
    and sc: "schema_ok sc1" "schema_ok sc2" and s: "se_has_join s"
    and c1: "col_index (sc_columns sc1) (jn_on_left (se_join s)) = Some c1" "cd_type (sc_columns sc1 ! c1) = CT_DECIMAL"
    and c2: "col_index (sc_columns sc2) (jn_on_right (se_join s)) = Some c2" "cd_type (sc_columns sc2 ! c2) = CT_DECIMAL"
    and w: "wheres_fit (sc_columns sc1) (Some (sc_columns sc2)) (se_where s)"
    and srt: "sort_spec (env_sort env)"
      "sortable s (filter (sem_row (sc_columns sc1) (Some (sc_columns sc2)) (se_where s)) (nested_join rows1 c1 rows2 c2))"
  shows "\<exists>out tabs'. exec_select env s ex = Inr (out, ex\<lparr>ex_tables := tabs'\<rparr>) \<and>
    answers (sc_columns sc1) (Some (sc_columns sc2)) s (nested_join rows1 c1 rows2 c2) out \<and> keeps (ex_tables ex) tabs'"
proof -
  let ?ds1 = "sc_columns sc1" and ?ds2 = "sc_columns sc2"
  obtain t1 where t1: "get_table ex (se_table s) = (Some t1, [])" "tb_schema t1 = sc1" using get_table_ok [OF ok1] by blast
  obtain t2 where t2: "get_table ex (jn_table (se_join s)) = (Some t2, [])" "tb_schema t2 = sc2"
    using get_table_ok [OF ok2] by blast
  have names: "names_ok ?ds1" "names_ok ?ds2" "names_ok (all_defs ?ds1 (Some ?ds2))"
    using schema_names_ok sc by (auto simp: names_ok_def all_defs_def)
  obtain tabs' where j: "hash_join (ex_tables ex) (upper (se_table s)) (upper (jn_table (se_join s)))
      (jn_on_left (se_join s)) (jn_on_right (se_join s)) =
      Inr (map (map cell_db) (nested_join rows1 c1 rows2 c2), tabs')" "keeps (ex_tables ex) tabs'"
    using hash_join_nested [OF ok1 ok2 _ col_index_less [OF c1(1)] c1(2) _ col_index_less [OF c2(1)] c2(2)]
      find_column_eq names c1(1) c2(1) by metis
  have fits: "\<forall>r \<in> set (nested_join rows1 c1 rows2 c2). row_fits (all_defs ?ds1 (Some ?ds2)) r"
    using tab_ok_rows [OF ok1] tab_ok_rows [OF ok2] by (intro nested_join_fits) auto
  obtain out where o: "finish_select env s ?ds1 (Some ?ds2) False (map (map cell_db) (nested_join rows1 c1 rows2 c2)) = Inr out"
    "answers ?ds1 (Some ?ds2) s (nested_join rows1 c1 rows2 c2) out"
    using finish_filtered [OF names(3) fits w srt] by (auto simp: answers_def)
  have ex: "ex\<lparr>ex_tables := ex_tables ex\<rparr> = ex" by simp
  have ui: "\<not> uses_index s" using s by (simp add: uses_index_def)
  show ?thesis
    using t1 t2 s ui j o ex by (intro exI [of _ out] exI [of _ tabs']) (simp add: exec_select_def Let_def)
qed

end
