(* ===== verification/InsertProofs.thy ===== *)
theory InsertProofs
  imports ExecProofs
begin

text \<open>
  INSERT: the text of a list of rows is cut and parsed back into these rows. The strings may
  hold any characters except the comma and the closing parenthesis, at which the executor
  cuts without looking at quotes.
\<close>

section \<open>Texts of rows\<close>

fun cell_lit :: "cell \<Rightarrow> string" where
  "cell_lit (CNum w) = to_string (sint w)"
| "cell_lit (CStr s) = CHR 0x27 # s @ [CHR 0x27]"

fun lit_ok :: "cell \<Rightarrow> bool" where
  "lit_ok (CNum w) = True"
| "lit_ok (CStr s) = (CHR '','' \<notin> set s \<and> CHR '')'' \<notin> set s)"

definition row_text :: "cell list \<Rightarrow> string" where
  "row_text row = sep_by '','' (map cell_lit row)"

definition rows_text :: "cell list list \<Rightarrow> string" where
  "rows_text rows = sep_by '', '' (map (\<lambda>r. ''('' @ row_text r @ '')'') rows)"

section \<open>Cutting\<close>

lemma getlines_sep_by:
  assumes "\<forall>x \<in> set xs. d \<notin> set x \<and> x \<noteq> []"
  shows "getlines d (sep_by [d] xs) = xs"
  using assms by (induction "[d]" xs rule: sep_by.induct) (simp_all add: getlines_last getlines_item)

lemma tuples_none: "CHR ''('' \<notin> set s \<Longrightarrow> tuples s = []"
  by (subst tuples.simps) (simp add: cut_none)

lemma tuples_item:
  assumes "CHR ''('' \<notin> set pre" and "CHR '')'' \<notin> set body"
  shows "tuples (pre @ ''('' @ body @ '')'' @ rest) = body # tuples rest"
proof -
  have "CHR '')'' \<notin> set (''('' @ body)" using assms(2) by simp
  then show ?thesis
    using assms cut_first [of "CHR ''(''" pre "body @ '')'' @ rest"] cut_first [of "CHR '')''" "''('' @ body" rest]
      cut_first [of "CHR '')''" body rest]
    by (subst tuples.simps) simp
qed

lemma tuples_sep_by:
  assumes "\<forall>b \<in> set bodies. CHR '')'' \<notin> set b" and "CHR ''('' \<notin> set pre"
  shows "tuples (pre @ sep_by '', '' (map (\<lambda>b. ''('' @ b @ '')'') bodies)) = bodies"
  using assms
proof (induction bodies arbitrary: pre)
  case Nil
  then show ?case by (simp add: tuples_none)
next
  case (Cons b bs)
  show ?case
  proof (cases bs)
    case Nil
    then show ?thesis using Cons.prems tuples_item [of pre b "[]"] by (simp add: tuples_none)
  next
    case (Cons b2 bs2)
    have "pre @ sep_by '', '' (map (\<lambda>b. ''('' @ b @ '')'') (b # bs)) =
        pre @ ''('' @ b @ '')'' @ ('', '' @ sep_by '', '' (map (\<lambda>b. ''('' @ b @ '')'') bs))"
      by (simp add: Cons)
    then show ?thesis
      using Cons.prems tuples_item [of pre b] Cons.IH [of "'', ''"] by simp
  qed
qed

section \<open>Literals\<close>

lemma to_string_chars:
  "c \<in> set (to_string i) \<Longrightarrow> is_digit c \<or> c = CHR ''-''"
  using nat_digits_all digit_char_facts(1) by (fastforce simp: to_string_def split: if_splits)

lemma digit_not_sep: "is_digit c \<Longrightarrow> c \<noteq> CHR '','' \<and> c \<noteq> CHR '')'' \<and> \<not> is_space c"
  by (auto simp: is_digit_def is_space_def char_nat_def)

lemma to_string_nonempty: "to_string i \<noteq> []"
  by (simp add: to_string_def nat_digits_nonempty)

lemma trim_id:
  assumes "\<forall>c \<in> set s. \<not> is_space c"
  shows "trim s = s"
proof -
  have "dropWhile is_space x = x" if "\<forall>c \<in> set x. \<not> is_space c" for x
    using that by (cases x) auto
  from this [of s] this [of "rev s"] show ?thesis
    using assms by (simp add: trim_def trim_left_def trim_right_def)
qed

lemma trim_quoted: "trim (CHR 0x27 # s @ [CHR 0x27]) = CHR 0x27 # s @ [CHR 0x27]"
proof -
  have "\<not> is_space (CHR 0x27)" by (simp add: is_space_def char_nat_def)
  then show ?thesis by (simp add: trim_def trim_left_def trim_right_def)
qed

lemma cell_lit_facts:
  assumes "lit_ok c"
  shows "CHR '','' \<notin> set (cell_lit c)" "CHR '')'' \<notin> set (cell_lit c)" "cell_lit c \<noteq> []" "trim (cell_lit c) = cell_lit c"
proof -
  have num: "CHR '','' \<notin> set (to_string i) \<and> CHR '')'' \<notin> set (to_string i) \<and> (\<forall>c \<in> set (to_string i). \<not> is_space c)" for i
    using to_string_chars [of _ i] digit_not_sep by (fastforce simp: is_space_def char_nat_def)
  show "CHR '','' \<notin> set (cell_lit c)" "CHR '')'' \<notin> set (cell_lit c)" "cell_lit c \<noteq> []" "trim (cell_lit c) = cell_lit c"
    using assms num by (cases c; simp add: to_string_nonempty trim_id trim_quoted)+
qed

lemma parse_value_lit:
  assumes "cell_ok ty c"
  shows "parse_value stof ty (cell_lit c) = Inr (cell_db c)"
proof -
  have "stoll (to_string (sint w)) = Inr (sint w)" for w :: u64
    using sint_ge [of w] sint_lt [of w] by (intro stoll_to_string) simp_all
  then show ?thesis
    using cell_okD [OF assms] by (auto simp: parse_value_def unquote_def)
qed

lemma parse_values_row:
  assumes "row_fits ds row" and "list_all lit_ok row"
  shows "parse_values stof ds (getlines (CHR '','') (row_text row)) = Inr (map cell_db row)"
proof -
  have "getlines (CHR '','') (row_text row) = map cell_lit row"
    unfolding row_text_def using assms(2) cell_lit_facts(1,3)
    by (intro getlines_sep_by) (auto simp: list_all_iff)
  moreover have "parse_values stof ds (map cell_lit row) = Inr (map cell_db row)"
    using assms unfolding row_fits_def
  proof (induction ds arbitrary: row)
    case (Cons d ds)
    then obtain c cs where "row = c # cs" "cell_ok (cd_type d) c" "list_all2 cell_ok (map cd_type ds) cs"
      by (auto simp: list_all2_Cons1)
    then show ?case using Cons by (simp add: cell_lit_facts(4) parse_value_lit)
  qed simp
  ultimately show ?thesis by simp
qed

lemma tuples_rows_text:
  assumes "\<forall>row \<in> set rows. list_all lit_ok row" and "CHR ''('' \<notin> set pre"
  shows "tuples (pre @ rows_text rows) = map row_text rows"
proof -
  have "CHR '')'' \<notin> set (sep_by '','' xs)" if "\<forall>x \<in> set xs. CHR '')'' \<notin> set x" for xs
    using that by (induction "'',''" xs rule: sep_by.induct) auto
  then have "CHR '')'' \<notin> set (row_text row)" if "row \<in> set rows" for row
    using assms(1) that cell_lit_facts(2) by (auto simp: row_text_def list_all_iff)
  then show ?thesis
    using tuples_sep_by [of "map row_text rows" pre] assms(2) by (simp add: rows_text_def comp_def)
qed

section \<open>The statements\<close>

definition disk_env :: "(string \<Rightarrow> nat \<Rightarrow> pagedata) \<Rightarrow> (string \<Rightarrow> nat \<Rightarrow> bptnode) \<Rightarrow> exec_env \<Rightarrow> exec_env" where
  "disk_env data idx env = env\<lparr>env_files := disk_files data, env_idx_files := disk_files idx\<rparr>"

lemma exec_create_ok:
  assumes "cr_table s \<noteq> []" and "ex_tables ex (cr_table s) = None" and "schema_ok (schema_of (cr_columns s))"
  defines "sc \<equiv> schema_of (cr_columns s)"
  shows "\<exists>t. exec_create (disk_env data idx env) s ex = Inr (out_ok, ex\<lparr>ex_tables := (ex_tables ex)(cr_table s \<mapsto> t)\<rparr>) \<and>
    tb_schema t = sc \<and> table_inv (has_pk sc) t []"
proof -
  obtain t where "table_open (disk_files data) (disk_files idx) (ex_data_dir ex) (cr_table s) sc = Inr t"
    "table_inv (has_pk sc) t []" "tb_schema t = sc"
    using table_open_empty [OF assms(3)] unfolding sc_def by blast
  then show ?thesis using assms(1,2) by (auto simp: exec_create_def disk_env_def sc_def)
qed

lemma exec_insert_ok:
  assumes ok: "tab_ok (ex_tables ex) (upper (in_table s)) sc pk rows"
    and raw: "in_raw_values s = pre @ rows_text news" "CHR ''('' \<notin> set pre" and lits: "\<forall>r \<in> set news. row_fits (sc_columns sc) r \<and> list_all lit_ok r"
    and room: "length rows + length news \<le> 31500"
  shows "\<exists>t. exec_insert env s ex = Inr (out_ok, ex\<lparr>ex_tables := (ex_tables ex)(upper (in_table s) \<mapsto> t)\<rparr>) \<and>
    tb_schema t = sc \<and> table_inv pk t (rows @ news)"
proof -
  obtain t where t: "get_table ex (in_table s) = (Some t, [])" "tb_schema t = sc" "table_inv pk t rows"
    using get_table_ok [OF ok] by blast
  let ?step = "\<lambda>tuple t. rbind (parse_values (env_stof env) (sc_columns (tb_schema t)) (getlines (CHR '','') tuple)) (insert_row t)"
  have "\<exists>t'. rfold ?step (map row_text news) t = Inr t' \<and>
      (\<lambda>ys u. tb_schema u = sc \<and> table_inv pk u (rows @ take (length ys) news)) (map row_text news) t'"
  proof (rule rfold_invariant)
    show "tb_schema t = sc \<and> table_inv pk t (rows @ take (length []) news)" using t(2,3) by simp
  next
    fix ys x zs u
    assume split: "map row_text news = ys @ x # zs"
      and u: "tb_schema u = sc \<and> table_inv pk u (rows @ take (length ys) news)"
    have len: "length ys < length news" using arg_cong [OF split, of length] by simp
    have x: "x = row_text (news ! length ys)" using arg_cong [OF split, of "\<lambda>l. l ! length ys"] len by simp
    let ?r = "news ! length ys"
    have r: "row_fits (sc_columns sc) ?r" "list_all lit_ok ?r" using lits len by simp_all
    have "table_room pk u (Suc (length (rows @ take (length ys) news)))"
      using room len le_trans [OF _ cell_capacity_bound, of "Suc (length rows + length ys)"]
      by (auto simp: table_room_def)
    then obtain u' where "insert_row u (map cell_db ?r) = Inr u'"
      "table_inv pk u' ((rows @ take (length ys) news) @ [?r])" "tb_schema u' = sc"
      using insert_row_appends [of pk u "rows @ take (length ys) news" ?r] u r(1) by (auto simp: row_fits_def)
    then show "\<exists>t'. ?step x u = Inr t' \<and> tb_schema t' = sc \<and> table_inv pk t' (rows @ take (length (ys @ [x])) news)"
      using u parse_values_row [OF r, of "env_stof env"] x len by (simp add: take_Suc_conv_app_nth)
  qed
  then obtain t' where "rfold ?step (map row_text news) t = Inr t'" "tb_schema t' = sc" "table_inv pk t' (rows @ news)"
    by auto
  then show ?thesis
    using t(1) raw tuples_rows_text [of news pre] lits by (auto simp: exec_insert_def)
qed

lemma tab_ok_upd: "tb_schema t = sc \<Longrightarrow> table_inv pk t rows \<Longrightarrow> tab_ok (tabs(n \<mapsto> t)) n sc pk rows"
  by (simp add: tab_ok_def)

end
