(* ===== verification/ExecProps.thy ===== *)
theory ExecProps
  imports InsertProofs
begin

text \<open>
  The executor as a database. The abstract state maps a table name to its schema and its list
  of rows; \<open>spec_step\<close> says which outputs a statement may produce and what it does to this
  state, errors included. The statements that it leaves out are those the code does not
  handle. A deleted table with a primary key, ORDER BY .. DESC, a search by \<open>ID\<close> without an index, \<open>SELECT *\<close>
  (the code prints the text NULL) and quotes in conditions (the code compares with them) have theorems of
  their own. Tables with a DATETIME column are left out, since the code keeps rows whose time is
  past and never looks at the column; and so are conditions, orders and, in joins, outputs of columns that do not
  exist, which the code ignores or prints as NULL.

  Every open file is a pager of its own in the model. Two columns share a file if their paths
  are equal, which \<open>files_apart\<close> (and \<open>schema_ok\<close> inside one table) rules out.
\<close>

section \<open>The abstract database\<close>

type_synonym adb = "string \<rightharpoonup> schema \<times> cell list list"

definition column_files :: "string \<Rightarrow> schema \<Rightarrow> string set" where
  "column_files n sc = (\<lambda>d. column_path [] n (cd_name d)) ` set (sc_columns sc)"

definition files_apart :: "adb \<Rightarrow> string \<Rightarrow> schema \<Rightarrow> bool" where
  "files_apart db n sc \<longleftrightarrow> (\<forall>m sc' rows. db m = Some (sc', rows) \<longrightarrow> column_files m sc' \<inter> column_files n sc = {})"

text \<open>
  The queries that the specification covers: all columns exist (so no star), the conditions fit the types
  of their columns and their values are not quoted.
\<close>

definition query_ok :: "coldef list \<Rightarrow> coldef list option \<Rightarrow> select_stmt \<Rightarrow> bool" where
  "query_ok ds1 ds2 s \<longleftrightarrow> list_all (\<lambda>c. query_index ds1 ds2 c \<noteq> None) (se_columns s) \<and>
     list_all (\<lambda>w. query_index ds1 ds2 (wh_column w) \<noteq> None \<and> CHR 0x27 \<notin> set (wh_value w)) (se_where s) \<and>
     wheres_fit ds1 ds2 (se_where s) \<and> (se_has_order s \<longrightarrow> query_index ds1 ds2 (ob_column (se_order_by s)) \<noteq> None)"

text \<open>No column is a DATETIME.\<close>

definition no_datetime :: "create_stmt \<Rightarrow> bool" where
  "no_datetime c \<longleftrightarrow> list_all (\<lambda>(n, ty). upper ty \<noteq> ''DATETIME'') (cr_columns c)"

inductive spec_step :: "adb \<Rightarrow> statement \<Rightarrow> exec_out \<Rightarrow> adb \<Rightarrow> bool" where
  create_unnamed: "st_type s = ST_CREATE \<Longrightarrow> cr_table (st_create s) = [] \<Longrightarrow>
    spec_step db s (out_err ''Missing table name'') db"
| create_again: "st_type s = ST_CREATE \<Longrightarrow> cr_table (st_create s) \<noteq> [] \<Longrightarrow> db (cr_table (st_create s)) \<noteq> None \<Longrightarrow>
    spec_step db s out_ok db"
| create: "st_type s = ST_CREATE \<Longrightarrow> cr_table (st_create s) = n \<Longrightarrow> n \<noteq> [] \<Longrightarrow> db n = None \<Longrightarrow>
    schema_of (cr_columns (st_create s)) = sc \<Longrightarrow> schema_ok sc \<Longrightarrow> no_datetime (st_create s) \<Longrightarrow> files_apart db n sc \<Longrightarrow>
    spec_step db s out_ok (db(n \<mapsto> (sc, [])))"
| insert_unknown: "st_type s = ST_INSERT \<Longrightarrow> upper (in_table (st_insert s)) = n \<Longrightarrow> db n = None \<Longrightarrow>
    spec_step db s (out_err (''Table not found: '' @ n)) db"
| insert: "st_type s = ST_INSERT \<Longrightarrow> upper (in_table (st_insert s)) = n \<Longrightarrow> db n = Some (sc, rows) \<Longrightarrow>
    in_raw_values (st_insert s) = pre @ rows_text news \<Longrightarrow> CHR ''('' \<notin> set pre \<Longrightarrow> \<forall>r \<in> set news. row_fits (sc_columns sc) r \<and> list_all lit_ok r \<Longrightarrow>
    length rows + length news \<le> 31500 \<Longrightarrow>
    spec_step db s out_ok (db(n \<mapsto> (sc, rows @ news)))"
| select_unknown: "st_type s = ST_SELECT \<Longrightarrow> upper (se_table (st_select s)) = n \<Longrightarrow> db n = None \<Longrightarrow>
    spec_step db s (out_err (''Table not found: '' @ n)) db"
| select_bad_column: "st_type s = ST_SELECT \<Longrightarrow> \<not> se_has_join (st_select s) \<Longrightarrow>
    db (upper (se_table (st_select s))) = Some (sc, rows) \<Longrightarrow> se_columns (st_select s) = xs @ c # ys \<Longrightarrow>
    \<forall>x \<in> set xs. col_index (sc_columns sc) x \<noteq> None \<Longrightarrow> col_index (sc_columns sc) c = None \<Longrightarrow> c \<noteq> ''*'' \<Longrightarrow>
    spec_step db s (out_err (''Unknown column: '' @ c)) db"
| select: "st_type s = ST_SELECT \<Longrightarrow> \<not> se_has_join (st_select s) \<Longrightarrow>
    db (upper (se_table (st_select s))) = Some (sc, rows) \<Longrightarrow>
    query_ok (sc_columns sc) None (st_select s) \<Longrightarrow>
    sortable (st_select s) (filter (sem_row (sc_columns sc) None (se_where (st_select s))) rows) \<Longrightarrow>
    uses_index (st_select s) \<longrightarrow> has_pk sc \<and> distinct (map (\<lambda>r. cell_key (hd r)) rows) \<Longrightarrow>
    answers (sc_columns sc) None (st_select s) rows out \<Longrightarrow>
    spec_step db s out db"
| join_unknown: "st_type s = ST_SELECT \<Longrightarrow> se_has_join (st_select s) \<Longrightarrow>
    db (upper (se_table (st_select s))) \<noteq> None \<Longrightarrow>
    upper (jn_table (se_join (st_select s))) = n \<Longrightarrow> db n = None \<Longrightarrow>
    spec_step db s (out_err (''Table not found: '' @ n)) db"
| join: "st_type s = ST_SELECT \<Longrightarrow> se_has_join (st_select s) \<Longrightarrow>
    db (upper (se_table (st_select s))) = Some (sc1, rows1) \<Longrightarrow>
    db (upper (jn_table (se_join (st_select s)))) = Some (sc2, rows2) \<Longrightarrow>
    col_index (sc_columns sc1) (jn_on_left (se_join (st_select s))) = Some c1 \<Longrightarrow>
    cd_type (sc_columns sc1 ! c1) = CT_DECIMAL \<Longrightarrow>
    col_index (sc_columns sc2) (jn_on_right (se_join (st_select s))) = Some c2 \<Longrightarrow>
    cd_type (sc_columns sc2 ! c2) = CT_DECIMAL \<Longrightarrow>
    query_ok (sc_columns sc1) (Some (sc_columns sc2)) (st_select s) \<Longrightarrow>
    sortable (st_select s) (filter (sem_row (sc_columns sc1) (Some (sc_columns sc2)) (se_where (st_select s)))
      (nested_join rows1 c1 rows2 c2)) \<Longrightarrow>
    answers (sc_columns sc1) (Some (sc_columns sc2)) (st_select s) (nested_join rows1 c1 rows2 c2) out \<Longrightarrow>
    spec_step db s out db"
| delete_unknown: "st_type s = ST_DELETE \<Longrightarrow> upper (de_table (st_delete s)) = n \<Longrightarrow> db n = None \<Longrightarrow>
    spec_step db s (out_err (''Table not found: '' @ n)) db"
| delete: "st_type s = ST_DELETE \<Longrightarrow> upper (de_table (st_delete s)) = n \<Longrightarrow> db n = Some (sc, rows) \<Longrightarrow> \<not> has_pk sc \<Longrightarrow>
    spec_step db s out_ok (db(n \<mapsto> (sc, [])))"
| no_statement: "st_type s = ST_NONE \<Longrightarrow> spec_step db s \<lparr>eo_code = 1, eo_err = [], eo_rows = []\<rparr> db"

text \<open>What the tables of the executor have to do with the abstract ones.\<close>

definition db_rel :: "executor \<Rightarrow> adb \<Rightarrow> bool" where
  "db_rel ex db \<longleftrightarrow> (\<forall>n. case db n of None \<Rightarrow> ex_tables ex n = None
     | Some (sc, rows) \<Rightarrow> schema_ok sc \<and> tab_ok (ex_tables ex) n sc (has_pk sc) rows)"

lemma db_rel_None: "db_rel ex db \<Longrightarrow> db n = None \<Longrightarrow> ex_tables ex n = None"
  by (auto simp: db_rel_def split: option.splits dest!: spec [of _ n])

lemma db_rel_Some:
  "db_rel ex db \<Longrightarrow> db n = Some (sc, rows) \<Longrightarrow> schema_ok sc \<and> tab_ok (ex_tables ex) n sc (has_pk sc) rows"
  by (auto simp: db_rel_def dest!: spec [of _ n])

lemma db_rel_new: "db_rel (exec_new dir) Map.empty"
  by (simp add: db_rel_def exec_new_def)

lemma db_rel_upd:
  assumes "db_rel ex db" and "schema_ok sc" and "tb_schema t = sc" and "table_inv (has_pk sc) t rows"
  shows "db_rel (ex\<lparr>ex_tables := (ex_tables ex)(n \<mapsto> t)\<rparr>) (db(n \<mapsto> (sc, rows)))"
proof -
  have "tab_ok ((ex_tables ex)(n \<mapsto> t)) m sc' pk rows' \<longleftrightarrow> tab_ok (ex_tables ex) m sc' pk rows'" if "m \<noteq> n" for m sc' pk rows'
    using that by (simp add: tab_ok_def)
  moreover have "tab_ok ((ex_tables ex)(n \<mapsto> t)) n sc (has_pk sc) rows" using assms(3,4) by (rule tab_ok_upd)
  ultimately show ?thesis
    using assms(2) db_rel_None [OF assms(1)] db_rel_Some [OF assms(1)]
    unfolding db_rel_def by (auto split: option.splits)
qed

lemma db_rel_keeps:
  assumes "db_rel ex db" and "keeps (ex_tables ex) tabs'"
  shows "db_rel (ex\<lparr>ex_tables := tabs'\<rparr>) db"
proof -
  have "tabs' n = None" if "db n = None" for n
    using db_rel_None [OF assms(1) that] assms(2) by (auto simp: keeps_def domIff [symmetric])
  then show ?thesis
    using db_rel_Some [OF assms(1)] keepsD [OF assms(2)] by (auto simp: db_rel_def split: option.splits)
qed

lemma get_table_None: "db_rel ex db \<Longrightarrow> db (upper n) = None \<Longrightarrow> get_table ex n = (None, ''Table not found: '' @ upper n)"
  by (simp add: get_table_def Let_def db_rel_None)

section \<open>The code refines it\<close>

lemma delete_ok:
  assumes "tab_ok (ex_tables ex) (upper (de_table s)) sc False rows"
  shows "\<exists>t. exec_delete s ex = Inr (out_ok, ex\<lparr>ex_tables := (ex_tables ex)(upper (de_table s) \<mapsto> t)\<rparr>) \<and>
    tb_schema t = sc \<and> table_inv False t []"
proof -
  obtain t where t: "get_table ex (de_table s) = (Some t, [])" "tb_schema t = sc" "table_inv False t rows"
    using get_table_ok [OF assms] by blast
  have "table_inv False (table_clear t) []"
    using t(3) cols_inv_clear [of "table_types t"] by (auto simp: table_inv_def table_clear_def rows_ok_def)
  then show ?thesis using t by (auto simp: exec_delete_def table_clear_def)
qed

lemma select_ok:
  assumes "tab_ok (ex_tables ex) (upper (se_table s)) sc (has_pk sc) rows" and "schema_ok sc" and "\<not> se_has_join s"
    and "\<forall>c \<in> set (se_columns s). col_index (sc_columns sc) c \<noteq> None \<or> c = ''*''"
    and "wheres_fit (sc_columns sc) None (se_where s)" and "sort_spec (env_sort env)"
    and "sortable s (filter (sem_row (sc_columns sc) None (se_where s)) rows)"
    and "uses_index s \<longrightarrow> has_pk sc \<and> distinct (map (\<lambda>r. cell_key (hd r)) rows)"
  shows "\<exists>out tabs'. exec_select env s ex = Inr (out, ex\<lparr>ex_tables := tabs'\<rparr>) \<and>
    answers (sc_columns sc) None s rows out \<and> keeps (ex_tables ex) tabs'"
proof (cases "uses_index s")
  case True
  then show ?thesis using assms select_index [of ex s sc rows env] by simp
next
  case False
  then show ?thesis using assms by (intro select_scan) simp_all
qed

lemma select_bad:
  assumes "tab_ok (ex_tables ex) (upper (se_table s)) sc pk rows" and "schema_ok sc" and "\<not> se_has_join s"
    and "se_columns s = xs @ c # ys" and "\<forall>x \<in> set xs. col_index (sc_columns sc) x \<noteq> None \<or> x = ''*''"
    and "col_index (sc_columns sc) c = None" and "c \<noteq> ''*''"
  shows "exec_select env s ex = Inr (out_err (''Unknown column: '' @ c), ex)"
  using get_table_ok [OF assms(1)] assms(3,4) validate_columns_bad [OF schema_names_ok [OF assms(2)] assms(5-7)]
  by (auto simp: exec_select_def Let_def)

lemma join_bad:
  assumes "tab_ok (ex_tables ex) (upper (se_table s)) sc pk rows" and "se_has_join s"
    and "get_table ex (jn_table (se_join s)) = (None, e)"
  shows "exec_select env s ex = Inr (out_err e, ex)"
proof -
  have "ex\<lparr>ex_tables := ex_tables ex\<rparr> = ex" by simp
  then show ?thesis
    using get_table_ok [OF assms(1)] assms(2,3) by (auto simp: exec_select_def Let_def uses_index_def)
qed

lemma exec_simulates:
  assumes srt: "sort_spec (env_sort env)" and rel: "db_rel ex db" and step: "spec_step db s out0 db0"
  shows "\<exists>out ex' db'. exec (disk_env data idx env) s ex = Inr (out, ex') \<and> spec_step db s out db' \<and> db_rel ex' db'"
proof -
  let ?E = "disk_env data idx env"
  have srt': "sort_spec (env_sort ?E)" using srt by (simp add: disk_env_def)
  have stay: ?thesis if "exec ?E s ex = Inr (out0, ex)" and "db0 = db"
    using that step rel by blast
  show ?thesis
    using step
  proof cases
    case create_unnamed
    then show ?thesis by (intro stay) (simp_all add: exec_def exec_create_def)
  next
    case create_again
    then have "ex_tables ex (cr_table (st_create s)) \<noteq> None" using db_rel_Some [OF rel] by (fastforce simp: tab_ok_def)
    then show ?thesis using create_again by (intro stay) (simp_all add: exec_def exec_create_def)
  next
    case (create n sc)
    obtain t where "exec_create ?E (st_create s) ex = Inr (out_ok, ex\<lparr>ex_tables := (ex_tables ex)(n \<mapsto> t)\<rparr>)"
      "tb_schema t = sc" "table_inv (has_pk sc) t []"
      using exec_create_ok [of "st_create s" ex data idx env] create db_rel_None [OF rel] by auto
    then show ?thesis using create step db_rel_upd [OF rel] by (auto simp: exec_def)
  next
    case (insert_unknown n)
    then show ?thesis using get_table_None [OF rel] by (intro stay) (simp_all add: exec_def exec_insert_def)
  next
    case (insert n sc rows pre news)
    obtain t where "exec_insert ?E (st_insert s) ex = Inr (out_ok, ex\<lparr>ex_tables := (ex_tables ex)(n \<mapsto> t)\<rparr>)"
      "tb_schema t = sc" "table_inv (has_pk sc) t (rows @ news)"
      using exec_insert_ok [of ex "st_insert s" sc "has_pk sc" rows pre news ?E] insert db_rel_Some [OF rel] by auto
    then show ?thesis using insert step db_rel_upd [OF rel] db_rel_Some [OF rel insert(5)] by (auto simp: exec_def)
  next
    case (select_unknown n)
    then show ?thesis using get_table_None [OF rel] by (intro stay) (simp_all add: exec_def exec_select_def)
  next
    case (select_bad_column sc rows xs c ys)
    then have "exec_select ?E (st_select s) ex = Inr (out0, ex)"
      using select_bad [of ex "st_select s" sc "has_pk sc" rows xs c ys ?E] db_rel_Some [OF rel select_bad_column(5)] by blast
    then show ?thesis using select_bad_column by (intro stay) (simp_all add: exec_def)
  next
    case (select sc rows)
    have q: "\<forall>c \<in> set (se_columns (st_select s)). col_index (sc_columns sc) c \<noteq> None \<or> c = ''*''"
      "wheres_fit (sc_columns sc) None (se_where (st_select s))"
      using select(5) by (auto simp: query_ok_def list_all_iff query_index_def split: option.splits)
    obtain out tabs' where o: "exec_select ?E (st_select s) ex = Inr (out, ex\<lparr>ex_tables := tabs'\<rparr>)"
      "answers (sc_columns sc) None (st_select s) rows out" "keeps (ex_tables ex) tabs'"
      using select_ok [OF _ _ select(3) q srt' select(6,7)] db_rel_Some [OF rel select(4)] by blast
    have "spec_step db s out db" using select o(2) by (intro spec_step.select) simp_all
    then show ?thesis using o db_rel_keeps [OF rel o(3)] select(2) by (auto simp: exec_def)
  next
    case (join_unknown n)
    then obtain sc rows where "tab_ok (ex_tables ex) (upper (se_table (st_select s))) sc (has_pk sc) rows"
      using db_rel_Some [OF rel] by force
    then show ?thesis
      using join_bad get_table_None [OF rel] join_unknown by (intro stay) (auto simp: exec_def)
  next
    case (join sc1 rows1 sc2 rows2 c1 c2)
    have w: "wheres_fit (sc_columns sc1) (Some (sc_columns sc2)) (se_where (st_select s))" using join(10) by (simp add: query_ok_def)
    note ok1 = db_rel_Some [OF rel join(4)] and ok2 = db_rel_Some [OF rel join(5)]
    obtain out tabs' where o: "exec_select ?E (st_select s) ex = Inr (out, ex\<lparr>ex_tables := tabs'\<rparr>)"
      "answers (sc_columns sc1) (Some (sc_columns sc2)) (st_select s) (nested_join rows1 c1 rows2 c2) out"
      "keeps (ex_tables ex) tabs'"
      using select_join [of ex "st_select s" sc1 "has_pk sc1" rows1 sc2 "has_pk sc2" rows2 c1 c2 ?E] ok1 ok2 join w srt' by blast
    have "spec_step db s out db" using join o(2) by (intro spec_step.join) simp_all
    then show ?thesis using o db_rel_keeps [OF rel o(3)] join(2) by (auto simp: exec_def)
  next
    case (delete_unknown n)
    then show ?thesis using get_table_None [OF rel] by (intro stay) (simp_all add: exec_def exec_delete_def)
  next
    case (delete n sc rows)
    obtain t where "exec_delete (st_delete s) ex = Inr (out_ok, ex\<lparr>ex_tables := (ex_tables ex)(n \<mapsto> t)\<rparr>)"
      "tb_schema t = sc" "table_inv False t []"
      using delete_ok [of ex "st_delete s" sc rows] delete db_rel_Some [OF rel delete(5)] by auto
    then show ?thesis using delete step db_rel_upd [OF rel] db_rel_Some [OF rel delete(5)] by (auto simp: exec_def)
  next
    case no_statement
    then show ?thesis by (intro stay) (simp_all add: exec_def)
  qed
qed

section \<open>Runs of statements\<close>

fun exec_all :: "exec_env \<Rightarrow> statement list \<Rightarrow> executor \<Rightarrow> (exec_out list \<times> executor) res" where
  "exec_all env [] ex = Inr ([], ex)"
| "exec_all env (s # ss) ex =
     rbind (exec env s ex) (\<lambda>(out, ex1). rbind (exec_all env ss ex1) (\<lambda>(outs, ex2). Inr (out # outs, ex2)))"

fun spec_run :: "adb \<Rightarrow> statement list \<Rightarrow> exec_out list \<Rightarrow> adb \<Rightarrow> bool" where
  "spec_run db [] outs db' = (outs = [] \<and> db' = db)"
| "spec_run db (s # ss) outs db' = (case outs of [] \<Rightarrow> False
     | out # outs' \<Rightarrow> \<exists>db1. spec_step db s out db1 \<and> spec_run db1 ss outs' db')"

text \<open>A run in which the specification covers every statement, whatever the outputs before it.\<close>

fun admissible :: "adb \<Rightarrow> statement list \<Rightarrow> bool" where
  "admissible db [] = True"
| "admissible db (s # ss) =
     ((\<exists>out db'. spec_step db s out db') \<and> (\<forall>out db'. spec_step db s out db' \<longrightarrow> admissible db' ss))"

lemma exec_all_simulates:
  assumes "sort_spec (env_sort env)" and "db_rel ex db" and "admissible db ss"
  shows "\<exists>outs ex' db'. exec_all (disk_env data idx env) ss ex = Inr (outs, ex') \<and> spec_run db ss outs db' \<and> db_rel ex' db'"
  using assms(2,3)
proof (induction ss arbitrary: ex db)
  case (Cons s ss)
  obtain out0 db0 where "spec_step db s out0 db0" using Cons.prems(2) by auto
  then obtain out ex1 db1 where o: "exec (disk_env data idx env) s ex = Inr (out, ex1)" "spec_step db s out db1" "db_rel ex1 db1"
    using exec_simulates [OF assms(1) Cons.prems(1)] by blast
  then obtain outs ex2 db2 where "exec_all (disk_env data idx env) ss ex1 = Inr (outs, ex2)" "spec_run db1 ss outs db2" "db_rel ex2 db2"
    using Cons.IH Cons.prems(2) by (meson admissible.simps(2))
  then show ?case using o by (intro exI [of _ "out # outs"] exI [of _ ex2] exI [of _ db2]) auto
qed auto

text \<open>
  C3. A sequence of CREATE, INSERT, SELECT and DELETE statements on the tables of a new executor
  behaves as on a database that keeps each table as a list of rows, for every sequence that the
  specification covers (rows of DECIMAL and VARCHAR literals, at most 31500 of them in a table;
  no DATETIME column, so no row expires; output columns by name, no star; conditions that compare an existing
  column with a literal of its type without quotes; joins on DECIMAL columns; ascending order; DELETE where there
  is no primary key; unknown tables, and unknown output columns without a join): no call
  faults, INSERT appends the rows of its text, SELECT outputs the projected rows that satisfy
  the conditions, of the table (read by the index or by a scan) or of the nested-loop join,
  sorted when it says so, and the errors have their texts. \<open>std::sort\<close> is assumed to sort.
\<close>

theorem database_refines:
  assumes "sort_spec (env_sort env)" and "admissible Map.empty ss"
  shows "\<exists>outs ex' db'. exec_all (disk_env data idx env) ss (exec_new dir) = Inr (outs, ex') \<and>
    spec_run Map.empty ss outs db' \<and> db_rel ex' db'"
  using exec_all_simulates [OF assms(1) db_rel_new assms(2)] .

text \<open>A sorting function for which the assumption on \<open>std::sort\<close> holds.\<close>

fun sort_ins :: "('a \<Rightarrow> 'a \<Rightarrow> bool) \<Rightarrow> 'a \<Rightarrow> 'a list \<Rightarrow> 'a list" where
  "sort_ins lt x [] = [x]"
| "sort_ins lt x (y # ys) = (if lt y x then y # sort_ins lt x ys else x # y # ys)"

definition sort_all :: "('a \<Rightarrow> 'a \<Rightarrow> bool) \<Rightarrow> 'a list \<Rightarrow> 'a list" where
  "sort_all lt xs = foldr (sort_ins lt) xs []"

lemma mset_sort_ins [simp]: "mset (sort_ins lt x ys) = add_mset x (mset ys)"
  by (induction ys) auto

lemma set_sort_ins [simp]: "set (sort_ins lt x ys) = insert x (set ys)"
  by (induction ys) auto

lemma strict_weak_asym:
  assumes "strict_weak lt S" and "x \<in> set S" and "y \<in> set S" and "lt x y"
  shows "\<not> lt y x"
proof
  assume "lt y x"
  then have "lt x x" using assms(2-4) assms(1) [unfolded strict_weak_def, THEN conjunct2, THEN conjunct1] by blast
  then show False using assms(1,2) by (simp add: strict_weak_def)
qed

lemma strict_weak_negtrans:
  assumes sw: "strict_weak lt S" and S: "x \<in> set S" "y \<in> set S" "z \<in> set S" and yx: "\<not> lt y x" and zy: "\<not> lt z y"
  shows "\<not> lt z x"
proof
  assume zx: "lt z x"
  have trans: "\<And>a b c. a \<in> set S \<Longrightarrow> b \<in> set S \<Longrightarrow> c \<in> set S \<Longrightarrow> lt a b \<Longrightarrow> lt b c \<Longrightarrow> lt a c"
    using sw [unfolded strict_weak_def, THEN conjunct2, THEN conjunct1] by blast
  have incomp: "\<And>a b c. a \<in> set S \<Longrightarrow> b \<in> set S \<Longrightarrow> c \<in> set S \<Longrightarrow>
      \<not> lt a b \<and> \<not> lt b a \<and> \<not> lt b c \<and> \<not> lt c b \<Longrightarrow> \<not> lt a c \<and> \<not> lt c a"
    using sw [unfolded strict_weak_def, THEN conjunct2, THEN conjunct2] by blast
  have "\<not> lt x y" using trans [OF S(3,1,2) zx] zy by blast
  moreover have "\<not> lt y z" using trans [OF S(2,3,1) _ zx] yx by blast
  ultimately show False using incomp [OF S] yx zy zx by blast
qed

lemma sorted_sort_ins:
  assumes sw: "strict_weak lt S" and "set (x # ys) \<subseteq> set S" and "sorted_wrt (\<lambda>a b. \<not> lt b a) ys"
  shows "sorted_wrt (\<lambda>a b. \<not> lt b a) (sort_ins lt x ys)"
  using assms(2,3)
proof (induction ys)
  case (Cons y ys)
  have "\<not> lt z x" if "\<not> lt y x" "\<not> lt z y" "z \<in> set S" for z
    using strict_weak_negtrans [OF sw, of x y z] Cons.prems(1) that by simp
  moreover have "\<not> lt x y" if "lt y x" using strict_weak_asym [OF sw, of y x] Cons.prems(1) that by simp
  moreover have "sorted_wrt (\<lambda>a b. \<not> lt b a) (sort_ins lt x ys)" using Cons by simp
  moreover have "\<forall>z \<in> set ys. \<not> lt z y \<and> z \<in> set S" using Cons.prems by auto
  ultimately show ?case using Cons.prems(2) by simp
qed simp

lemma sort_all_spec: "sort_spec sort_all"
proof -
  have "mset (foldr (sort_ins lt) xs []) = mset xs \<and> sorted_wrt (\<lambda>a b. \<not> lt b a) (foldr (sort_ins lt) xs [])"
    if "strict_weak lt S" "set xs \<subseteq> set S" for lt xs and S :: "'a list"
    using that(2)
  proof (induction xs)
    case (Cons x xs)
    let ?r = "foldr (sort_ins lt) xs []"
    have r: "mset ?r = mset xs" "sorted_wrt (\<lambda>a b. \<not> lt b a) ?r" using Cons by simp_all
    have "set (x # ?r) \<subseteq> set S" using Cons.prems mset_eq_setD [OF r(1)] by simp
    then show ?case using r sorted_sort_ins [OF that(1) _ r(2), of x] by simp
  qed simp
  then show ?thesis by (auto simp: sort_spec_def sort_all_def)
qed

text \<open>The text of an INSERT determines its rows.\<close>

lemma rows_text_inj:
  assumes "pre @ rows_text xs = pre' @ rows_text ys" and "CHR ''('' \<notin> set pre" and "CHR ''('' \<notin> set pre'" and "\<forall>r \<in> set xs. row_fits ds r \<and> list_all lit_ok r"
    and "\<forall>r \<in> set ys. row_fits ds r \<and> list_all lit_ok r"
  shows "xs = ys"
proof (rule nth_equalityI)
  have m: "map row_text xs = map row_text ys"
    using tuples_rows_text [of xs pre] tuples_rows_text [of ys pre'] assms by simp
  then show len: "length xs = length ys" using map_eq_imp_length_eq by blast
  fix i assume i: "i < length xs"
  then have "row_text (xs ! i) = row_text (ys ! i)" using len m by (metis nth_map)
  moreover have "parse_values (\<lambda>_. Inr 0) ds (getlines (CHR '','') (row_text r)) = Inr (map cell_db r)"
    if "r = xs ! i \<or> r = ys ! i" for r
    using that assms(4,5) i len parse_values_row by (metis nth_mem)
  ultimately have "map cell_db (xs ! i) = map cell_db (ys ! i)" by (metis sum.inject(2))
  then show "xs ! i = ys ! i" using cell_db_inj by (simp add: inj_map_eq_map)
qed

inductive_cases create_stepE: "spec_step db (empty_statement\<lparr>st_type := ST_CREATE, st_create := c\<rparr>) out db'"
inductive_cases insert_stepE: "spec_step db (empty_statement\<lparr>st_type := ST_INSERT, st_insert := i\<rparr>) out db'"
inductive_cases select_stepE: "spec_step db (empty_statement\<lparr>st_type := ST_SELECT, st_select := q\<rparr>) out db'"

definition demo_rows :: "cell list list" where
  "demo_rows = [[CNum 7, CStr ''Ann''], [CNum 9, CStr ''Bob'']]"

definition demo_create :: statement where
  "demo_create = empty_statement\<lparr>st_type := ST_CREATE,
     st_create := \<lparr>cr_table = ''T'', cr_columns = [(''ID'', ''DECIMAL''), (''NAME'', ''VARCHAR'')]\<rparr>\<rparr>"

definition demo_insert :: statement where
  "demo_insert = empty_statement\<lparr>st_type := ST_INSERT, st_insert := \<lparr>in_table = ''T'', in_raw_values = CHR '' '' # rows_text demo_rows\<rparr>\<rparr>"

definition demo_query :: select_stmt where
  "demo_query = empty_select\<lparr>se_columns := [''NAME''], se_table := ''T'',
     se_where := [\<lparr>wh_column = ''ID'', wh_op = ''='', wh_value = ''9''\<rparr>]\<rparr>"

definition demo_select :: statement where
  "demo_select = empty_statement\<lparr>st_type := ST_SELECT, st_select := demo_query\<rparr>"

lemma demo_schema_of: "schema_of [(''ID'', ''DECIMAL''), (''NAME'', ''VARCHAR'')] = demo_schema"
  by (simp add: schema_of_def demo_schema_def column_type_of_def strncpy_name_def c_str_def char_nat_def)

lemma demo_schema_ok: "schema_ok demo_schema" "has_pk demo_schema"
  by (simp_all add: schema_ok_def demo_schema_def has_pk_def)

lemma demo_rows_ok: "\<forall>r \<in> set demo_rows. row_fits (sc_columns demo_schema) r \<and> list_all lit_ok r"
  by (simp add: demo_rows_def row_fits_def demo_schema_def char_nat_def)

lemma upper_T: "upper ''T'' = ''T''"
  by (simp add: upper_def to_upper_def char_nat_def)

lemma demo_create_step: "spec_step Map.empty demo_create out db' \<longleftrightarrow> out = out_ok \<and> db' = [''T'' \<mapsto> (demo_schema, [])]"
proof
  show "spec_step Map.empty demo_create out db' \<Longrightarrow> out = out_ok \<and> db' = [''T'' \<mapsto> (demo_schema, [])]"
    unfolding demo_create_def by (erule create_stepE) (simp_all add: demo_schema_of)
  show "out = out_ok \<and> db' = [''T'' \<mapsto> (demo_schema, [])] \<Longrightarrow> spec_step Map.empty demo_create out db'"
    using spec_step.create [of demo_create "''T''" Map.empty demo_schema] demo_schema_ok
    by (simp add: demo_create_def demo_schema_of files_apart_def no_datetime_def upper_def to_upper_def char_nat_def)
qed

lemma demo_insert_step:
  "spec_step [''T'' \<mapsto> (demo_schema, [])] demo_insert out db' \<longleftrightarrow> out = out_ok \<and> db' = [''T'' \<mapsto> (demo_schema, demo_rows)]"
proof
  show "spec_step [''T'' \<mapsto> (demo_schema, [])] demo_insert out db' \<Longrightarrow> out = out_ok \<and> db' = [''T'' \<mapsto> (demo_schema, demo_rows)]"
    unfolding demo_insert_def
    by (erule insert_stepE) (auto simp: upper_T dest: rows_text_inj [of "'' ''", simplified, OF _ _ demo_rows_ok])
  show "out = out_ok \<and> db' = [''T'' \<mapsto> (demo_schema, demo_rows)] \<Longrightarrow> spec_step [''T'' \<mapsto> (demo_schema, [])] demo_insert out db'"
    using spec_step.insert [of demo_insert "''T''" "[''T'' \<mapsto> (demo_schema, [])]" demo_schema "[]" "'' ''" demo_rows] demo_rows_ok
    by (simp add: demo_insert_def upper_T) (simp add: demo_rows_def)
qed

lemma demo_query_index: "query_index (sc_columns demo_schema) None ''ID'' = Some 0" "query_index (sc_columns demo_schema) None ''NAME'' = Some 1"
  by (simp_all add: query_index_def col_index_def demo_schema_def)

lemma stoll_9: "stoll ''9'' = Inr 9"
  by (simp add: stoll_def trim_left_def is_space_def is_digit_def char_nat_def digits_value_def digit_val_def Let_def)

lemma demo_answers: "answers (sc_columns demo_schema) None demo_query demo_rows out \<longleftrightarrow> out = out_ok\<lparr>eo_rows := [[''Bob'']]\<rparr>"
  by (simp add: answers_def arranged_def demo_query_def empty_select_def sem_row_def project_def demo_query_index demo_rows_def stoll_9)

lemma demo_select_step:
  "spec_step [''T'' \<mapsto> (demo_schema, demo_rows)] demo_select out db' \<longleftrightarrow>
     out = out_ok\<lparr>eo_rows := [[''Bob'']]\<rparr> \<and> db' = [''T'' \<mapsto> (demo_schema, demo_rows)]"
proof
  have col: "col_index (sc_columns demo_schema) ''NAME'' = Some 1"
    by (simp add: col_index_def demo_schema_def)
  show "spec_step [''T'' \<mapsto> (demo_schema, demo_rows)] demo_select out db' \<Longrightarrow>
     out = out_ok\<lparr>eo_rows := [[''Bob'']]\<rparr> \<and> db' = [''T'' \<mapsto> (demo_schema, demo_rows)]"
    unfolding demo_select_def
    by (erule select_stepE)
      (simp_all add: demo_query_def empty_select_def upper_T demo_answers [unfolded demo_query_def empty_select_def, simplified] col
        Cons_eq_append_conv; use col in force)+
  have "wheres_fit (sc_columns demo_schema) None (se_where demo_query)"
    by (simp add: wheres_fit_def demo_query_def demo_query_index where_fits_def stoll_9)
      (simp add: all_defs_def demo_schema_def)
  then have "query_ok (sc_columns demo_schema) None demo_query"
    by (simp add: query_ok_def) (simp add: demo_query_def empty_select_def demo_query_index)
  moreover have "distinct (map (\<lambda>r. cell_key (hd r)) demo_rows)" by (simp add: demo_rows_def)
  ultimately show "out = out_ok\<lparr>eo_rows := [[''Bob'']]\<rparr> \<and> db' = [''T'' \<mapsto> (demo_schema, demo_rows)] \<Longrightarrow>
     spec_step [''T'' \<mapsto> (demo_schema, demo_rows)] demo_select out db'"
    using spec_step.select [of demo_select "[''T'' \<mapsto> (demo_schema, demo_rows)]" demo_schema demo_rows out] demo_schema_ok
      demo_answers [of out] col
    by (simp add: demo_select_def) (simp add: demo_query_def empty_select_def upper_T sortable_def)
qed

theorem database_refines_witness:
  "\<exists>ex'. exec_all (disk_env (\<lambda>_ _. zero_page) (\<lambda>_ _. fresh_node LEAF)
       \<lparr>env_files = \<lambda>_. Inl Segv, env_idx_files = \<lambda>_. Inl Segv, env_stof = \<lambda>_. Inr 0, env_sort = sort_all\<rparr>)
     [demo_create, demo_insert, demo_select] (exec_new ''data'') =
     Inr ([out_ok, out_ok, out_ok\<lparr>eo_rows := [[''Bob'']]\<rparr>], ex')"
proof -
  let ?env = "\<lparr>env_files = \<lambda>_. Inl Segv, env_idx_files = \<lambda>_. Inl Segv, env_stof = \<lambda>_. Inr 0, env_sort = sort_all\<rparr>"
  have "sort_spec (env_sort ?env)" by (simp add: sort_all_spec)
  moreover have "admissible Map.empty [demo_create, demo_insert, demo_select]"
    by (simp add: demo_create_step demo_insert_step demo_select_step)
      (metis demo_create_step demo_insert_step demo_select_step)
  ultimately obtain outs ex' db' where "exec_all (disk_env (\<lambda>_ _. zero_page) (\<lambda>_ _. fresh_node LEAF) ?env)
      [demo_create, demo_insert, demo_select] (exec_new ''data'') = Inr (outs, ex')"
    "spec_run Map.empty [demo_create, demo_insert, demo_select] outs db'"
    using database_refines by blast
  then show ?thesis
    by (auto simp: demo_create_step demo_insert_step demo_select_step split: list.splits)
qed

end
