(* ===== verification/ExecErrors.thy ===== *)
theory ExecErrors
  imports ExecProps
begin

text \<open>
  The statements that the executor does not handle: what it does instead.
\<close>

section \<open>ORDER BY .. DESC\<close>

text \<open>The comparison of a descending sort holds between a row and itself.\<close>

lemma order_lt_irrefl: "\<not> order_lt i a a"
  by (auto simp: order_lt_def str_less_irrefl split: payload.splits)

lemma sort_rows_desc:
  assumes "2 \<le> length rows" and "list_all (order_readable i) rows"
  shows "sort_rows env i False rows = Inl BadComparator"
proof -
  obtain r rs where "rows = r # rs" using assms(1) by (cases rows) auto
  then have "r \<in> set rows" by simp
  then have "\<not> strict_weak (\<lambda>a b. \<not> order_lt i a b) rows"
    using order_lt_irrefl [of i r] unfolding strict_weak_def by blast
  then show ?thesis using assms by (simp add: sort_rows_def Let_def)
qed

text \<open>
  C27. A descending sort of two or more rows calls \<open>std::sort\<close> with the negation of \<open><\<close>, which is not
  irreflexive and so not a strict weak order: the behaviour of the call is undefined.
\<close>

theorem order_desc_undefined:
  assumes ok: "tab_ok (ex_tables ex) (upper (se_table s)) sc pk rows" and sc: "schema_ok sc"
    and s: "\<not> se_has_join s" "\<forall>c \<in> set (se_columns s). col_index (sc_columns sc) c \<noteq> None \<or> c = ''*''"
    and w: "wheres_fit (sc_columns sc) None (se_where s)" and ni: "\<not> uses_index s"
    and desc: "se_has_order s" "\<not> ob_ascending (se_order_by s)" "col_index (sc_columns sc) (ob_column (se_order_by s)) \<noteq> None"
    and two: "2 \<le> length (filter (sem_row (sc_columns sc) None (se_where s)) rows)"
  shows "exec_select env s ex = Inl BadComparator"
proof -
  let ?ds = "sc_columns sc" and ?kept = "filter (sem_row (sc_columns sc) None (se_where s)) rows"
  obtain t where t: "get_table ex (se_table s) = (Some t, [])" "tb_schema t = sc" using get_table_ok [OF ok] by blast
  have names: "names_ok ?ds" "names_ok (all_defs ?ds None)" using schema_names_ok [OF sc] by (simp_all add: all_defs_def)
  have "?ds \<noteq> []" using sc by (simp add: schema_ok_def)
  then obtain tabs' where tabs': "scan_rows (upper (se_table s)) (ex_tables ex) = Inr (map (map cell_db) rows, tabs')"
    using scan_rows_all [OF ok] by blast
  have rows: "\<forall>r \<in> set rows. row_fits (all_defs ?ds None) r" using tab_ok_rows [OF ok] by (simp add: all_defs_def)
  obtain i where i: "query_index ?ds None (ob_column (se_order_by s)) = Some i"
    using desc(3) by (auto simp: query_index_def)
  have "\<forall>r \<in> set ?kept. i < length r \<and> cell_ok (cd_type (all_defs ?ds None ! i)) (r ! i)"
    using rows row_fits_nth query_index_less [OF i] by auto
  then have "list_all (order_readable i) (map (map cell_db) ?kept)"
    using cell_okD by (fastforce simp: list_all_iff order_readable_def)
  then have "sort_rows env i False (map (map cell_db) ?kept) = Inl BadComparator"
    using two by (intro sort_rows_desc) simp_all
  then have "finish_select env s ?ds None False (map (map cell_db) rows) = Inl BadComparator"
    using filter_rows_sem [OF names(2) rows w] desc(1,2) i locate_column_eq [OF names(2)] by (simp add: finish_select_def)
  then show ?thesis
    using t s(1) validate_columns_ok [OF names(1) s(2)] ni tabs' by (simp add: exec_select_def Let_def)
qed

section \<open>A search by ID without an index\<close>

text \<open>
  C26. \<open>WHERE ID = <number>\<close> on a table whose first column is not called \<open>ID\<close>, with or without
  another column of that name, dereferences the null pointer that \<open>get_index("PK")\<close> returns.
\<close>

theorem id_search_null:
  assumes "cr_table c \<noteq> []" and "schema_ok (schema_of (cr_columns c))" and "\<not> has_pk (schema_of (cr_columns c))"
    and "upper (se_table s) = cr_table c" and "uses_index s" and "stoll (wh_value (hd (se_where s))) = Inr k"
    and "\<forall>x \<in> set (se_columns s). col_index (sc_columns (schema_of (cr_columns c))) x \<noteq> None \<or> x = ''*''"
  shows "exec_all (disk_env data idx env) [empty_statement\<lparr>st_type := ST_CREATE, st_create := c\<rparr>,
    empty_statement\<lparr>st_type := ST_SELECT, st_select := s\<rparr>] (exec_new dir) = Inl NullDeref"
proof -
  let ?sc = "schema_of (cr_columns c)" and ?E = "disk_env data idx env"
  have "list_all cd_terminated (sc_columns ?sc)" using assms(2) by (auto simp: schema_ok_def list_all_iff)
  then obtain cs where "open_columns (disk_files data) dir (cr_table c) (sc_columns ?sc) = Inr cs"
    using open_columns_empty by blast
  then have created: "exec_create ?E c (exec_new dir) =
      Inr (out_ok, exec_new dir\<lparr>ex_tables := [cr_table c \<mapsto> \<lparr>tb_name = cr_table c, tb_schema = ?sc, tb_columns = cs, tb_index = Map.empty\<rparr>]\<rparr>)"
    using assms(1-3) by (simp add: exec_create_def exec_new_def disk_env_def table_open_def first_is_id_ok)
  have "validate_columns (sc_columns ?sc) (se_columns s) = Inr None"
    using validate_columns_ok [OF schema_names_ok [OF assms(2)] assms(7)] .
  then show ?thesis
    using assms(4,5,6) created by (simp add: exec_def exec_select_def get_table_def Let_def index_lookup_def table_of_def im_get_index_def uses_index_def)
qed

section \<open>DELETE and the index\<close>

lemma cleared_cells:
  assumes "table_inv pk t rows"
  shows "\<exists>cs'. read_cells (sc_columns (tb_schema t)) (map col_clear (tb_columns t)) rid =
    Inr (map (\<lambda>d. cell_value (cd_type d) None) (sc_columns (tb_schema t)), cs')"
  using read_cells_nth [of "sc_columns (tb_schema t)" "map col_clear (tb_columns t)" "[]" rid]
    cols_inv_clear [of "map cd_type (sc_columns (tb_schema t))" "tb_columns t" rows] assms
  by (auto simp: table_inv_def rows_ok_def)

text \<open>The columns are empty, the index still finds the row: all cells are missing.\<close>

lemma stale_lookup:
  assumes ok: "tab_ok (ex_tables ex) (upper (de_table d)) sc True rows" and y: "stoll v = Inr y"
    and row: "row \<in> set rows" "cell_key (hd row) = word_of_int y" and len: "length rows < 2 ^ 64"
  shows "\<exists>ex' tabs'. exec_delete d ex = Inr (out_ok, ex') \<and> (\<exists>t. get_table ex' (de_table d) = (Some t, []) \<and> tb_schema t = sc) \<and>
    index_lookup (upper (de_table d)) v (ex_tables ex') =
      Inr (Some (map (\<lambda>d. cell_value (cd_type d) None) (sc_columns sc)), tabs')"
proof -
  let ?n = "upper (de_table d)"
  obtain t where t: "get_table ex (de_table d) = (Some t, [])" "ex_tables ex ?n = Some t" "tb_schema t = sc" "table_inv True t rows"
    using get_table_ok [OF ok] by blast
  obtain bt r bt' where b: "im_get_index (tb_index t) ''PK'' = Some bt" "bpt_search bt (word_of_int y) = Inr (r, bt')"
    "case r of None \<Rightarrow> \<forall>row \<in> set rows. cell_key (hd row) \<noteq> word_of_int y
     | Some rid \<Rightarrow> unat rid < length rows \<and> cell_key (hd (rows ! unat rid)) = word_of_int y"
    using pk_search [OF t(4) len] by blast
  obtain rid where rid: "r = Some rid" using b(3) row by (cases r) auto
  obtain cs' where "read_cells (sc_columns sc) (map col_clear (tb_columns t)) rid =
      Inr (map (\<lambda>d. cell_value (cd_type d) None) (sc_columns sc), cs')"
    using cleared_cells [OF t(4)] t(3) by blast
  then show ?thesis
    using t b(1,2) rid y
    by (simp add: exec_delete_def index_lookup_def table_of_def materialize_in_def materialize_row_def table_clear_def get_table_def Let_def)
qed

lemma missing_texts:
  assumes "names_ok ds" and "\<forall>c \<in> set cols. \<exists>i. col_index ds c = Some i \<and> cd_type (ds ! i) = CT_VARCHAR"
  shows "row_texts ds None (map (\<lambda>d. cell_value (cd_type d) None) ds) cols = Inr (map (\<lambda>_. []) cols)"
  using assms(2)
proof (induction cols)
  case (Cons c cols)
  then obtain i where i: "col_index ds c = Some i" "cd_type (ds ! i) = CT_VARCHAR" "i < length ds" using col_index_less by auto
  have "query_index ds None c = Some i" using i(1) by (simp add: query_index_def)
  then show ?case
    using Cons i assms(1) by (simp add: locate_column_eq all_defs_def cell_text_def cell_value_def)
qed simp

text \<open>
  C22. DELETE empties the columns and leaves the primary-key index as it is. A SELECT by the \<open>ID\<close> of a
  deleted row still outputs one row, with an empty text for each VARCHAR column.
\<close>

theorem deleted_row_returned:
  assumes ok: "tab_ok (ex_tables ex) (upper (se_table s)) sc True rows" and sc: "schema_ok sc"
    and row: "row \<in> set rows" "cell_key (hd row) = word_of_int y" and len: "length rows < 2 ^ 64"
    and s: "uses_index s" "stoll (wh_value (hd (se_where s))) = Inr y" "\<not> se_has_order s"
    and c: "\<forall>c \<in> set (se_columns s). \<exists>i. col_index (sc_columns sc) c = Some i \<and> cd_type (sc_columns sc ! i) = CT_VARCHAR"
  shows "\<exists>ex' tabs'. exec_delete \<lparr>de_table = se_table s\<rparr> ex = Inr (out_ok, ex') \<and>
    exec_select env s ex' = Inr (out_ok\<lparr>eo_rows := [map (\<lambda>_. []) (se_columns s)]\<rparr>, ex'\<lparr>ex_tables := tabs'\<rparr>)"
proof -
  obtain ex' tabs' t where e: "exec_delete \<lparr>de_table = se_table s\<rparr> ex = Inr (out_ok, ex')"
    "get_table ex' (se_table s) = (Some t, [])" "tb_schema t = sc"
    "index_lookup (upper (se_table s)) (wh_value (hd (se_where s))) (ex_tables ex') =
      Inr (Some (map (\<lambda>d. cell_value (cd_type d) None) (sc_columns sc)), tabs')"
    using stale_lookup [of ex "\<lparr>de_table = se_table s\<rparr>" sc rows, OF _ s(2) row len] ok by auto
  have names: "names_ok (sc_columns sc)" using schema_names_ok [OF sc] .
  have "\<forall>c \<in> set (se_columns s). col_index (sc_columns sc) c \<noteq> None \<or> c = ''*''" using c by auto
  then have "exec_select env s ex' = Inr (out_ok\<lparr>eo_rows := [map (\<lambda>_. []) (se_columns s)]\<rparr>, ex'\<lparr>ex_tables := tabs'\<rparr>)"
    using e(2,3,4) s missing_texts [OF names c] validate_columns_ok [OF names]
    by (simp add: exec_select_def Let_def finish_select_def uses_index_def)
  then show ?thesis using e(1) by blast
qed

section \<open>Literals\<close>

lemma stoll_errors: "stoll v = Inl e \<Longrightarrow> e = InvalidArgument \<or> e = OutOfRange"
  by (auto simp: stoll_def Let_def split: if_splits)

text \<open>
  A condition on a DECIMAL column with a literal that is no 64-bit number throws out of
  \<open>exec_select\<close> (\<open>std::stoll\<close> in the filter is not in a \<open>try\<close> block) as soon as the table has a row;
  with \<open>ID = x\<close> too, where the exception of the index path is swallowed first.
\<close>

theorem bad_literal_throws:
  assumes ok: "tab_ok (ex_tables ex) (upper (se_table s)) sc pk rows" and sc: "schema_ok sc" and ne: "rows \<noteq> []"
    and s: "\<not> se_has_join s" "\<forall>c \<in> set (se_columns s). col_index (sc_columns sc) c \<noteq> None \<or> c = ''*''"
    and w: "se_where s = w # ws" "col_index (sc_columns sc) (wh_column w) = Some i" "cd_type (sc_columns sc ! i) = CT_DECIMAL"
      "wh_op w = ''='' \<or> wh_op w = ''>'' \<or> wh_op w = ''>=''" "stoll (wh_value w) = Inl e"
  shows "exec_select env s ex = Inl e"
proof -
  let ?ds = "sc_columns sc" and ?n = "upper (se_table s)"
  obtain t where t: "get_table ex (se_table s) = (Some t, [])" "tb_schema t = sc" using get_table_ok [OF ok] by blast
  have names: "names_ok ?ds" "names_ok (all_defs ?ds None)" using schema_names_ok [OF sc] by (simp_all add: all_defs_def)
  have "?ds \<noteq> []" using sc by (simp add: schema_ok_def)
  then obtain tabs' where tabs': "scan_rows ?n (ex_tables ex) = Inr (map (map cell_db) rows, tabs')"
    using scan_rows_all [OF ok] by blast
  obtain r rs where r: "rows = r # rs" using ne by (cases rows) auto
  then have "row_fits ?ds r" using tab_ok_rows [OF ok] by simp
  then obtain x where x: "i < length r" "r ! i = CNum x"
    using row_fits_nth [of ?ds r i] col_index_less [OF w(2)] w(3) cell_okD by fastforce
  have "query_index ?ds None (wh_column w) = Some i" using w(2) by (simp add: query_index_def)
  then have "eval_where ?ds None (map cell_db r) w = Inl e"
    using x w(4,5) by (auto simp: eval_where_def locate_column_eq [OF names(2)] read_i64_def Let_def)
  then have "filter_rows (match_row ?ds None (se_where s)) (map (map cell_db) rows) = Inl e" by (simp add: w(1) r)
  then have "finish_select env s ?ds None False (map (map cell_db) rows) = Inl e" by (simp add: finish_select_def)
  moreover have "index_lookup ?n (wh_value w) (ex_tables ex) = Inr (None, ex_tables ex)"
    using w(5) stoll_errors [OF w(5)] by (auto simp: index_lookup_def)
  ultimately show ?thesis
    using t s(1) validate_columns_ok [OF names(1) s(2)] tabs' w(1) by (simp add: exec_select_def Let_def)
qed

lemma parse_values_long:
  assumes "length ds < length vs" and "\<forall>i < length ds. \<exists>x. parse_value stof (cd_type (ds ! i)) (trim (vs ! i)) = Inr x"
  shows "parse_values stof ds vs = Inl OutOfBounds"
  using assms
proof (induction stof ds vs rule: parse_values.induct)
  case (3 stof d ds v vs)
  obtain x where x: "parse_value stof (cd_type d) (trim v) = Inr x" using "3.prems"(2) [rule_format, of 0] by auto
  have "\<forall>i < length ds. \<exists>x. parse_value stof (cd_type (ds ! i)) (trim (vs ! i)) = Inr x"
    using "3.prems"(2) [rule_format, of "Suc i" for i] by auto
  then have "parse_values stof ds vs = Inl OutOfBounds" using "3.IH" [OF x] "3.prems"(1) by simp
  then show ?case using x by simp
qed simp_all

text \<open>
  A tuple with more values than the table has columns reads past the end of the column
  definitions.
\<close>

theorem too_many_values:
  assumes ok: "tab_ok (ex_tables ex) (upper (in_table s)) sc pk rows"
    and raw: "in_raw_values s = ''('' @ row_text (row @ extra) @ '')''" and fits: "row_fits (sc_columns sc) row"
    and lits: "list_all lit_ok (row @ extra)" "extra \<noteq> []"
  shows "exec_insert env s ex = Inl OutOfBounds"
proof -
  obtain t where t: "get_table ex (in_table s) = (Some t, [])" "tb_schema t = sc" using get_table_ok [OF ok] by blast
  have cuts: "tuples (in_raw_values s) = [row_text (row @ extra)]"
    using tuples_rows_text [of "[row @ extra]" "[]"] raw lits(1) by (simp add: rows_text_def)
  have cut: "getlines (CHR '','') (row_text (row @ extra)) = map cell_lit (row @ extra)"
    unfolding row_text_def using lits(1) cell_lit_facts(1,3) by (intro getlines_sep_by) (auto simp: list_all_iff)
  have len: "length row = length (sc_columns sc)" using fits by (auto simp: row_fits_def dest: list_all2_lengthD)
  have "\<exists>x. parse_value (env_stof env) (cd_type (sc_columns sc ! i)) (trim (map cell_lit (row @ extra) ! i)) = Inr x"
    if "i < length (sc_columns sc)" for i
  proof -
    have i: "i < length row" "cell_ok (cd_type (sc_columns sc ! i)) (row ! i)" using row_fits_nth [OF fits that] .
    then have "lit_ok (row ! i)" using lits(1) by (simp add: list_all_iff)
    then show ?thesis using i by (simp add: nth_append cell_lit_facts(4) parse_value_lit)
  qed
  then have "parse_values (env_stof env) (sc_columns sc) (map cell_lit (row @ extra)) = Inl OutOfBounds"
    using len lits(2) by (intro parse_values_long) auto
  then show ?thesis using t cuts cut by (simp add: exec_insert_def)
qed

section \<open>The star, and equal keys\<close>

text \<open>
  \<open>SELECT *\<close> passes the check of the column names and prints the text NULL for each row: the
  star is looked up as a column name and never expanded.
\<close>

theorem star_prints_null:
  assumes ok: "tab_ok (ex_tables ex) (upper (se_table s)) sc (has_pk sc) rows" and sc: "schema_ok sc"
    and s: "se_columns s = [''*'']" "se_where s = []" "\<not> se_has_join s" "\<not> se_has_order s"
    and c: "col_index (sc_columns sc) ''*'' = None" and srt: "sort_spec (env_sort env)"
  shows "\<exists>ex'. exec_select env s ex = Inr (out_ok\<lparr>eo_rows := map (\<lambda>_. [''NULL'']) rows\<rparr>, ex')"
proof -
  have "wheres_fit (sc_columns sc) None (se_where s)" "\<not> uses_index s" "sortable s rows'" for rows'
    using s by (simp_all add: wheres_fit_def uses_index_def sortable_def)
  then obtain out ex' where o: "exec_select env s ex = Inr (out, ex')" "answers (sc_columns sc) None s rows out"
    using select_ok [OF ok sc s(3) _ _ srt] s(1) by auto
  have "query_index (sc_columns sc) None ''*'' = None" using c by (simp add: query_index_def)
  then have "out = out_ok\<lparr>eo_rows := map (\<lambda>_. [''NULL'']) rows\<rparr>"
    using o(2) s by (simp add: answers_def arranged_def project_def sem_row_def)
  then show ?thesis using o(1) by blast
qed

text \<open>The search by index outputs one row with the key, if there is one.\<close>

lemma index_hit_one:
  assumes ok: "tab_ok (ex_tables ex) (upper (se_table s)) sc True rows" and sc: "schema_ok sc"
    and s: "\<not> se_has_order s" "\<forall>c \<in> set (se_columns s). col_index (sc_columns sc) c \<noteq> None \<or> c = ''*''"
    and ui: "uses_index s" "stoll (wh_value (hd (se_where s))) = Inr y"
    and r: "r \<in> set rows" "cell_key (hd r) = word_of_int y"
  shows "\<exists>row ex'. row \<in> set rows \<and> cell_key (hd row) = word_of_int y \<and>
    exec_select env s ex = Inr (out_ok\<lparr>eo_rows := [project (sc_columns sc) None (se_columns s) row]\<rparr>, ex')"
proof -
  obtain t where t: "get_table ex (se_table s) = (Some t, [])" "tb_schema t = sc" using get_table_ok [OF ok] by blast
  have names: "names_ok (sc_columns sc)" "names_ok (all_defs (sc_columns sc) None)"
    using schema_names_ok [OF sc] by (simp_all add: all_defs_def)
  obtain hit tabs1 where h: "index_lookup (upper (se_table s)) (wh_value (hd (se_where s))) (ex_tables ex) =
      Inr (map_option (map cell_db) hit, tabs1)"
    "case hit of None \<Rightarrow> \<forall>row \<in> set rows. cell_key (hd row) \<noteq> word_of_int y
     | Some row \<Rightarrow> row \<in> set rows \<and> cell_key (hd row) = word_of_int y"
    using index_lookup_ok [OF ok ui(2)] by blast
  obtain row where row: "hit = Some row" "row \<in> set rows" "cell_key (hd row) = word_of_int y"
    using h(2) r by (cases hit) auto
  have "row_fits (all_defs (sc_columns sc) None) row" using tab_ok_rows [OF ok row(2)] by (simp add: all_defs_def)
  then have "finish_select env s (sc_columns sc) None True [map cell_db row] =
      Inr (out_ok\<lparr>eo_rows := [project (sc_columns sc) None (se_columns s) row]\<rparr>)"
    using s(1) row_texts_eq [OF names(2)] by (simp add: finish_select_def)
  then have "exec_select env s ex = Inr (out_ok\<lparr>eo_rows := [project (sc_columns sc) None (se_columns s) row]\<rparr>, ex\<lparr>ex_tables := tabs1\<rparr>)"
    using t validate_columns_ok [OF names(1) s(2)] ui(1) h(1) row(1) by (simp add: exec_select_def Let_def uses_index_def)
  then show ?thesis using row(2,3) by blast
qed

text \<open>A new table with rows: CREATE and INSERT on a new executor.\<close>

definition fill :: "create_stmt \<Rightarrow> cell list list \<Rightarrow> statement list" where
  "fill c rows = [empty_statement\<lparr>st_type := ST_CREATE, st_create := c\<rparr>,
     empty_statement\<lparr>st_type := ST_INSERT, st_insert := \<lparr>in_table = cr_table c, in_raw_values = CHR '' '' # rows_text rows\<rparr>\<rparr>]"

definition fill_ok :: "create_stmt \<Rightarrow> schema \<Rightarrow> cell list list \<Rightarrow> bool" where
  "fill_ok c sc rows \<longleftrightarrow> cr_table c \<noteq> [] \<and> upper (cr_table c) = cr_table c \<and> schema_of (cr_columns c) = sc \<and> schema_ok sc \<and>
     list_all (\<lambda>r. row_fits (sc_columns sc) r \<and> list_all lit_ok r) rows \<and> length rows \<le> 31500"

lemma filled:
  assumes "fill_ok c sc rows"
  shows "\<exists>ex. exec_all (disk_env data idx env) (fill c rows) (exec_new dir) = Inr ([out_ok, out_ok], ex) \<and>
    tab_ok (ex_tables ex) (cr_table c) sc (has_pk sc) rows"
proof -
  note c = assms [unfolded fill_ok_def]
  let ?E = "disk_env data idx env" and ?i = "\<lparr>in_table = cr_table c, in_raw_values = CHR '' '' # rows_text rows\<rparr>"
  obtain t where t: "exec_create ?E c (exec_new dir) = Inr (out_ok, (exec_new dir)\<lparr>ex_tables := (ex_tables (exec_new dir))(cr_table c \<mapsto> t)\<rparr>)"
    "tb_schema t = sc" "table_inv (has_pk sc) t []"
    using exec_create_ok [of c "exec_new dir" data idx env] c by (auto simp: exec_new_def)
  let ?ex = "(exec_new dir)\<lparr>ex_tables := (ex_tables (exec_new dir))(cr_table c \<mapsto> t)\<rparr>"
  have "tab_ok (ex_tables ?ex) (upper (in_table ?i)) sc (has_pk sc) []" using tab_ok_upd [OF t(2,3)] c by simp
  then obtain u where u: "exec_insert ?E ?i ?ex = Inr (out_ok, ?ex\<lparr>ex_tables := (ex_tables ?ex)(cr_table c \<mapsto> u)\<rparr>)"
    "tb_schema u = sc" "table_inv (has_pk sc) u rows"
    using exec_insert_ok [of ?ex ?i sc "has_pk sc" "[]" "'' ''" rows ?E] c by (auto simp: list_all_iff)
  have "tab_ok ((ex_tables ?ex)(cr_table c \<mapsto> u)) (cr_table c) sc (has_pk sc) rows" using tab_ok_upd [OF u(2,3)] .
  then show ?thesis using t(1) u(1) by (simp add: fill_def exec_def)
qed

text \<open>
  C30. INSERT does not check that keys are new. A table without DATETIME columns is created and filled with
  rows of which two have the same \<open>ID\<close>, and all insertions succeed. A SELECT of this \<open>ID\<close> goes to the index and
  outputs exactly one row that has it; the same SELECT with its condition repeated scans the table and outputs
  all of them.
\<close>

theorem index_one_row:
  assumes c: "fill_ok c sc rows" "has_pk sc" "no_datetime c" and srt: "sort_spec (env_sort env)"
    and s: "upper (se_table s) = cr_table c" "\<not> se_has_order s" "\<forall>x \<in> set (se_columns s). col_index (sc_columns sc) x \<noteq> None"
    and ui: "uses_index s" "stoll (wh_value (hd (se_where s))) = Inr y"
    and dup: "i < j" "j < length rows" "cell_key (hd (rows ! i)) = word_of_int y" "cell_key (hd (rows ! j)) = word_of_int y"
  shows "\<exists>ex row ex1 ex2. exec_all (disk_env data idx env) (fill c rows) (exec_new dir) = Inr ([out_ok, out_ok], ex) \<and>
    row \<in> set rows \<and> cell_key (hd row) = word_of_int y \<and>
    exec_select (disk_env data idx env) s ex = Inr (out_ok\<lparr>eo_rows := [project (sc_columns sc) None (se_columns s) row]\<rparr>, ex1) \<and>
    exec_select (disk_env data idx env) (s\<lparr>se_where := se_where s @ se_where s\<rparr>) ex =
      Inr (out_ok\<lparr>eo_rows := map (project (sc_columns sc) None (se_columns s)) (filter (\<lambda>r. cell_key (hd r) = word_of_int y) rows)\<rparr>, ex2) \<and>
    2 \<le> length (filter (\<lambda>r. cell_key (hd r) = word_of_int y) rows)"
proof -
  let ?E = "disk_env data idx env" and ?ds = "sc_columns sc" and ?s2 = "s\<lparr>se_where := se_where s @ se_where s\<rparr>"
  obtain ex where ex: "exec_all ?E (fill c rows) (exec_new dir) = Inr ([out_ok, out_ok], ex)"
    "tab_ok (ex_tables ex) (cr_table c) sc True rows"
    using filled [OF c(1), of data idx env dir] c(2) by auto
  have sc: "schema_ok sc" using c(1) by (simp add: fill_ok_def)
  have ok: "tab_ok (ex_tables ex) (upper (se_table s)) sc True rows" using ex(2) s(1) by simp
  have cols: "\<forall>x \<in> set (se_columns s). col_index ?ds x \<noteq> None \<or> x = ''*''" using s(3) by blast
  have rj: "rows ! j \<in> set rows" using dup(2) by simp
  obtain row ex1 where one: "row \<in> set rows" "cell_key (hd row) = word_of_int y"
    "exec_select ?E s ex = Inr (out_ok\<lparr>eo_rows := [project ?ds None (se_columns s) row]\<rparr>, ex1)"
    using index_hit_one [OF ok sc s(2) cols ui rj dup(4)] by blast
  obtain w where w: "se_where s = [w]" "wh_column w = ''ID''" "wh_op w = ''=''" "\<not> se_has_join s"
    using ui(1) by (auto simp: uses_index_def length_Suc_conv)
  have sem: "sem_row ?ds None (se_where ?s2) r \<longleftrightarrow> cell_key (hd r) = word_of_int y" if "r \<in> set rows" for r
  proof -
    have "sem_row ?ds None [w, w] r \<longleftrightarrow> sem_row ?ds None [w] r" unfolding sem_row_def by auto
    then show ?thesis using sem_row_id [OF sc c(2) w(2,3) _ tab_ok_rows [OF ok that]] ui(2) w(1) by simp
  qed
  have "query_index ?ds None ''ID'' = Some 0 \<and> cd_type (?ds ! 0) = CT_DECIMAL"
    using sc c(2) by (auto simp: query_index_def col_index_def schema_ok_def has_pk_def neq_Nil_conv)
  then have fit: "wheres_fit ?ds None (se_where ?s2)"
    using w ui(2) by (auto simp: wheres_fit_def where_fits_def all_defs_def)
  have "\<not> uses_index ?s2" using w(1) by (simp add: uses_index_def)
  then obtain out ex2 where o: "exec_select ?E ?s2 ex = Inr (out, ex2)" "answers ?ds None ?s2 rows out"
    using select_scan [of ex ?s2 sc True rows ?E] ok sc cols fit w(4) srt s(2) by (auto simp: sortable_def disk_env_def)
  have "filter (sem_row ?ds None (se_where ?s2)) rows = filter (\<lambda>r. cell_key (hd r) = word_of_int y) rows"
    using sem by (intro filter_cong) simp_all
  then have "out = out_ok\<lparr>eo_rows := map (project ?ds None (se_columns s)) (filter (\<lambda>r. cell_key (hd r) = word_of_int y) rows)\<rparr>"
    using o(2) s(2) by (simp add: answers_def arranged_def)
  moreover have "2 \<le> length (filter (\<lambda>r. cell_key (hd r) = word_of_int y) rows)"
  proof -
    have "card {i, j} \<le> card {k. k < length rows \<and> cell_key (hd (rows ! k)) = word_of_int y}"
      using dup by (intro card_mono) auto
    then show ?thesis using dup(1) by (simp add: length_filter_conv_card)
  qed
  ultimately show ?thesis using ex(1) one o(1) by blast
qed

section \<open>Rows that expire\<close>

text \<open>The table of \<open>tests/test_executor.cpp\<close>. CHAR and DATETIME columns become VARCHAR columns.\<close>

definition emp_create :: create_stmt where
  "emp_create = \<lparr>cr_table = ''EMP'', cr_columns = [(''ID'', ''INT''), (''NAME'', ''CHAR''), (''AGE'', ''INT''), (''EXPIRES'', ''DATETIME'')]\<rparr>"

definition emp_schema :: schema where
  "emp_schema = \<lparr>sc_columns = [\<lparr>cd_name = ''ID'', cd_terminated = True, cd_type = CT_DECIMAL\<rparr>,
     \<lparr>cd_name = ''NAME'', cd_terminated = True, cd_type = CT_VARCHAR\<rparr>, \<lparr>cd_name = ''AGE'', cd_terminated = True, cd_type = CT_DECIMAL\<rparr>,
     \<lparr>cd_name = ''EXPIRES'', cd_terminated = True, cd_type = CT_VARCHAR\<rparr>]\<rparr>"

lemma emp_schema_of: "schema_of (cr_columns emp_create) = emp_schema" "schema_ok emp_schema" "has_pk emp_schema"
proof -
  show "schema_of (cr_columns emp_create) = emp_schema"
    by (simp add: emp_create_def emp_schema_def schema_of_def column_type_of_def strncpy_name_def c_str_def char_nat_def)
qed (simp_all add: emp_schema_def schema_ok_def has_pk_def)

text \<open>
  C21. A row whose DATETIME is past is returned: nothing in INSERT or SELECT looks at the column. For every
  row of a table with distinct keys, whatever the text of its time, a SELECT by its \<open>ID\<close> outputs it, where the
  test expects that an expired row is left out.
\<close>

theorem expired_row_returned:
  assumes c: "fill_ok emp_create emp_schema rows"
    and s: "upper (se_table s) = ''EMP''" "\<not> se_has_order s" "\<forall>x \<in> set (se_columns s). col_index (sc_columns emp_schema) x \<noteq> None \<or> x = ''*''"
    and ui: "uses_index s" "stoll (wh_value (hd (se_where s))) = Inr y" and d: "distinct (map (\<lambda>r. cell_key (hd r)) rows)"
    and row: "[CNum (word_of_int y), CStr name, CNum age, CStr expires] \<in> set rows"
  shows "\<exists>ex ex'. exec_all (disk_env data idx env) (fill emp_create rows) (exec_new dir) = Inr ([out_ok, out_ok], ex) \<and>
    exec_select (disk_env data idx env) s ex = Inr (out_ok\<lparr>eo_rows :=
      [project (sc_columns emp_schema) None (se_columns s) [CNum (word_of_int y), CStr name, CNum age, CStr expires]]\<rparr>, ex')"
proof -
  let ?r = "[CNum (word_of_int y), CStr name, CNum age, CStr expires]"
  obtain ex where ex: "exec_all (disk_env data idx env) (fill emp_create rows) (exec_new dir) = Inr ([out_ok, out_ok], ex)"
    "tab_ok (ex_tables ex) ''EMP'' emp_schema True rows"
    using filled [OF c, of data idx env dir] emp_schema_of(3) by (auto simp: emp_create_def)
  obtain row ex' where o: "row \<in> set rows" "cell_key (hd row) = word_of_int y"
    "exec_select (disk_env data idx env) s ex = Inr (out_ok\<lparr>eo_rows := [project (sc_columns emp_schema) None (se_columns s) row]\<rparr>, ex')"
    using index_hit_one [OF _ emp_schema_of(2) s(2,3) ui row, of ex "disk_env data idx env"] ex(2) s(1) by auto
  have "inj_on (\<lambda>r. cell_key (hd r)) (set rows)" using d by (simp add: distinct_map)
  then have "row = ?r" by (rule inj_onD) (use o(1,2) row in simp_all)
  then show ?thesis using ex(1) o(3) by blast
qed

section \<open>Instances on a small table\<close>

definition demo_env :: exec_env where
  "demo_env = disk_env (\<lambda>_ _. zero_page) (\<lambda>_ _. fresh_node LEAF)
     \<lparr>env_files = \<lambda>_. Inl Segv, env_idx_files = \<lambda>_. Inl Segv, env_stof = \<lambda>_. Inr 0, env_sort = sort_all\<rparr>"

lemma demo_env_sort: "sort_spec (env_sort demo_env)"
  by (simp add: demo_env_def disk_env_def sort_all_spec)

lemma demo_state:
  "\<exists>ex. exec_all demo_env [demo_create, demo_insert] (exec_new ''data'') = Inr ([out_ok, out_ok], ex) \<and>
     tab_ok (ex_tables ex) ''T'' demo_schema True demo_rows"
proof -
  let ?env = "\<lparr>env_files = \<lambda>_. Inl Segv, env_idx_files = \<lambda>_. Inl Segv, env_stof = \<lambda>_. Inr 0, env_sort = sort_all\<rparr>"
  have srt: "sort_spec (env_sort ?env)" by (simp add: sort_all_spec)
  have "admissible Map.empty [demo_create, demo_insert]"
    by (simp add: demo_create_step demo_insert_step) (metis demo_create_step demo_insert_step)
  then obtain outs ex db where e: "exec_all demo_env [demo_create, demo_insert] (exec_new ''data'') = Inr (outs, ex)"
    "spec_run Map.empty [demo_create, demo_insert] outs db" "db_rel ex db"
    using exec_all_simulates [OF srt db_rel_new] unfolding demo_env_def by blast
  have "outs = [out_ok, out_ok]" "db = [''T'' \<mapsto> (demo_schema, demo_rows)]"
    using e(2) by (auto simp: demo_create_step demo_insert_step split: list.splits)
  then show ?thesis using e(1) db_rel_Some [OF e(3), of "''T''" demo_schema demo_rows] demo_schema_ok by simp
qed

lemma demo_col_index:
  "col_index (sc_columns demo_schema) ''ID'' = Some 0" "col_index (sc_columns demo_schema) ''NAME'' = Some 1"
  "col_index (sc_columns demo_schema) ''*'' = None"
  by (simp_all add: col_index_def demo_schema_def)

lemma demo_types: "cd_type (sc_columns demo_schema ! 0) = CT_DECIMAL" "cd_type (sc_columns demo_schema ! 1) = CT_VARCHAR"
  by (simp_all add: demo_schema_def)

definition demo_scan :: select_stmt where
  "demo_scan = empty_select\<lparr>se_columns := [''NAME''], se_table := ''T''\<rparr>"

theorem order_desc_undefined_witness:
  "\<exists>ex. exec_all demo_env [demo_create, demo_insert] (exec_new ''data'') = Inr ([out_ok, out_ok], ex) \<and>
     exec_select demo_env (demo_scan\<lparr>se_has_order := True, se_order_by := \<lparr>ob_column = ''NAME'', ob_ascending = False\<rparr>\<rparr>) ex =
       Inl BadComparator"
proof -
  obtain ex where ex: "exec_all demo_env [demo_create, demo_insert] (exec_new ''data'') = Inr ([out_ok, out_ok], ex)"
    "tab_ok (ex_tables ex) ''T'' demo_schema True demo_rows" using demo_state by blast
  let ?s = "demo_scan\<lparr>se_has_order := True, se_order_by := \<lparr>ob_column = ''NAME'', ob_ascending = False\<rparr>\<rparr>"
  have "2 \<le> length (filter (sem_row (sc_columns demo_schema) None (se_where ?s)) demo_rows)"
    by (simp add: demo_rows_def sem_row_def demo_scan_def empty_select_def)
  then have "exec_select demo_env ?s ex = Inl BadComparator"
    using order_desc_undefined [of ex ?s demo_schema True demo_rows demo_env] ex(2) demo_schema_ok
    by (simp add: demo_scan_def empty_select_def upper_T demo_col_index wheres_fit_def uses_index_def)
  then show ?thesis using ex(1) by blast
qed

theorem id_search_null_witness:
  "exec_all demo_env [empty_statement\<lparr>st_type := ST_CREATE, st_create := \<lparr>cr_table = ''T'', cr_columns = [(''NAME'', ''VARCHAR'')]\<rparr>\<rparr>,
    empty_statement\<lparr>st_type := ST_SELECT, st_select := demo_query\<rparr>] (exec_new ''data'') = Inl NullDeref"
proof -
  let ?sc = "\<lparr>sc_columns = [\<lparr>cd_name = ''NAME'', cd_terminated = True, cd_type = CT_VARCHAR\<rparr>]\<rparr>"
  have sc: "schema_of [(''NAME'', ''VARCHAR'')] = ?sc"
    by (simp add: schema_of_def column_type_of_def strncpy_name_def c_str_def char_nat_def)
  have "schema_ok ?sc" "\<not> has_pk ?sc" "col_index (sc_columns ?sc) ''NAME'' = Some 0"
    by (simp_all add: schema_ok_def has_pk_def col_index_def)
  then show ?thesis
    unfolding demo_env_def
    by (intro id_search_null [where k = 9]) (simp_all add: sc demo_query_def empty_select_def upper_T uses_index_def stoll_9)
qed

theorem deleted_row_returned_witness:
  "\<exists>ex ex' tabs'. exec_all demo_env [demo_create, demo_insert] (exec_new ''data'') = Inr ([out_ok, out_ok], ex) \<and>
     exec_delete \<lparr>de_table = ''T''\<rparr> ex = Inr (out_ok, ex') \<and>
     exec_select demo_env demo_query ex' = Inr (out_ok\<lparr>eo_rows := [[[]]]\<rparr>, ex'\<lparr>ex_tables := tabs'\<rparr>)"
proof -
  obtain ex where ex: "exec_all demo_env [demo_create, demo_insert] (exec_new ''data'') = Inr ([out_ok, out_ok], ex)"
    "tab_ok (ex_tables ex) ''T'' demo_schema True demo_rows" using demo_state by blast
  have q: "upper (se_table demo_query) = ''T''" "se_table demo_query = ''T''" "uses_index demo_query"
    "stoll (wh_value (hd (se_where demo_query))) = Inr 9" "\<not> se_has_order demo_query" "se_columns demo_query = [''NAME'']"
    by (simp_all add: demo_query_def empty_select_def upper_T uses_index_def stoll_9)
  have row: "[CNum 9, CStr ''Bob''] \<in> set demo_rows" "cell_key (hd [CNum 9, CStr ''Bob'']) = word_of_int 9"
    "length demo_rows < 2 ^ 64" by (simp_all add: demo_rows_def)
  show ?thesis
    using deleted_row_returned [of ex demo_query demo_schema demo_rows, OF _ demo_schema_ok(1) row q(3-5), of demo_env] ex q
      demo_col_index(2) demo_types(2) by fastforce
qed

theorem bad_literal_throws_witness:
  "\<exists>ex. exec_all demo_env [demo_create, demo_insert] (exec_new ''data'') = Inr ([out_ok, out_ok], ex) \<and>
     exec_select demo_env (demo_scan\<lparr>se_where := [\<lparr>wh_column = ''ID'', wh_op = ''>'', wh_value = ''x''\<rparr>]\<rparr>) ex = Inl InvalidArgument"
proof -
  obtain ex where ex: "exec_all demo_env [demo_create, demo_insert] (exec_new ''data'') = Inr ([out_ok, out_ok], ex)"
    "tab_ok (ex_tables ex) ''T'' demo_schema True demo_rows" using demo_state by blast
  let ?w = "\<lparr>wh_column = ''ID'', wh_op = ''>'', wh_value = ''x''\<rparr>"
  have x: "stoll ''x'' = Inl InvalidArgument" by (simp add: stoll_def is_space_def is_digit_def char_nat_def)
  have "demo_rows \<noteq> []" by (simp add: demo_rows_def)
  then have "exec_select demo_env (demo_scan\<lparr>se_where := [?w]\<rparr>) ex = Inl InvalidArgument"
    using bad_literal_throws [of ex "demo_scan\<lparr>se_where := [?w]\<rparr>" demo_schema True demo_rows ?w "[]" 0] ex(2) demo_schema_ok x
    by (simp add: demo_scan_def empty_select_def upper_T demo_col_index demo_types)
  then show ?thesis using ex(1) by blast
qed

theorem too_many_values_witness:
  "\<exists>ex. exec_all demo_env [demo_create, demo_insert] (exec_new ''data'') = Inr ([out_ok, out_ok], ex) \<and>
     exec_insert demo_env \<lparr>in_table = ''T'', in_raw_values = ''('' @ row_text [CNum 1, CStr ''Eve'', CNum 2] @ '')''\<rparr> ex = Inl OutOfBounds"
proof -
  obtain ex where ex: "exec_all demo_env [demo_create, demo_insert] (exec_new ''data'') = Inr ([out_ok, out_ok], ex)"
    "tab_ok (ex_tables ex) ''T'' demo_schema True demo_rows" using demo_state by blast
  have "row_fits (sc_columns demo_schema) [CNum 1, CStr ''Eve'']" by (simp add: row_fits_def demo_schema_def char_nat_def)
  then show ?thesis
    using too_many_values [of ex "\<lparr>in_table = ''T'', in_raw_values = ''('' @ row_text [CNum 1, CStr ''Eve'', CNum 2] @ '')''\<rparr>"
      demo_schema True demo_rows "[CNum 1, CStr ''Eve'']" "[CNum 2]" demo_env] ex by (auto simp: upper_T)
qed

theorem star_prints_null_witness:
  "\<exists>ex ex'. exec_all demo_env [demo_create, demo_insert] (exec_new ''data'') = Inr ([out_ok, out_ok], ex) \<and>
     exec_select demo_env (demo_scan\<lparr>se_columns := [''*'']\<rparr>) ex = Inr (out_ok\<lparr>eo_rows := [[''NULL''], [''NULL'']]\<rparr>, ex')"
proof -
  obtain ex where ex: "exec_all demo_env [demo_create, demo_insert] (exec_new ''data'') = Inr ([out_ok, out_ok], ex)"
    "tab_ok (ex_tables ex) ''T'' demo_schema True demo_rows" using demo_state by blast
  have "\<exists>ex'. exec_select demo_env (demo_scan\<lparr>se_columns := [''*'']\<rparr>) ex =
      Inr (out_ok\<lparr>eo_rows := map (\<lambda>_. [''NULL'']) demo_rows\<rparr>, ex')"
    using ex(2) demo_schema_ok demo_env_sort
    by (intro star_prints_null [of ex _ demo_schema]) (simp_all add: demo_scan_def empty_select_def upper_T demo_col_index)
  then show ?thesis using ex(1) by (auto simp: demo_rows_def)
qed

text \<open>Two rows with the key 9.\<close>

definition twin_rows :: "cell list list" where
  "twin_rows = [[CNum 9, CStr ''Bob''], [CNum 9, CStr ''Eve'']]"

theorem index_one_row_witness:
  "\<exists>ex row ex1 ex2. exec_all demo_env (fill (st_create demo_create) twin_rows) (exec_new ''data'') = Inr ([out_ok, out_ok], ex) \<and>
     row \<in> set twin_rows \<and> exec_select demo_env demo_query ex = Inr (out_ok\<lparr>eo_rows := [project (sc_columns demo_schema) None [''NAME''] row]\<rparr>, ex1) \<and>
     exec_select demo_env (demo_query\<lparr>se_where := se_where demo_query @ se_where demo_query\<rparr>) ex =
       Inr (out_ok\<lparr>eo_rows := [[''Bob''], [''Eve'']]\<rparr>, ex2)"
proof -
  let ?env = "\<lparr>env_files = \<lambda>_. Inl Segv, env_idx_files = \<lambda>_. Inl Segv, env_stof = \<lambda>_. Inr 0, env_sort = sort_all\<rparr>"
  have srt: "sort_spec (env_sort ?env)" by (simp add: sort_all_spec)
  have c: "fill_ok (st_create demo_create) demo_schema twin_rows" "no_datetime (st_create demo_create)"
    using demo_schema_ok(1)
    by (simp_all add: fill_ok_def demo_create_def demo_schema_of upper_T twin_rows_def row_fits_def no_datetime_def)
      (simp_all add: demo_schema_def upper_def to_upper_def char_nat_def)
  have q: "upper (se_table demo_query) = cr_table (st_create demo_create)" "uses_index demo_query"
    "stoll (wh_value (hd (se_where demo_query))) = Inr 9" "\<not> se_has_order demo_query"
    "\<forall>x \<in> set (se_columns demo_query). col_index (sc_columns demo_schema) x \<noteq> None" "se_columns demo_query = [''NAME'']"
    by (simp_all add: demo_query_def empty_select_def upper_T uses_index_def stoll_9 demo_create_def demo_col_index)
  have d: "(0 :: nat) < 1" "1 < length twin_rows" "cell_key (hd (twin_rows ! 0)) = word_of_int 9" "cell_key (hd (twin_rows ! 1)) = word_of_int 9"
    by (simp_all add: twin_rows_def)
  have "filter (\<lambda>r. cell_key (hd r) = word_of_int 9) twin_rows = twin_rows" by (simp add: twin_rows_def)
  moreover have "map (project (sc_columns demo_schema) None [''NAME'']) twin_rows = [[''Bob''], [''Eve'']]"
    by (simp add: twin_rows_def project_def demo_query_index)
  ultimately show ?thesis
    using index_one_row [OF c(1) demo_schema_ok(2) c(2) srt q(1,4,5) q(2,3) d,
        of "\<lambda>_ _. zero_page" "\<lambda>_ _. fresh_node LEAF" "''data''"] q(6) unfolding demo_env_def by metis
qed

theorem expired_row_returned_witness:
  "\<exists>ex ex'. exec_all demo_env (fill emp_create [[CNum 99, CStr ''Ghost'', CNum 50, CStr ''2000-01-01 00:00:00'']]) (exec_new ''data'') =
       Inr ([out_ok, out_ok], ex) \<and>
     exec_select demo_env (empty_select\<lparr>se_columns := [''NAME''], se_table := ''EMP'',
       se_where := [\<lparr>wh_column = ''ID'', wh_op = ''='', wh_value = ''99''\<rparr>]\<rparr>) ex = Inr (out_ok\<lparr>eo_rows := [[''Ghost'']]\<rparr>, ex')"
proof -
  let ?r = "[CNum 99, CStr ''Ghost'', CNum 50, CStr ''2000-01-01 00:00:00'']"
  let ?s = "empty_select\<lparr>se_columns := [''NAME''], se_table := ''EMP'', se_where := [\<lparr>wh_column = ''ID'', wh_op = ''='', wh_value = ''99''\<rparr>]\<rparr>"
  have up: "upper ''EMP'' = ''EMP''" by (simp add: upper_def to_upper_def char_nat_def)
  have "stoll ''99'' = Inr 99"
    by (simp add: stoll_def trim_left_def is_space_def is_digit_def char_nat_def digits_value_def digit_val_def Let_def)
  then have q: "upper (se_table ?s) = ''EMP''" "\<not> se_has_order ?s" "uses_index ?s" "stoll (wh_value (hd (se_where ?s))) = Inr 99"
    "\<forall>x \<in> set (se_columns ?s). col_index (sc_columns emp_schema) x \<noteq> None \<or> x = ''*''"
    by (simp_all add: empty_select_def uses_index_def up col_index_def emp_schema_def)
  have "row_fits (sc_columns emp_schema) ?r \<and> list_all lit_ok ?r" by (simp add: row_fits_def emp_schema_def char_nat_def)
  then have c: "fill_ok emp_create emp_schema [?r]" using emp_schema_of(1,2) up by (simp add: fill_ok_def emp_create_def)
  have "query_index (sc_columns emp_schema) None ''NAME'' = Some 1" by (simp add: query_index_def col_index_def emp_schema_def)
  then have "project (sc_columns emp_schema) None (se_columns ?s) ?r = [''Ghost'']" by (simp add: project_def)
  then show ?thesis
    using expired_row_returned [OF c q(1,2,5,3,4), of "''Ghost''" 50 "''2000-01-01 00:00:00''"] unfolding demo_env_def by auto
qed

text \<open>An operator other than \<open>=\<close>, \<open>>\<close> and \<open>>=\<close> is accepted and never excludes a row.\<close>

lemma unknown_operator_ignored:
  assumes "names_ok (all_defs ds ds2)" and "query_index ds ds2 c = Some i" and "i < length row" and "op \<notin> {''='', ''>'', ''>=''}"
  shows "eval_where ds ds2 row \<lparr>wh_column = c, wh_op = op, wh_value = v\<rparr> = Inr True"
  using assms by (simp add: eval_where_def locate_column_eq Let_def)

end
