(* ===== verification/ParserProofs.thy ===== *)
theory ParserProofs
  imports ParserModel InsertProofs
begin

text \<open>
  The parser reads back what is printed: for each statement a canonical text, and the proof
  that parsing it gives the statement. Names are \<open>ident\<close>: upper case, without white space
  and without the characters at which \<open>strip_delimiters\<close> cuts.
\<close>

section \<open>Names and words\<close>

definition plain :: "char \<Rightarrow> bool" where
  "plain c \<longleftrightarrow> to_upper c = c \<and> \<not> is_space c \<and> c \<notin> set ''.(),;='' "

definition ident :: "string \<Rightarrow> bool" where
  "ident w \<longleftrightarrow> w \<noteq> [] \<and> list_all plain w"

definition word :: "string \<Rightarrow> bool" where
  "word w \<longleftrightarrow> w \<noteq> [] \<and> list_all (\<lambda>c. \<not> is_space c) w"

abbreviation unwords :: "string list \<Rightarrow> string" where
  "unwords \<equiv> sep_by '' ''"

lemma space_facts: "is_space (CHR '' '')" "is_blank (CHR '' '')"
  by (simp_all add: is_space_def is_blank_def char_nat_def)

lemma ident_word: "ident w \<Longrightarrow> word w"
  by (auto simp: ident_def word_def plain_def list_all_iff)

lemma word_no_space: "word w \<Longrightarrow> CHR '' '' \<notin> set w"
  using space_facts by (auto simp: word_def list_all_iff)

lemma ident_chars: "ident w \<Longrightarrow> c \<in> set ''.(),;= '' \<Longrightarrow> c \<notin> set w"
  using space_facts by (auto simp: ident_def plain_def list_all_iff)

lemma ident_upper: "ident w \<Longrightarrow> upper w = w"
  by (auto simp: ident_def plain_def upper_def list_all_iff intro: map_idI)

lemma find_first_none: "find_first P s = None \<longleftrightarrow> (\<forall>c \<in> set s. \<not> P c)"
  by (induction s) auto

lemma find_first_append:
  "\<forall>c \<in> set x. \<not> P c \<Longrightarrow> P c \<Longrightarrow> find_first P (x @ c # y) = Some (length x)"
  by (induction x) auto

lemma find_last_none: "find_last P s = None \<longleftrightarrow> (\<forall>c \<in> set s. \<not> P c)"
  by (simp add: find_last_def find_first_none)

lemma find_last_append:
  assumes "\<forall>c \<in> set y. \<not> P c" and "P c"
  shows "find_last P (x @ c # y) = Some (length x)"
  using find_first_append [of "rev y" P c "rev x"] assms by (simp add: find_last_def)

text \<open>Blanks around a name, and a comma after it, are cut off.\<close>

lemma strip_ident:
  assumes w: "ident w" and a: "\<forall>c \<in> set a. is_blank c" and b: "\<forall>c \<in> set b. is_blank c"
  shows "strip_delimiters (a @ w @ b) = w"
proof -
  have "is_blank c \<Longrightarrow> is_space c" for c by (auto simp: is_blank_def is_space_def)
  then have nb: "\<forall>c \<in> set w. \<not> is_blank c" using w by (auto simp: ident_def plain_def list_all_iff)
  obtain c w' where c: "w = c # w'" using w by (cases w) (auto simp: ident_def)
  obtain d w'' where d: "w = w'' @ [d]" using w by (cases w rule: rev_cases) (auto simp: ident_def)
  have f: "find_first (\<lambda>c. \<not> is_blank c) (a @ w @ b) = Some (length a)"
    using find_first_append [of a "\<lambda>c. \<not> is_blank c" c "w' @ b"] a nb c by simp
  have l: "find_last (\<lambda>c. \<not> is_blank c) (a @ w @ b) = Some (length a + length w - 1)"
    using find_last_append [of b "\<lambda>c. \<not> is_blank c" d "a @ w''"] b nb d by simp
  have "length w > 0" using c by simp
  then have t: "take (length a + length w - 1 - length a + 1) (drop (length a) (a @ w @ b)) = w" by simp
  have cut: "find_last (\<lambda>c. c = CHR ''.'') w = None" "find_first (\<lambda>c. c \<in> set ''(,; '') w = None"
    using ident_chars [OF w] unfolding find_last_none find_first_none by auto
  show ?thesis
    unfolding strip_delimiters_def f l prod.case option.case Let_def t cut by (rule ident_upper [OF w])
qed

lemma strip_name [simp]: "ident w \<Longrightarrow> strip_delimiters w = w"
  using strip_ident [of w "[]" "[]"] by simp

lemma strip_name_left: "ident w \<Longrightarrow> strip_delimiters (CHR '' '' # w) = w"
  using strip_ident [of w "'' ''" "[]"] space_facts by simp

lemma strip_name_right: "ident w \<Longrightarrow> strip_delimiters (w @ '' '') = w"
  using strip_ident [of w "[]" "'' ''"] space_facts by simp

section \<open>Extracting words\<close>

lemma has_word_space: "has_word (CHR '' '' # s) = has_word s"
  by (simp add: has_word_def space_facts)

lemma next_word_space: "next_word p (CHR '' '' # s) = next_word p s"
  by (simp add: next_word_def space_facts)

lemma words_space: "words (CHR '' '' # s) = words s"
  by (subst (1 2) words.simps) (simp add: has_word_space next_word_space)

lemma word_cut:
  assumes "word w" and "r = [] \<or> hd r = CHR '' ''"
  shows "takeWhile (\<lambda>c. \<not> is_space c) (w @ r) = w" "dropWhile (\<lambda>c. \<not> is_space c) (w @ r) = r" "dropWhile is_space (w @ r) = w @ r"
proof -
  have all: "\<forall>c \<in> set w. \<not> is_space c" and ne: "w \<noteq> []" using assms(1) by (auto simp: word_def list_all_iff)
  have r: "takeWhile (\<lambda>c. \<not> is_space c) r = [] \<and> dropWhile (\<lambda>c. \<not> is_space c) r = r"
    using assms(2) space_facts by (cases r) auto
  show "takeWhile (\<lambda>c. \<not> is_space c) (w @ r) = w" "dropWhile (\<lambda>c. \<not> is_space c) (w @ r) = r"
    using all r by (simp_all add: takeWhile_append dropWhile_append)
  show "dropWhile is_space (w @ r) = w @ r" using all ne by (cases w) auto
qed

lemma next_word_word:
  assumes "word w" and "r = [] \<or> hd r = CHR '' ''"
  shows "next_word p (w @ r) = (w, r)" "has_word (w @ r)"
  using word_cut [OF assms] assms(1) by (simp_all add: next_word_def has_word_def word_def)

lemma words_word: "word w \<Longrightarrow> r = [] \<or> hd r = CHR '' '' \<Longrightarrow> words (w @ r) = w # words r"
  by (subst words.simps) (simp add: next_word_word)

lemma words_Nil [simp]: "words [] = []"
  by (subst words.simps) (simp add: has_word_def)

lemma words_unwords: "list_all word ws \<Longrightarrow> words (unwords ws) = ws"
proof (induction "'' ''" ws rule: sep_by.induct)
  case (2 x)
  then show ?case using words_word [of x "[]"] by simp
next
  case (3 x y ys)
  then show ?case using words_word [of x "CHR '' '' # unwords (y # ys)"] by (simp add: words_space)
qed simp

section \<open>Searching keywords\<close>

lemma starts_with_Nil [simp]: "starts_with [] s"
  by (simp add: starts_with_def)

lemma starts_with_Cons [simp]: "starts_with (a # p) (b # s) \<longleftrightarrow> a = b \<and> starts_with p s" "\<not> starts_with (a # p) []"
  by (auto simp: starts_with_def)

lemma starts_with_self: "starts_with p (p @ s)"
  by (simp add: starts_with_def)

text \<open>A text that starts with a space is not found inside a word.\<close>

lemma find_str_skip:
  assumes "c \<notin> set x"
  shows "find_str (c # p) (x @ y) = map_option (\<lambda>i. length x + i) (find_str (c # p) y)"
  using assms
proof (induction x)
  case Nil
  then show ?case by (simp add: option.map_ident)
next
  case (Cons a x)
  then show ?case by (cases "find_str (c # p) y") auto
qed

lemma starts_with_word:
  assumes "CHR '' '' \<notin> set k" and "CHR '' '' \<notin> set w"
  shows "starts_with (k @ CHR '' '' # p) (w @ CHR '' '' # s) \<longleftrightarrow> k = w \<and> starts_with p s"
  using assms
proof (induction k arbitrary: w)
  case Nil
  then show ?case by (cases w) auto
next
  case (Cons a k)
  then show ?case by (cases w) auto
qed

lemma starts_with_last:
  assumes "CHR '' '' \<notin> set w"
  shows "\<not> starts_with (k @ CHR '' '' # p) w"
proof
  assume "starts_with (k @ CHR '' '' # p) w"
  then have "CHR '' '' \<in> set (take (length (k @ CHR '' '' # p)) w)" unfolding starts_with_def by simp
  then show False using assms in_set_takeD by fast
qed

text \<open>The first occurrence of \<open> kw \<close> in a text of words: before the first word \<open>kw\<close> after the first one.\<close>

abbreviation spaced :: "string \<Rightarrow> string \<Rightarrow> string" where
  "spaced k p \<equiv> CHR '' '' # k @ CHR '' '' # p"

lemma find_spaced_none:
  assumes "\<forall>w \<in> set ws. CHR '' '' \<notin> set w" and "CHR '' '' \<notin> set k" and "k \<notin> set (tl ws)"
  shows "find_str (spaced k p) (unwords ws) = None"
  using assms
proof (induction "'' ''" ws rule: sep_by.induct)
  case (2 x)
  then show ?case using find_str_skip [of "CHR '' ''" x "k @ CHR '' '' # p" "[]"] by simp
next
  case (3 x y ys)
  have "\<not> starts_with (k @ CHR '' '' # p) (unwords (y # ys))"
  proof (cases ys)
    case Nil
    then show ?thesis using 3 starts_with_last by simp
  next
    case (Cons z zs)
    then show ?thesis using 3 starts_with_word [of k y p "unwords ys"] by simp
  qed
  moreover have "find_str (spaced k p) (unwords (y # ys)) = None" using 3 by (cases ys) auto
  ultimately show ?case
    using 3 find_str_skip [of "CHR '' ''" x "k @ CHR '' '' # p" "CHR '' '' # unwords (y # ys)"] by simp
qed simp

lemma find_spaced_first:
  assumes "\<forall>w \<in> set pre. CHR '' '' \<notin> set w" and "CHR '' '' \<notin> set k" and "k \<notin> set (tl pre)" and "pre \<noteq> []" and "post \<noteq> []"
    and "starts_with p (unwords post)"
  shows "find_str (spaced k p) (unwords (pre @ k # post)) = Some (length (unwords pre))"
  using assms
proof (induction "'' ''" pre rule: sep_by.induct)
  case (2 x)
  obtain q qs where q: "post = q # qs" using 2 by (cases post) auto
  have "starts_with (k @ CHR '' '' # p) (k @ CHR '' '' # unwords post)" using 2 starts_with_word [of k k p] by simp
  then show ?case
    using 2 q find_str_skip [of "CHR '' ''" x "k @ CHR '' '' # p" "CHR '' '' # k @ CHR '' '' # unwords post"] by simp
next
  case (3 x y ys)
  obtain z zs where z: "ys @ k # post = z # zs" by (cases ys) auto
  have "\<not> starts_with (k @ CHR '' '' # p) (unwords ((y # ys) @ k # post))"
    using 3 starts_with_word [of k y p "unwords (z # zs)"] z by auto
  moreover have "find_str (spaced k p) (unwords ((y # ys) @ k # post)) = Some (length (unwords (y # ys)))"
    using 3 by (cases ys) auto
  ultimately show ?case
    using 3 z find_str_skip [of "CHR '' ''" x "k @ CHR '' '' # p" "CHR '' '' # unwords ((y # ys) @ k # post)"] by simp
qed simp

text \<open>Cutting a text of words at a keyword.\<close>

lemma unwords_split:
  "pre \<noteq> [] \<Longrightarrow> post \<noteq> [] \<Longrightarrow> unwords (pre @ post) = unwords pre @ CHR '' '' # unwords post"
proof (induction "'' ''" pre rule: sep_by.induct)
  case (2 x)
  then show ?case by (cases post) auto
qed simp_all

lemma cut_keyword:
  assumes "\<forall>w \<in> set pre. CHR '' '' \<notin> set w" and "CHR '' '' \<notin> set k" and "k \<notin> set (tl pre)" and "pre \<noteq> []" and "post \<noteq> []"
    and "n = length k + 2"
  shows "find_str (spaced k []) (unwords (pre @ k # post)) = Some (length (unwords pre))"
    "take (length (unwords pre)) (unwords (pre @ k # post)) = unwords pre"
    "drop (length (unwords pre) + n) (unwords (pre @ k # post)) = unwords post"
proof -
  show "find_str (spaced k []) (unwords (pre @ k # post)) = Some (length (unwords pre))"
    using find_spaced_first [OF assms(1-5), of "[]"] by simp
  have u: "unwords (pre @ k # post) = unwords pre @ CHR '' '' # k @ CHR '' '' # unwords post"
    using unwords_split [of pre "k # post"] unwords_split [of "[k]" post] assms(4,5) by simp
  then show "take (length (unwords pre)) (unwords (pre @ k # post)) = unwords pre" by simp
  show "drop (length (unwords pre) + n) (unwords (pre @ k # post)) = unwords post"
    using assms(6) unfolding u by simp
qed

lemma cut_keyword2:
  assumes "\<forall>w \<in> set pre. CHR '' '' \<notin> set w" and "CHR '' '' \<notin> set k" and "k \<notin> set (tl pre)" and "pre \<noteq> []" and "post \<noteq> []"
    and "n = length k + length l + 3"
  shows "find_str (spaced k (l @ '' '')) (unwords (pre @ k # l # post)) = Some (length (unwords pre))"
    "take (length (unwords pre)) (unwords (pre @ k # l # post)) = unwords pre"
    "drop (length (unwords pre) + n) (unwords (pre @ k # l # post)) = unwords post"
proof -
  have lp: "unwords (l # post) = l @ CHR '' '' # unwords post" using unwords_split [of "[l]" post] assms(5) by simp
  then have "starts_with (l @ '' '') (unwords (l # post))" by (simp add: starts_with_def)
  then show "find_str (spaced k (l @ '' '')) (unwords (pre @ k # l # post)) = Some (length (unwords pre))"
    using find_spaced_first [OF assms(1-4), of "l # post" "l @ '' ''"] by simp
  have u: "unwords (pre @ k # l # post) = unwords pre @ CHR '' '' # k @ CHR '' '' # l @ CHR '' '' # unwords post"
    using unwords_split [of pre "k # l # post"] unwords_split [of "[k]" "l # post"] assms(4) lp by simp
  then show "take (length (unwords pre)) (unwords (pre @ k # l # post)) = unwords pre" by simp
  show "drop (length (unwords pre) + n) (unwords (pre @ k # l # post)) = unwords post"
    using assms(6) unfolding u by (simp add: numeral_3_eq_3)
qed

section \<open>CREATE, INSERT and DELETE\<close>

lemma keyword_words:
  "word ''CREATE''" "word ''INSERT''" "word ''DELETE''" "word ''SELECT''" "word ''TABLE''" "word ''INTO''" "word ''FROM''"
  "word ''VALUES''"
  by (simp_all add: word_def is_space_def char_nat_def)

lemma upper_keywords:
  "upper ''CREATE'' = ''CREATE''" "upper ''INSERT'' = ''INSERT''" "upper ''DELETE'' = ''DELETE''" "upper ''SELECT'' = ''SELECT''"
  by (simp_all add: upper_def to_upper_def char_nat_def)

lemma clean_sql_id: "s \<noteq> [] \<Longrightarrow> last s \<noteq> CHR '';'' \<Longrightarrow> \<not> is_space (last s) \<Longrightarrow> clean_sql s = s"
  by (cases s rule: rev_cases) (simp_all add: clean_sql_def)

definition create_text :: "create_stmt \<Rightarrow> string" where
  "create_text c = unwords [''CREATE'', ''TABLE'', cr_table c] @ '' ('' @
     sep_by '', '' (map (\<lambda>(n, ty). n @ '' '' @ ty) (cr_columns c)) @ '')''"

definition create_ok :: "create_stmt \<Rightarrow> bool" where
  "create_ok c \<longleftrightarrow> ident (cr_table c) \<and> cr_table c \<noteq> ''IF'' \<and> cr_columns c \<noteq> [] \<and>
     list_all (\<lambda>(n, ty). ident n \<and> ident ty) (cr_columns c)"

lemma getlines_spaced:
  assumes "d \<noteq> CHR '' ''" and "\<forall>x \<in> set xs. d \<notin> set x \<and> x \<noteq> []"
  shows "getlines d (CHR '' '' # sep_by [d, CHR '' ''] xs) = (if xs = [] then ['' ''] else map (\<lambda>x. CHR '' '' # x) xs)"
  using assms
proof (induction "[d, CHR '' '']" xs rule: sep_by.induct)
  case 1
  then show ?case by (simp add: getlines_last)
next
  case (2 x)
  then show ?case by (simp add: getlines_last)
next
  case (3 x y ys)
  then show ?case
    using getlines_item [of d "CHR '' '' # x" "CHR '' '' # sep_by [d, CHR '' ''] (y # ys)"] by simp
qed

lemma getlines_comma:
  assumes "\<forall>x \<in> set xs. CHR '','' \<notin> set x \<and> x \<noteq> []"
  shows "getlines (CHR '','') (sep_by '', '' xs) = (case xs of [] \<Rightarrow> [] | x # ys \<Rightarrow> x # map (\<lambda>x. CHR '' '' # x) ys)"
proof (cases xs)
  case (Cons x ys)
  show ?thesis
  proof (cases ys)
    case Nil
    then show ?thesis using Cons assms by (simp add: getlines_last)
  next
    case (Cons y zs)
    then show ?thesis
      using \<open>xs = x # ys\<close> assms getlines_spaced [of "CHR '',''" ys]
        getlines_item [of "CHR '',''" x "CHR '' '' # sep_by '', '' ys"] by simp
  qed
qed simp

lemma column_defs_space: "column_defs (map (\<lambda>x. CHR '' '' # x) ds) = column_defs ds"
  by (induction ds) (simp_all add: words_space split: list.splits)

lemma column_defs_map:
  assumes "list_all (\<lambda>(n, ty). ident n \<and> ident ty) cols"
  shows "column_defs (map (\<lambda>(n, ty). n @ '' '' @ ty) cols) = cols"
  using assms
proof (induction cols)
  case (Cons p cols)
  obtain n ty where p: "p = (n, ty)" "ident n" "ident ty" using Cons.prems by (cases p) auto
  have "words (n @ '' '' @ ty) = [n, ty]" using words_unwords [of "[n, ty]"] p ident_word by simp
  then show ?case using Cons p by simp
qed simp

lemma create_columns:
  assumes "list_all (\<lambda>(n, ty). ident n \<and> ident ty) cols"
  shows "column_defs (getlines (CHR '','') (sep_by '', '' (map (\<lambda>(n, ty). n @ '' '' @ ty) cols))) = cols"
proof -
  have "\<forall>x \<in> set (map (\<lambda>(n, ty). n @ '' '' @ ty) cols). CHR '','' \<notin> set x \<and> x \<noteq> []"
    using assms ident_chars by (fastforce simp: list_all_iff)
  note g = getlines_comma [OF this]
  have "column_defs (x # map (\<lambda>x. CHR '' '' # x) ys) = column_defs (x # ys)" for x ys
    by (simp add: column_defs_space split: list.splits)
  then have "column_defs (getlines (CHR '','') (sep_by '', '' (map (\<lambda>(n, ty). n @ '' '' @ ty) cols))) =
      column_defs (map (\<lambda>(n, ty). n @ '' '' @ ty) cols)"
    unfolding g by (cases "map (\<lambda>(n, ty). n @ '' '' @ ty) cols") (simp_all del: column_defs.simps(2) map_is_Nil_conv map_eq_Cons_conv)
  then show ?thesis using column_defs_map [OF assms] by simp
qed

lemma paren_body_text:
  assumes "CHR ''('' \<notin> set pre"
  shows "paren_body (pre @ ''('' @ body @ '')'') = Some body"
proof -
  have "find_first (\<lambda>c. c = CHR ''('') (pre @ ''('' @ body @ '')'') = Some (length pre)"
    using find_first_append [of pre "\<lambda>c. c = CHR ''(''" "CHR ''(''" "body @ '')''"] assms by auto
  moreover have "find_last (\<lambda>c. c = CHR '')'') (pre @ ''('' @ body @ '')'') = Some (length pre + 1 + length body)"
    using find_last_append [of "[]" "\<lambda>c. c = CHR '')''" "CHR '')''" "pre @ ''('' @ body"] by simp
  ultimately show ?thesis by (simp add: paren_body_def)
qed

lemma parse_create_text:
  assumes "create_ok c"
  shows "parse (create_text c) = empty_statement\<lparr>st_type := ST_CREATE, st_create := c\<rparr>"
proof -
  let ?body = "sep_by '', '' (map (\<lambda>(n, ty). n @ '' '' @ ty) (cr_columns c))" and ?n = "cr_table c"
  have c: "ident ?n" "?n \<noteq> ''IF''" "cr_columns c \<noteq> []" "list_all (\<lambda>(n, ty). ident n \<and> ident ty) (cr_columns c)"
    using assms by (simp_all add: create_ok_def)
  define stream where "stream = '' TABLE '' @ ?n @ '' ('' @ ?body @ '')''"
  have txt': "create_text c = ''CREATE'' @ stream" by (simp add: create_text_def stream_def)
  have last: "last (create_text c) = CHR '')''" by (simp add: create_text_def)
  have cl: "clean_sql (create_text c) = create_text c"
    by (rule clean_sql_id) (simp_all add: last is_space_def char_nat_def, simp add: create_text_def)
  have nw: "next_word [] (create_text c) = (''CREATE'', stream)" "has_word (create_text c)"
    unfolding txt' using next_word_word [OF keyword_words(1), of stream] by (simp_all add: stream_def)
  have "words stream = ''TABLE'' # words (CHR '' '' # ?n @ '' ('' @ ?body @ '')'')"
    using words_word [OF keyword_words(5), of "CHR '' '' # ?n @ '' ('' @ ?body @ '')''"] words_space by (simp add: stream_def)
  also have "\<dots> = ''TABLE'' # ?n # words ('' ('' @ ?body @ '')'')"
    using words_word [OF ident_word [OF c(1)], of "'' ('' @ ?body @ '')''"] by (simp add: words_space)
  finally have ws: "words stream = ''TABLE'' # ?n # words ('' ('' @ ?body @ '')'')" .
  have "CHR ''('' \<notin> set (unwords [''CREATE'', ''TABLE'', ?n] @ '' '')" using ident_chars [OF c(1)] by simp
  from paren_body_text [OF this, of ?body] have pb: "paren_body (create_text c) = Some ?body" by (simp add: create_text_def)
  have "parse_create (create_text c) ''CREATE'' (words stream) = c"
    using ws pb c(2) ident_upper [OF c(1)] strip_name [OF c(1)] create_columns [OF c(4)]
    by (simp add: parse_create_def)
  moreover have "is_valid (empty_statement\<lparr>st_type := ST_CREATE, st_create := c\<rparr>) (create_text c)"
    using c by (simp add: is_valid_def ident_def)
  ultimately show ?thesis using cl nw by (simp add: parse_def upper_keywords Let_def)
qed

definition insert_text :: "string \<Rightarrow> string \<Rightarrow> string" where
  "insert_text n raw = unwords [''INSERT'', ''INTO'', n, ''VALUES''] @ '' '' @ raw"

definition delete_text :: "string \<Rightarrow> string" where
  "delete_text n = unwords [''DELETE'', ''FROM'', n]"

text \<open>A word without spaces is found inside one of the words.\<close>

lemma starts_with_no_space:
  assumes "CHR '' '' \<notin> set p" and "\<not> starts_with p x"
  shows "\<not> starts_with p (x @ CHR '' '' # y)"
  using assms
proof (induction p arbitrary: x)
  case (Cons a p)
  then show ?case by (cases x) auto
qed simp

lemma find_str_words:
  assumes "CHR '' '' \<notin> set p" and "p \<noteq> []" and "find_str p x = None"
  shows "find_str p (x @ CHR '' '' # y) = map_option (\<lambda>i. length x + 1 + i) (find_str p y)"
  using assms(3)
proof (induction x)
  case Nil
  obtain a q where "p = a # q" using assms(2) by (cases p) auto
  then show ?case using assms(1) by (auto intro: arg_cong2 [of _ _ _ _ map_option])
next
  case (Cons c x)
  have ns: "\<not> starts_with p (c # x)" "find_str p x = None" using Cons.prems by (auto split: if_splits)
  have "\<not> starts_with p ((c # x) @ CHR '' '' # y)" using starts_with_no_space [OF assms(1) ns(1)] .
  then show ?case using Cons.IH [OF ns(2)] by (cases "find_str p y") auto
qed

lemma second_word_unwords:
  assumes "word k" and "ident n" and "r = [] \<or> hd r = CHR '' ''"
  shows "second_word w0 (words (CHR '' '' # k @ CHR '' '' # n @ r)) = n"
  using words_word [OF assms(1), of "CHR '' '' # n @ r"] words_word [OF ident_word [OF assms(2)] assms(3)]
  by (simp add: words_space second_word_def)

lemma parse_insert_text:
  assumes n: "ident n" "find_str ''VALUES'' n = None" and raw: "raw \<noteq> []" "last raw \<noteq> CHR '';''" "\<not> is_space (last raw)"
  shows "parse (insert_text n raw) =
    empty_statement\<lparr>st_type := ST_INSERT, st_insert := \<lparr>in_table = n, in_raw_values = CHR '' '' # raw\<rparr>\<rparr>"
proof -
  define stream where "stream = '' INTO '' @ n @ '' VALUES '' @ raw"
  have t: "insert_text n raw = ''INSERT'' @ stream" by (simp add: insert_text_def stream_def)
  have "last (insert_text n raw) = last raw" using raw(1) by (simp add: insert_text_def)
  then have cl: "clean_sql (insert_text n raw) = insert_text n raw"
    using raw by (intro clean_sql_id) (simp_all add: insert_text_def)
  have nw: "next_word [] (insert_text n raw) = (''INSERT'', stream)" "has_word (insert_text n raw)"
    unfolding t using next_word_word [OF keyword_words(2), of stream] by (simp_all add: stream_def)
  have ws: "second_word ''INSERT'' (words stream) = n"
    using second_word_unwords [OF keyword_words(6) n(1), of "'' VALUES '' @ raw" "''INSERT''"] by (simp add: stream_def)
  have "find_str ''VALUES'' (n @ CHR '' '' # ''VALUES '' @ raw) = Some (length n + 1)"
    using find_str_words [of "''VALUES''" n "''VALUES '' @ raw"] n(2) by simp
  moreover have "insert_text n raw = ''INSERT INTO'' @ CHR '' '' # n @ CHR '' '' # ''VALUES '' @ raw"
    by (simp add: insert_text_def)
  ultimately have "find_str ''VALUES'' (insert_text n raw) = Some (length n + 13)"
    using find_str_words [of "''VALUES''" "''INSERT INTO''" "n @ CHR '' '' # ''VALUES '' @ raw"] by simp
  moreover have "drop (length n + 19) (insert_text n raw) = CHR '' '' # raw"
  proof -
    have "insert_text n raw = (''INSERT INTO '' @ n @ '' VALUES'') @ CHR '' '' # raw" by (simp add: insert_text_def)
    moreover have "length (''INSERT INTO '' @ n @ '' VALUES'') = length n + 19" by simp
    ultimately show ?thesis by (metis append_eq_conv_conj)
  qed
  ultimately have "parse_insert (insert_text n raw) ''INSERT'' (words stream) = \<lparr>in_table = n, in_raw_values = CHR '' '' # raw\<rparr>"
    using ws n(1) by (simp add: parse_insert_def add.commute)
  then show ?thesis
    using cl nw n(1) by (simp add: parse_def upper_keywords Let_def is_valid_def ident_def)
qed

lemma parse_delete_text:
  assumes "ident n"
  shows "parse (delete_text n) = empty_statement\<lparr>st_type := ST_DELETE, st_delete := \<lparr>de_table = n\<rparr>\<rparr>"
proof -
  define stream where "stream = '' FROM '' @ n"
  have t: "delete_text n = ''DELETE'' @ stream" by (simp add: delete_text_def stream_def)
  have "last (delete_text n) = last n" "last n \<in> set n" using assms by (simp_all add: delete_text_def ident_def)
  then have cl: "clean_sql (delete_text n) = delete_text n"
    using assms by (intro clean_sql_id) (auto simp: delete_text_def ident_def plain_def list_all_iff)
  have nw: "next_word [] (delete_text n) = (''DELETE'', stream)" "has_word (delete_text n)"
    unfolding t using next_word_word [OF keyword_words(3), of stream] by (simp_all add: stream_def)
  have "second_word ''DELETE'' (words stream) = n"
    using second_word_unwords [OF keyword_words(7) assms, of "[]" "''DELETE''"] by (simp add: stream_def)
  then show ?thesis
    using cl nw assms by (simp add: parse_def upper_keywords Let_def is_valid_def ident_def)
qed

section \<open>SELECT\<close>

definition reserved :: "string list" where
  "reserved = [''FROM'', ''INNER'', ''ON'', ''WHERE'', ''ORDER'', ''AND'']"

definition name_ok :: "string \<Rightarrow> bool" where
  "name_ok n \<longleftrightarrow> ident n \<and> n \<notin> set reserved"

definition value_ok :: "string \<Rightarrow> bool" where
  "value_ok v \<longleftrightarrow> word v \<and> v \<notin> set reserved \<and> CHR '';'' \<notin> set v"

fun comma_words :: "string list \<Rightarrow> string list" where
  "comma_words [] = []"
| "comma_words [c] = [c]"
| "comma_words (c # d # cs) = (c @ '','') # comma_words (d # cs)"

fun where_words :: "where_clause list \<Rightarrow> string list" where
  "where_words [] = []"
| "where_words [w] = [wh_column w, wh_op w, wh_value w]"
| "where_words (w # v # ws) = [wh_column w, wh_op w, wh_value w, ''AND''] @ where_words (v # ws)"

definition join_words :: "select_stmt \<Rightarrow> string list" where
  "join_words s = (if se_has_join s then [''INNER'', ''JOIN'', jn_table (se_join s), ''ON'', jn_on_left (se_join s), ''='',
     jn_on_right (se_join s)] else [])"

definition cond_words :: "select_stmt \<Rightarrow> string list" where
  "cond_words s = (if se_where s = [] then [] else ''WHERE'' # where_words (se_where s))"

definition order_words :: "select_stmt \<Rightarrow> string list" where
  "order_words s = (if se_has_order s then [''ORDER'', ''BY'', ob_column (se_order_by s)] @
     (if ob_ascending (se_order_by s) then [] else [''DESC'']) else [])"

definition rest_words :: "select_stmt \<Rightarrow> string list" where
  "rest_words s = se_table s # join_words s @ cond_words s @ order_words s"

definition select_text :: "select_stmt \<Rightarrow> string" where
  "select_text s = unwords (''SELECT'' # comma_words (se_columns s) @ ''FROM'' # rest_words s)"

text \<open>The statements that have such a text; unused parts have their default values.\<close>

definition select_printable :: "select_stmt \<Rightarrow> bool" where
  "select_printable s \<longleftrightarrow> se_columns s \<noteq> [] \<and> list_all name_ok (se_columns s) \<and> name_ok (se_table s) \<and>
     list_all (\<lambda>w. name_ok (wh_column w) \<and> value_ok (wh_op w) \<and> value_ok (wh_value w)) (se_where s) \<and>
     (if se_has_join s then name_ok (jn_table (se_join s)) \<and> name_ok (jn_on_left (se_join s)) \<and> name_ok (jn_on_right (se_join s))
      else se_join s = se_join empty_select) \<and>
     (if se_has_order s then name_ok (ob_column (se_order_by s)) else se_order_by s = se_order_by empty_select)"

lemma name_value: "name_ok n \<Longrightarrow> value_ok n"
  using ident_chars by (auto simp: name_ok_def value_ok_def ident_word)

lemma name_chars: "name_ok n \<Longrightarrow> n \<noteq> [] \<and> CHR '','' \<notin> set n \<and> CHR '';'' \<notin> set n"
  using ident_chars [of n "CHR '',''"] ident_chars [of n "CHR '';''"] by (simp add: name_ok_def ident_def)

text \<open>Every word of the text is one, and a keyword stands only at its place.\<close>

lemma where_words_ok:
  assumes "list_all (\<lambda>w. name_ok (wh_column w) \<and> value_ok (wh_op w) \<and> value_ok (wh_value w)) ws"
  shows "list_all word (where_words ws)" "set (where_words ws) \<inter> set reserved \<subseteq> {''AND''}"
    "ws \<noteq> [] \<Longrightarrow> where_words ws \<noteq> []"
  using assms
  by (induction ws rule: where_words.induct)
    (auto simp: value_ok_def dest!: name_value, simp_all add: word_def is_space_def char_nat_def)

lemma where_clauses_words:
  assumes "list_all (\<lambda>w. name_ok (wh_column w) \<and> value_ok (wh_op w) \<and> value_ok (wh_value w)) ws"
  shows "where_clauses (where_words ws) = ws"
  using assms by (induction ws rule: where_words.induct) (auto simp: name_ok_def reserved_def)

lemma comma_words_ok:
  assumes "list_all name_ok cs"
  shows "list_all word (comma_words cs)" "''FROM'' \<notin> set (comma_words cs)" "unwords (comma_words cs) = sep_by '', '' cs"
proof -
  have comma: "\<not> is_space (CHR '','')" by (simp add: is_space_def char_nat_def)
  have "word c" "word (c @ '','')" "c \<noteq> ''FROM''" "c @ '','' \<noteq> ''FROM''" if "name_ok c" for c
    using that comma ident_word [of c] by (auto simp: name_ok_def word_def reserved_def)
  then show "list_all word (comma_words cs)" "''FROM'' \<notin> set (comma_words cs)"
    using assms by (induction cs rule: comma_words.induct; force)+
  show "unwords (comma_words cs) = sep_by '', '' cs"
  proof (induction cs rule: comma_words.induct)
    case (3 c d cs)
    then show ?case using unwords_split [of "[c @ '','']" "comma_words (d # cs)"] by (cases cs) auto
  qed simp_all
qed

lemma words_no_space: "list_all word ws \<Longrightarrow> \<forall>w \<in> set ws. CHR '' '' \<notin> set w"
  using word_no_space by (auto simp: list_all_iff)

lemma kw_words: "list_all word [''FROM'', ''INNER'', ''JOIN'', ''ON'', ''='', ''WHERE'', ''AND'', ''ORDER'', ''BY'', ''DESC'']"
  by (simp add: word_def is_space_def char_nat_def)

lemma rest_words_ok:
  assumes "select_printable s"
  shows "list_all word (rest_words s)" "list_all word (order_words s)" "list_all word (join_words s)" "list_all word (cond_words s)"
proof -
  show o: "list_all word (order_words s)" and j: "list_all word (join_words s)"
    using assms kw_words ident_word
    by (auto simp: select_printable_def order_words_def join_words_def name_ok_def split: if_splits)
  show c: "list_all word (cond_words s)"
    using assms kw_words where_words_ok(1) [of "se_where s"] by (auto simp: select_printable_def cond_words_def)
  have "word (se_table s)" using assms ident_word by (auto simp: select_printable_def name_ok_def)
  then show "list_all word (rest_words s)" using o j c by (simp add: rest_words_def)
qed

lemma kw_places:
  assumes "select_printable s"
  shows "''INNER'' \<notin> set (cond_words s @ order_words s)" "''WHERE'' \<notin> set (join_words s @ order_words s)"
    "''ORDER'' \<notin> set (join_words s @ cond_words s)" "''WHERE'' \<notin> set (where_words (se_where s))"
    "''ORDER'' \<notin> set (where_words (se_where s))"
proof -
  have w: "set (where_words (se_where s)) \<inter> set reserved \<subseteq> {''AND''}"
    using assms where_words_ok(2) by (simp add: select_printable_def)
  show W: "''WHERE'' \<notin> set (where_words (se_where s))" "''ORDER'' \<notin> set (where_words (se_where s))"
    using w by (auto simp: reserved_def)
  have "''INNER'' \<notin> set (where_words (se_where s))" using w by (auto simp: reserved_def)
  then show "''INNER'' \<notin> set (cond_words s @ order_words s)" "''WHERE'' \<notin> set (join_words s @ order_words s)"
    "''ORDER'' \<notin> set (join_words s @ cond_words s)"
    using assms W
    by (auto simp: cond_words_def order_words_def join_words_def select_printable_def name_ok_def reserved_def split: if_splits)
qed

text \<open>The part after \<open>ON\<close>: the condition of the join ends at \<open>WHERE\<close> or \<open>ORDER BY\<close>.\<close>

lemma on_condition:
  assumes "select_printable s" and "se_has_join s"
  defines "l \<equiv> jn_on_left (se_join s)" and "r \<equiv> jn_on_right (se_join s)"
  defines "cond \<equiv> unwords ([l, ''='', r] @ cond_words s @ order_words s)"
  shows "(case (case find_str '' WHERE '' cond of None \<Rightarrow> find_str '' ORDER BY '' cond | Some w \<Rightarrow> Some w)
     of None \<Rightarrow> cond | Some w \<Rightarrow> take w cond) = unwords [l, ''='', r]"
proof -
  have lr: "name_ok l" "name_ok r" using assms(1,2) by (simp_all add: select_printable_def l_def r_def)
  have sp: "\<forall>w \<in> set [l, ''='', r]. CHR '' '' \<notin> set w"
    using lr ident_word word_no_space by (auto simp: name_ok_def)
  have nores: "''WHERE'' \<notin> set [l, ''='', r]" "''ORDER'' \<notin> set [l, ''='', r]" using lr by (auto simp: name_ok_def reserved_def)
  note ok = rest_words_ok [OF assms(1)] and kw = kw_places [OF assms(1)]
  show ?thesis
  proof (cases "se_where s = []")
    case False
    then have "cond_words s = ''WHERE'' # where_words (se_where s)" "where_words (se_where s) \<noteq> []"
      using assms(1) where_words_ok(3) by (simp_all add: cond_words_def select_printable_def)
    then have "find_str '' WHERE '' cond = Some (length (unwords [l, ''='', r]))" "take (length (unwords [l, ''='', r])) cond = unwords [l, ''='', r]"
      using cut_keyword(1,2) [of "[l, ''='', r]" "''WHERE''" "where_words (se_where s) @ order_words s" 7] sp nores
      by (simp_all add: cond_def)
    then show ?thesis by simp
  next
    case True
    then have c: "cond = unwords ([l, ''='', r] @ order_words s)" by (simp add: cond_def cond_words_def)
    have now: "find_str '' WHERE '' cond = None"
      using find_spaced_none [of "[l, ''='', r] @ order_words s" "''WHERE''" "[]"] sp nores kw(2) words_no_space [OF ok(2)]
      by (auto simp: c)
    show ?thesis
    proof (cases "se_has_order s")
      case True
      then obtain os where "order_words s = ''ORDER'' # ''BY'' # os" "os \<noteq> []" by (auto simp: order_words_def)
      then have "find_str '' ORDER BY '' cond = Some (length (unwords [l, ''='', r]))" "take (length (unwords [l, ''='', r])) cond = unwords [l, ''='', r]"
        using cut_keyword2(1,2) [of "[l, ''='', r]" "''ORDER''" os 10 "''BY''"] sp nores by (simp_all add: c)
      then show ?thesis using now by simp
    next
      case False
      then have c2: "cond = unwords [l, ''='', r]" by (simp add: c order_words_def)
      then have "find_str '' ORDER BY '' cond = None"
        using find_spaced_none [of "[l, ''='', r]" "''ORDER''" "''BY ''"] sp nores by simp
      then show ?thesis using now c2 by simp
    qed
  qed
qed

lemma parse_join_text:
  assumes p: "select_printable s" and s0: "\<not> se_has_join s0" "se_join s0 = se_join empty_select"
  shows "parse_join (unwords (rest_words s)) s0 = s0\<lparr>se_has_join := se_has_join s, se_join := se_join s\<rparr>"
proof (cases "se_has_join s")
  case False
  note ok = rest_words_ok [OF p]
  have "''INNER'' \<notin> set (tl (rest_words s))" using kw_places(1) [OF p] False by (simp add: rest_words_def join_words_def)
  then have "find_str '' INNER JOIN '' (unwords (rest_words s)) = None"
    using find_spaced_none [of "rest_words s" "''INNER''" "''JOIN ''"] words_no_space [OF ok(1)] by simp
  moreover have "se_join s = se_join empty_select" using p False by (simp add: select_printable_def)
  ultimately show ?thesis using s0 False by (simp add: parse_join_def)
next
  case True
  define t l r where "t = jn_table (se_join s)" and "l = jn_on_left (se_join s)" and "r = jn_on_right (se_join s)"
  note def = t_def l_def r_def
  have names: "name_ok t" "name_ok l" "name_ok r" "name_ok (se_table s)"
    using p True by (simp_all add: select_printable_def def)
  have sp: "CHR '' '' \<notin> set t" "CHR '' '' \<notin> set l" "CHR '' '' \<notin> set (se_table s)"
    using names ident_word word_no_space by (auto simp: name_ok_def)
  let ?post = "l # ''='' # r # cond_words s @ order_words s"
  have rw: "rest_words s = [se_table s] @ ''INNER'' # ''JOIN'' # ([t] @ ''ON'' # ?post)"
    using True by (simp add: rest_words_def join_words_def def)
  define j where "j = length (unwords [se_table s])"
  have j: "find_str '' INNER JOIN '' (unwords (rest_words s)) = Some j" "drop (j + 12) (unwords (rest_words s)) = unwords ([t] @ ''ON'' # ?post)"
    using cut_keyword2(1,3) [of "[se_table s]" "''INNER''" "[t] @ ''ON'' # ?post" 12 "''JOIN''"] sp unfolding rw j_def by simp_all
  define q where "q = length (unwords [t])"
  have q: "find_str '' ON '' (unwords ([t] @ ''ON'' # ?post)) = Some q" "take q (unwords ([t] @ ''ON'' # ?post)) = t"
    "drop (q + 4) (unwords ([t] @ ''ON'' # ?post)) = unwords ([l, ''='', r] @ cond_words s @ order_words s)"
    using cut_keyword [of "[t]" "''ON''" ?post 4] sp unfolding q_def by simp_all
  note oc = on_condition [OF p True, folded l_def r_def]
  have "CHR ''='' \<notin> set (l @ '' '')" using ident_chars [of l] names(2) by (simp add: name_ok_def)
  then have eq: "find_first (\<lambda>c. c = CHR ''='') (unwords [l, ''='', r]) = Some (length l + 1)"
    using find_first_append [of "l @ '' ''" "\<lambda>c. c = CHR ''=''" "CHR ''=''" "CHR '' '' # r"] by auto
  have cut: "take (length l + 1) (unwords [l, ''='', r]) = l @ '' ''" "drop (length l + 1 + 1) (unwords [l, ''='', r]) = CHR '' '' # r"
    by simp_all
  have "se_join s = \<lparr>jn_table = t, jn_on_left = l, jn_on_right = r\<rparr>" by (simp add: def)
  moreover have "strip_delimiters t = t" "strip_delimiters (l @ '' '') = l" "strip_delimiters (CHR '' '' # r) = r"
    using names strip_name strip_name_left strip_name_right by (auto simp: name_ok_def)
  ultimately show ?thesis
    using True unfolding parse_join_def j option.case Let_def q oc eq cut by simp
qed

lemma order_cut:
  assumes p: "select_printable s" and pre: "pre \<noteq> []" "list_all word pre" "''ORDER'' \<notin> set (tl pre)"
  shows "find_str '' ORDER BY '' (unwords (pre @ order_words s)) = (if se_has_order s then Some (length (unwords pre)) else None)"
    "take (length (unwords pre)) (unwords (pre @ order_words s)) = unwords pre"
    "se_has_order s \<Longrightarrow> drop (length (unwords pre) + 10) (unwords (pre @ order_words s)) = unwords (drop 2 (order_words s))"
proof -
  note sp = words_no_space [OF pre(2)]
  have on: "find_str '' ORDER BY '' (unwords (pre @ order_words s)) = Some (length (unwords pre)) \<and>
      take (length (unwords pre)) (unwords (pre @ order_words s)) = unwords pre \<and>
      drop (length (unwords pre) + 10) (unwords (pre @ order_words s)) = unwords (drop 2 (order_words s))" if o: "se_has_order s"
  proof -
    obtain os where os: "order_words s = ''ORDER'' # ''BY'' # os" "os \<noteq> []" using o by (auto simp: order_words_def)
    show ?thesis using cut_keyword2 [OF sp _ pre(3,1) os(2), of 10 "''BY''"] os(1) by simp
  qed
  have off: "find_str '' ORDER BY '' (unwords (pre @ order_words s)) = None \<and>
      take (length (unwords pre)) (unwords (pre @ order_words s)) = unwords pre" if "\<not> se_has_order s"
    using that find_spaced_none [OF sp, of "''ORDER''" "''BY ''"] pre(3) by (simp add: order_words_def)
  show "find_str '' ORDER BY '' (unwords (pre @ order_words s)) = (if se_has_order s then Some (length (unwords pre)) else None)"
    "take (length (unwords pre)) (unwords (pre @ order_words s)) = unwords pre"
    using on off by (cases "se_has_order s"; simp)+
  show "se_has_order s \<Longrightarrow> drop (length (unwords pre) + 10) (unwords (pre @ order_words s)) = unwords (drop 2 (order_words s))"
    using on by blast
qed

lemma parse_where_text:
  assumes p: "select_printable s"
  shows "parse_where (unwords (rest_words s)) = se_where s"
proof (cases "se_where s = []")
  case True
  note ok = rest_words_ok [OF p]
  have "''WHERE'' \<notin> set (tl (rest_words s))" using kw_places(2) [OF p] True by (simp add: rest_words_def cond_words_def)
  then have "find_str '' WHERE '' (unwords (rest_words s)) = None"
    using find_spaced_none [of "rest_words s" "''WHERE''" "[]"] words_no_space [OF ok(1)] by simp
  then show ?thesis using True by (simp add: parse_where_def)
next
  case False
  let ?W = "where_words (se_where s)"
  note ok = rest_words_ok [OF p]
  have ws: "list_all (\<lambda>w. name_ok (wh_column w) \<and> value_ok (wh_op w) \<and> value_ok (wh_value w)) (se_where s)"
    using p by (simp add: select_printable_def)
  note W = where_words_ok(1,3) [OF ws]
  let ?pre = "se_table s # join_words s"
  have "list_all word ?pre" using ok(1,3) by (simp add: rest_words_def)
  note sp = words_no_space [OF this]
  have rw: "rest_words s = ?pre @ ''WHERE'' # (?W @ order_words s)" using False by (simp add: rest_words_def cond_words_def)
  have "''WHERE'' \<notin> set (tl ?pre)" using kw_places(2) [OF p] by simp
  then have "find_str '' WHERE '' (unwords (rest_words s)) = Some (length (unwords ?pre))"
    "drop (length (unwords ?pre) + 7) (unwords (rest_words s)) = unwords (?W @ order_words s)"
    using cut_keyword(1,3) [of ?pre "''WHERE''" "?W @ order_words s" 7] sp W(2) False unfolding rw by simp_all
  moreover have "''ORDER'' \<notin> set (tl ?W)" using kw_places(5) [OF p] list.set_sel(2) [of ?W] W(2) False by auto
  note oc = order_cut(1,2) [OF p W(2) [OF False] W(1) this]
  have "(case find_str '' ORDER BY '' (unwords (?W @ order_words s)) of None \<Rightarrow> unwords (?W @ order_words s)
      | Some p \<Rightarrow> take p (unwords (?W @ order_words s))) = unwords ?W"
    using oc by (cases "se_has_order s") (simp_all add: order_words_def)
  ultimately show ?thesis
    using words_unwords [OF W(1)] where_clauses_words [OF ws] by (simp add: parse_where_def Let_def)
qed

lemma parse_order_text:
  assumes p: "select_printable s" and s0: "\<not> se_has_order s0" "se_order_by s0 = se_order_by empty_select"
  shows "parse_order (unwords (rest_words s)) s0 = s0\<lparr>se_has_order := se_has_order s, se_order_by := se_order_by s\<rparr>"
proof -
  let ?pre = "se_table s # join_words s @ cond_words s"
  note ok = rest_words_ok [OF p]
  have pre: "list_all word ?pre" "''ORDER'' \<notin> set (tl ?pre)" using ok kw_places(3) [OF p] by (simp_all add: rest_words_def)
  have rw: "rest_words s = ?pre @ order_words s" by (simp add: rest_words_def)
  note oc = order_cut [OF p _ pre, folded rw]
  show ?thesis
  proof (cases "se_has_order s")
    case True
    have o: "name_ok (ob_column (se_order_by s))" using p True by (simp add: select_printable_def)
    have kw: "strip_delimiters ''DESC'' = ''DESC''"
      by (rule strip_name) (simp add: ident_def plain_def to_upper_def is_space_def char_nat_def)
    have d2: "drop 2 (order_words s) = ob_column (se_order_by s) # (if ob_ascending (se_order_by s) then [] else [''DESC''])"
      using True by (simp add: order_words_def)
    have "list_all word (drop 2 (order_words s))" using ok(2) by (auto simp: list_all_iff dest: in_set_dropD)
    then have "words (unwords (drop 2 (order_words s))) = drop 2 (order_words s)" by (rule words_unwords)
    then show ?thesis
      using True oc(1,3) o kw s0 by (cases "ob_ascending (se_order_by s)")
        (simp_all add: parse_order_def d2 name_ok_def empty_select_def)
  next
    case False
    then show ?thesis using oc(1) p s0 by (simp add: parse_order_def select_printable_def)
  qed
qed

lemma where_words_set:
  "x \<in> set (where_words ws) \<Longrightarrow> x = ''AND'' \<or> (\<exists>w \<in> set ws. x = wh_column w \<or> x = wh_op w \<or> x = wh_value w)"
  by (induction ws rule: where_words.induct) auto

lemma unwords_nonempty: "list_all word ws \<Longrightarrow> ws \<noteq> [] \<Longrightarrow> unwords ws \<noteq> []"
  by (cases "('' '', ws)" rule: sep_by.cases) (auto simp: word_def)

lemma rest_no_semicolon:
  assumes "select_printable s"
  shows "\<forall>w \<in> set (rest_words s). CHR '';'' \<notin> set w"
proof -
  have n: "CHR '';'' \<notin> set n" if "name_ok n" for n using name_chars [OF that] by simp
  have w: "\<forall>x \<in> set (where_words ws). CHR '';'' \<notin> set x"
    if "list_all (\<lambda>w. name_ok (wh_column w) \<and> value_ok (wh_op w) \<and> value_ok (wh_value w)) ws" for ws
  proof
    fix x assume "x \<in> set (where_words ws)"
    then consider w where "w \<in> set ws" "x = wh_column w \<or> x = wh_op w \<or> x = wh_value w" | "x = ''AND''"
      using where_words_set by blast
    then show "CHR '';'' \<notin> set x"
    proof cases
      case 1
      then have "name_ok (wh_column w)" "value_ok (wh_op w)" "value_ok (wh_value w)" using that by (auto simp: list_all_iff)
      then show ?thesis using 1(2) n [of "wh_column w"] by (auto simp: value_ok_def)
    qed simp
  qed
  have "\<forall>x \<in> set (join_words s). CHR '';'' \<notin> set x"
    using assms by (cases "se_has_join s") (simp_all add: join_words_def select_printable_def n)
  moreover have "\<forall>x \<in> set (cond_words s). CHR '';'' \<notin> set x"
    using assms w [of "se_where s"] by (simp add: cond_words_def select_printable_def)
  moreover have "\<forall>x \<in> set (order_words s). CHR '';'' \<notin> set x"
    using assms by (cases "se_has_order s") (simp_all add: order_words_def select_printable_def n)
  ultimately show ?thesis using assms by (auto simp: rest_words_def select_printable_def n)
qed

lemma parse_select_text:
  assumes p: "select_printable s"
  shows "parse (select_text s) = empty_statement\<lparr>st_type := ST_SELECT, st_select := s\<rparr>"
proof -
  have cs: "se_columns s \<noteq> []" "list_all name_ok (se_columns s)" "name_ok (se_table s)" using p by (simp_all add: select_printable_def)
  note ok = rest_words_ok [OF p] and cw = comma_words_ok [OF cs(2)]
  let ?C = "comma_words (se_columns s)" and ?R = "rest_words s"
  have cne: "?C \<noteq> []" "?R \<noteq> []" using cs(1) by (cases "se_columns s" rule: comma_words.cases; simp add: rest_words_def)+
  define line where "line = unwords ([] # ?C @ ''FROM'' # ?R)"
  have all: "list_all word (?C @ ''FROM'' # ?R)" using cw(1) ok(1) kw_words by simp
  have line: "line = CHR '' '' # unwords (?C @ ''FROM'' # ?R)"
    using unwords_split [of "[[]]" "?C @ ''FROM'' # ?R"] by (simp add: line_def)
  have t: "select_text s = ''SELECT'' @ line"
    using unwords_split [of "[''SELECT'']" "?C @ ''FROM'' # ?R"] by (simp add: select_text_def line)
  have nw: "next_word [] (select_text s) = (''SELECT'', line)" "has_word (select_text s)"
    unfolding t using next_word_word [OF keyword_words(4), of line] by (simp_all add: line)
  have f: "find_str '' FROM '' line = Some (length (unwords ([] # ?C)))" "take (length (unwords ([] # ?C))) line = unwords ([] # ?C)"
    "drop (length (unwords ([] # ?C)) + 6) line = unwords ?R"
    using cut_keyword [of "[] # ?C" "''FROM''" ?R 6] words_no_space [OF cw(1)] cw(2) cne(2) unfolding line_def by simp_all
  have c: "map strip_delimiters (getlines (CHR '','') (unwords ([] # ?C))) = se_columns s"
  proof -
    have "unwords ([] # ?C) = CHR '' '' # sep_by '', '' (se_columns s)" using cw(3) cne(1) by (cases ?C) auto
    moreover have "\<forall>x \<in> set (se_columns s). CHR '','' \<notin> set x \<and> x \<noteq> []"
      using cs(2) name_chars by (auto simp: list_all_iff)
    ultimately have "getlines (CHR '','') (unwords ([] # ?C)) = map (\<lambda>x. CHR '' '' # x) (se_columns s)"
      using getlines_spaced [of "CHR '',''" "se_columns s"] cs(1) by simp
    then show ?thesis using cs(2) strip_name_left by (auto simp: list_all_iff name_ok_def intro: map_idI)
  qed
  have chars: "\<forall>c \<in> set (unwords ws). \<not> is_space c \<or> c = CHR '' ''" if "list_all word ws" for ws
    using that by (induction "'' ''" ws rule: sep_by.induct) (auto simp: word_def list_all_iff)
  have "\<forall>c \<in> set line. char_nat c \<noteq> 10"
    using chars [OF all] line by (auto simp: is_space_def char_nat_def)
  then have tw: "takeWhile (\<lambda>c. char_nat c \<noteq> 10) line = line" by (simp add: takeWhile_eq_all_conv)
  have "word (se_table s)" "strip_delimiters (se_table s) = se_table s" using cs(3) ident_word strip_name by (auto simp: name_ok_def)
  moreover obtain r where "unwords ?R = se_table s @ r" "r = [] \<or> hd r = CHR '' ''"
    using unwords_split [of "[se_table s]" "tl ?R"] by (cases "tl ?R = []") (auto simp: rest_words_def)
  ultimately have tb: "has_word (unwords ?R)" "strip_delimiters (fst (next_word [] (unwords ?R))) = se_table s"
    using next_word_word by simp_all
  define s0 where "s0 = empty_select\<lparr>se_columns := se_columns s, se_table := se_table s\<rparr>"
  have s0: "\<not> se_has_join s0" "se_join s0 = se_join empty_select" "\<not> se_has_order s0" "se_order_by s0 = se_order_by empty_select"
    by (simp_all add: s0_def empty_select_def)
  have "parse_select line = parse_order (unwords ?R) ((parse_join (unwords ?R) s0)\<lparr>se_where := parse_where (unwords ?R)\<rparr>)"
    unfolding parse_select_def tw Let_def f option.case c s0_def using tb by simp
  also have "\<dots> = s"
    using parse_join_text [OF p s0(1,2)] parse_where_text [OF p] parse_order_text [OF p] s0(3,4) by (simp add: s0_def)
  finally have ps: "parse_select line = s" .
  have last: "last (unwords ws) \<in> set (last ws)" if "list_all word ws" "ws \<noteq> []" for ws
    using that
  proof (induction "'' ''" ws rule: sep_by.induct)
    case (3 x y ys)
    moreover have "unwords (y # ys) \<noteq> []" using 3 by (intro unwords_nonempty) simp_all
    ultimately show ?case by simp
  qed (simp_all add: word_def)
  have "last (select_text s) = last (unwords ?R)"
    using unwords_split [of "''SELECT'' # ?C @ [''FROM'']" ?R] cne(2) unwords_nonempty [OF ok(1) cne(2)]
    by (simp add: select_text_def)
  then have l: "last (select_text s) \<in> set (last ?R)" using last [OF ok(1) cne(2)] by simp
  have "last ?R \<in> set ?R" using cne(2) by simp
  then have "word (last ?R)" "CHR '';'' \<notin> set (last ?R)" using ok(1) rest_no_semicolon [OF p] by (auto simp: list_all_iff)
  then have "clean_sql (select_text s) = select_text s"
    using l by (intro clean_sql_id) (auto simp: word_def list_all_iff t)
  then show ?thesis
    using nw ps name_chars [OF cs(3)] cs(1) by (simp add: parse_def upper_keywords Let_def is_valid_def)
qed

section \<open>What every parsed statement satisfies\<close>

lemma upper_upper: "upper (upper s) = upper s"
proof -
  have "to_upper (to_upper c) = to_upper c" for c
    by (auto simp: to_upper_def char_nat_char_of)
  then show ?thesis by (simp add: upper_def)
qed

lemma strip_upper: "upper (strip_delimiters s) = strip_delimiters s"
proof (cases "strip_delimiters s = []")
  case False
  then obtain v where "strip_delimiters s = upper v"
    by (auto simp: strip_delimiters_def Let_def split: option.splits prod.splits)
  then show ?thesis by (simp add: upper_upper)
qed (simp add: upper_def)

lemma column_defs_upper: "list_all (\<lambda>(n, ty). upper n = n \<and> upper ty = ty) (column_defs ds)"
  by (induction ds) (auto simp: strip_upper split: list.splits)

lemma where_clauses_upper: "list_all (\<lambda>w. upper (wh_column w) = wh_column w) (where_clauses ws)"
  by (induction ws rule: where_clauses.induct) (auto simp: strip_upper)

lemma parse_where_upper: "list_all (\<lambda>w. upper (wh_column w) = wh_column w) (parse_where rest)"
  by (simp add: parse_where_def Let_def where_clauses_upper split: option.splits)

lemma parse_order_fields:
  "se_table (parse_order rest s) = se_table s" "se_columns (parse_order rest s) = se_columns s" "se_where (parse_order rest s) = se_where s"
  by (simp_all add: parse_order_def split: option.splits)

lemma parse_join_fields: "se_table (parse_join rest s) = se_table s" "se_columns (parse_join rest s) = se_columns s"
  by (simp_all add: parse_join_def Let_def split: option.splits)

lemma parse_select_upper:
  "upper (se_table (parse_select s)) = se_table (parse_select s)"
  "list_all (\<lambda>c. upper c = c) (se_columns (parse_select s))"
  "list_all (\<lambda>w. upper (wh_column w) = wh_column w) (se_where (parse_select s))"
  by (auto simp: parse_select_def parse_order_fields parse_join_fields parse_where_upper [unfolded list_all_iff, rule_format] Let_def strip_upper empty_select_def
    list_all_iff upper_def [of "[]"] split: option.splits)

definition join_upper :: "join_clause \<Rightarrow> bool" where
  "join_upper j \<longleftrightarrow> upper (jn_table j) = jn_table j \<and> upper (jn_on_left j) = jn_on_left j \<and> upper (jn_on_right j) = jn_on_right j"

lemma parse_join_upper: "join_upper (se_join s) \<Longrightarrow> join_upper (se_join (parse_join rest s))"
  by (auto simp: parse_join_def join_upper_def Let_def strip_upper split: option.splits)

lemma parse_order_upper:
  "se_join (parse_order rest s) = se_join s"
  "upper (ob_column (se_order_by s)) = ob_column (se_order_by s) \<Longrightarrow>
     upper (ob_column (se_order_by (parse_order rest s))) = ob_column (se_order_by (parse_order rest s))"
  by (auto simp: parse_order_def strip_upper split: option.splits list.splits)

lemma parse_join_order: "se_order_by (parse_join rest s) = se_order_by s"
  by (simp add: parse_join_def Let_def split: option.splits)

lemma parse_select_clauses:
  "join_upper (se_join (parse_select s))"
  "upper (ob_column (se_order_by (parse_select s))) = ob_column (se_order_by (parse_select s))"
proof -
  have e: "join_upper (se_join (empty_select\<lparr>se_columns := c, se_table := t\<rparr>))" "join_upper (se_join empty_select)"
    "upper (ob_column (se_order_by empty_select)) = ob_column (se_order_by empty_select)" for c t
    by (simp_all add: empty_select_def join_upper_def upper_def)
  show "join_upper (se_join (parse_select s))"
    using e parse_join_upper [OF e(1)] by (auto simp: parse_select_def Let_def parse_order_upper(1) split: option.splits)
  show "upper (ob_column (se_order_by (parse_select s))) = ob_column (se_order_by (parse_select s))"
    using e(3) by (auto simp: parse_select_def Let_def parse_join_order intro!: parse_order_upper(2) split: option.splits)
qed

definition stmt_valid :: "statement \<Rightarrow> bool" where
  "stmt_valid s = (case st_type s of
       ST_CREATE \<Rightarrow> cr_table (st_create s) \<noteq> [] \<and> upper (cr_table (st_create s)) = cr_table (st_create s) \<and>
         cr_columns (st_create s) \<noteq> [] \<and> list_all (\<lambda>(n, ty). upper n = n \<and> upper ty = ty) (cr_columns (st_create s))
     | ST_INSERT \<Rightarrow> in_table (st_insert s) \<noteq> [] \<and> upper (in_table (st_insert s)) = in_table (st_insert s) \<and> in_raw_values (st_insert s) \<noteq> []
     | ST_SELECT \<Rightarrow> se_table (st_select s) \<noteq> [] \<and> upper (se_table (st_select s)) = se_table (st_select s) \<and>
         se_columns (st_select s) \<noteq> [] \<and> list_all (\<lambda>c. upper c = c) (se_columns (st_select s)) \<and>
         list_all (\<lambda>w. upper (wh_column w) = wh_column w) (se_where (st_select s)) \<and>
         join_upper (se_join (st_select s)) \<and>
         upper (ob_column (se_order_by (st_select s))) = ob_column (se_order_by (st_select s))
     | ST_DELETE \<Rightarrow> de_table (st_delete s) \<noteq> [] \<and> upper (de_table (st_delete s)) = de_table (st_delete s)
     | ST_NONE \<Rightarrow> True)"

text \<open>
  C19. Whatever the text, a statement that the parser accepts names a table, has a list of columns (CREATE,
  SELECT) or a text of values (INSERT) that is not empty, and its names are in upper case, however they were
  written: table, columns and types, and in a SELECT the columns of the conditions, the joined table and its
  two columns, and the column of ORDER BY. \<open>exec_create\<close> never sees an empty table name, and stores the table
  under the upper-case name by which \<open>get_table\<close> looks it up.
\<close>

theorem parse_valid: "stmt_valid (parse sql)"
proof -
  have none: "stmt_valid (s\<lparr>st_type := ST_NONE\<rparr>)" for s :: statement by (simp add: stmt_valid_def)
  have e: "stmt_valid empty_statement" by (simp add: stmt_valid_def empty_statement_def)
  have "is_valid (empty_statement\<lparr>st_type := ST_CREATE, st_create := parse_create x w ws\<rparr>) y \<Longrightarrow>
      stmt_valid (empty_statement\<lparr>st_type := ST_CREATE, st_create := parse_create x w ws\<rparr>)" for x w ws y
    by (auto simp: stmt_valid_def is_valid_def parse_create_def Let_def strip_upper column_defs_upper split: option.splits prod.splits)
  moreover have "is_valid (empty_statement\<lparr>st_type := ST_INSERT, st_insert := parse_insert x w ws\<rparr>) y \<Longrightarrow>
      stmt_valid (empty_statement\<lparr>st_type := ST_INSERT, st_insert := parse_insert x w ws\<rparr>)" for x w ws y
    by (auto simp: stmt_valid_def is_valid_def parse_insert_def strip_upper)
  moreover have "is_valid (empty_statement\<lparr>st_type := ST_DELETE, st_delete := \<lparr>de_table = strip_delimiters x\<rparr>\<rparr>) y \<Longrightarrow>
      stmt_valid (empty_statement\<lparr>st_type := ST_DELETE, st_delete := \<lparr>de_table = strip_delimiters x\<rparr>\<rparr>)" for x y
    by (auto simp: stmt_valid_def is_valid_def strip_upper)
  moreover have "is_valid (empty_statement\<lparr>st_type := ST_SELECT, st_select := parse_select x\<rparr>) y \<Longrightarrow>
      stmt_valid (empty_statement\<lparr>st_type := ST_SELECT, st_select := parse_select x\<rparr>)" for x y
    by (auto simp: stmt_valid_def is_valid_def parse_select_upper parse_select_clauses)
  ultimately show ?thesis
    unfolding parse_def Let_def by (auto simp: e none split: prod.splits)
qed

end
