(* ===== verification/ServerProofs.thy ===== *)
theory ServerProofs
  imports ServerModel ExecErrors ParserProofs
begin

text \<open>
  The protocol: the server handles the statements of a stream one after the other, however the
  stream is cut into chunks, and the client reads back the rows and the error of each reply.
\<close>

section \<open>Chunks at the server\<close>

lemma c_str_append_id: "\<forall>c \<in> set s. char_nat c \<noteq> 0 \<Longrightarrow> c_str s = s"
  by (rule c_str_id)

lemma cut_append:
  assumes "d \<in> set x"
  shows "takeWhile (\<lambda>c. c \<noteq> d) (x @ y) = takeWhile (\<lambda>c. c \<noteq> d) x"
    "tl (dropWhile (\<lambda>c. c \<noteq> d) (x @ y)) = tl (dropWhile (\<lambda>c. c \<noteq> d) x) @ y"
proof -
  obtain a b where x: "x = a @ d # b" "d \<notin> set a" using split_list_first [OF assms] by blast
  show "takeWhile (\<lambda>c. c \<noteq> d) (x @ y) = takeWhile (\<lambda>c. c \<noteq> d) x" "tl (dropWhile (\<lambda>c. c \<noteq> d) (x @ y)) = tl (dropWhile (\<lambda>c. c \<noteq> d) x) @ y"
    using cut_first [OF x(2), of b] cut_first [OF x(2), of "b @ y"] x(1) by simp_all
qed

lemma drain_append:
  "drain env (s\<lparr>ss_acc := ss_acc s @ x\<rparr>) = rbind (drain env s) (\<lambda>s'. drain env (s'\<lparr>ss_acc := ss_acc s' @ x\<rparr>))"
proof (induction env s rule: drain.induct)
  case (1 env s)
  show ?case
  proof (cases "CHR '';'' \<in> set (ss_acc s)")
    case False
    then have "drain env s = Inr s" by (subst drain.simps) simp
    then show ?thesis by simp
  next
    case True
    let ?sql = "takeWhile (\<lambda>c. c \<noteq> CHR '';'') (ss_acc s)" and ?rest = "tl (dropWhile (\<lambda>c. c \<noteq> CHR '';'') (ss_acc s))"
    show ?thesis
    proof (cases "serve env ?sql (ss_exec s)")
      case (Inl e)
      then show ?thesis using True cut_append [OF True, of x] by (subst (1 2) drain.simps) (simp add: Let_def)
    next
      case (Inr p)
      obtain out ex where p: "p = (out, ex)" by (cases p) auto
      let ?s1 = "\<lparr>ss_acc = ?rest, ss_sent = ss_sent s @ reply out, ss_exec = ex\<rparr>"
      have "drain env s = drain env ?s1" using True Inr p by (subst drain.simps) (simp add: Let_def)
      moreover have "drain env (s\<lparr>ss_acc := ss_acc s @ x\<rparr>) = drain env (?s1\<lparr>ss_acc := ss_acc ?s1 @ x\<rparr>)"
        using True Inr p cut_append [OF True, of x] by (subst drain.simps) (simp add: Let_def)
      ultimately show ?thesis using "1.IH" [OF _ refl refl Inr p [symmetric]] True p by simp
    qed
  qed
qed

lemma drained: "drain env s = Inr s' \<Longrightarrow> CHR '';'' \<notin> set (ss_acc s')"
proof (induction env s rule: drain.induct)
  case (1 env s)
  show ?case
  proof (cases "CHR '';'' \<in> set (ss_acc s)")
    case False
    then show ?thesis using "1.prems" by (subst (asm) drain.simps) auto
  next
    case True
    then obtain out ex where "serve env (takeWhile (\<lambda>c. c \<noteq> CHR '';'') (ss_acc s)) (ss_exec s) = Inr (out, ex)"
      "drain env \<lparr>ss_acc = tl (dropWhile (\<lambda>c. c \<noteq> CHR '';'') (ss_acc s)), ss_sent = ss_sent s @ reply out, ss_exec = ex\<rparr> = Inr s'"
      using "1.prems" by (subst (asm) drain.simps) (auto simp: Let_def split: sum.splits)
    then show ?thesis using "1.IH" True by blast
  qed
qed

definition chunks_ok :: "string list \<Rightarrow> bool" where
  "chunks_ok chunks \<longleftrightarrow> list_all (\<lambda>c. c \<noteq> [] \<and> (\<forall>x \<in> set c. char_nat x \<noteq> 0)) chunks"

lemma handle_client_concat:
  assumes "chunks_ok chunks" and "CHR '';'' \<notin> set (ss_acc s)"
  shows "handle_client env chunks s = drain env (s\<lparr>ss_acc := ss_acc s @ concat chunks\<rparr>)"
  using assms
proof (induction chunks arbitrary: s)
  case Nil
  then show ?case by (subst drain.simps) simp
next
  case (Cons c cs)
  have c: "c \<noteq> []" "c_str c = c" "chunks_ok cs" using Cons.prems(1) c_str_id by (simp_all add: chunks_ok_def)
  let ?s1 = "s\<lparr>ss_acc := ss_acc s @ c\<rparr>"
  have "handle_client env (c # cs) s = rbind (drain env ?s1) (handle_client env cs)" using c by simp
  also have "\<dots> = rbind (drain env ?s1) (\<lambda>s'. drain env (s'\<lparr>ss_acc := ss_acc s' @ concat cs\<rparr>))"
    using Cons.IH [OF c(3) drained] by (cases "drain env ?s1") simp_all
  also have "\<dots> = drain env (?s1\<lparr>ss_acc := ss_acc ?s1 @ concat cs\<rparr>)" by (rule drain_append [symmetric])
  finally show ?case by simp
qed

text \<open>One statement after the other.\<close>

fun serve_all :: "exec_env \<Rightarrow> string list \<Rightarrow> executor \<Rightarrow> (exec_out list \<times> executor) res" where
  "serve_all env [] ex = Inr ([], ex)"
| "serve_all env (q # qs) ex =
     rbind (serve env q ex) (\<lambda>(out, ex1). rbind (serve_all env qs ex1) (\<lambda>(outs, ex2). Inr (out # outs, ex2)))"

definition request_text :: "string list \<Rightarrow> string" where
  "request_text qs = concat (map (\<lambda>q. q @ '';'') qs)"

lemma drain_statements:
  assumes "\<forall>q \<in> set qs. CHR '';'' \<notin> set q" and "CHR '';'' \<notin> set tail"
  shows "drain env \<lparr>ss_acc = request_text qs @ tail, ss_sent = sent, ss_exec = ex\<rparr> =
    rbind (serve_all env qs ex) (\<lambda>(outs, ex'). Inr \<lparr>ss_acc = tail, ss_sent = sent @ concat (map reply outs), ss_exec = ex'\<rparr>)"
  using assms
proof (induction qs arbitrary: sent ex)
  case Nil
  then show ?case by (subst drain.simps) (simp add: request_text_def)
next
  case (Cons q qs)
  have q: "CHR '';'' \<notin> set q" using Cons.prems by simp
  have acc: "request_text (q # qs) @ tail = q @ CHR '';'' # (request_text qs @ tail)" by (simp add: request_text_def)
  show ?case
    using cut_first [OF q, of "request_text qs @ tail"] Cons
    by (subst drain.simps) (auto simp: acc Let_def rbind_def split: sum.splits)
qed

text \<open>
  C17. The server handles a connection statement by statement: for every way the network cuts the
  stream of statements into chunks, the executor sees the statements in order, the replies are sent
  in that order, one for each statement, and an unfinished statement is kept for the next chunk. A
  fault of the executor is a fault of the connection.
\<close>

theorem server_stream:
  assumes "chunks_ok chunks" and "concat chunks = request_text qs @ tail"
    and "\<forall>q \<in> set qs. CHR '';'' \<notin> set q" and "CHR '';'' \<notin> set tail"
  shows "handle_client env chunks \<lparr>ss_acc = [], ss_sent = [], ss_exec = ex\<rparr> =
    rbind (serve_all env qs ex) (\<lambda>(outs, ex'). Inr \<lparr>ss_acc = tail, ss_sent = concat (map reply outs), ss_exec = ex'\<rparr>)"
  using handle_client_concat [OF assms(1), of "\<lparr>ss_acc = [], ss_sent = [], ss_exec = ex\<rparr>" env]
    drain_statements [OF assms(3,4), of env "[]" ex] assms(2) by simp

section \<open>Replies at the client\<close>

lemma client_lines_append:
  "client_lines (acc @ x) st = (case client_lines acc st of
     (Some code, rest, st1) \<Rightarrow> (Some code, rest @ x, st1)
   | (None, rest, st1) \<Rightarrow> client_lines (rest @ x) st1)"
proof (induction acc st rule: client_lines.induct)
  case (1 acc st)
  show ?case
  proof (cases "nl \<in> set acc")
    case False
    then have "client_lines acc st = (None, acc, st)" by (subst client_lines.simps) simp
    then show ?thesis by simp
  next
    case True
    show ?thesis
      using 1 True cut_append [OF True, of x] by (subst (1 2) client_lines.simps) (simp add: Let_def)
  qed
qed

lemma client_lines_left: "client_lines acc st = (None, rest, st1) \<Longrightarrow> client_lines rest st1 = (None, rest, st1)"
proof (induction acc st rule: client_lines.induct)
  case (1 acc st)
  show ?case
  proof (cases "nl \<in> set acc")
    case False
    then show ?thesis using "1.prems" by (subst (asm) client_lines.simps) (subst client_lines.simps, simp)
  next
    case True
    then have "client_lines (tl (dropWhile (\<lambda>c. c \<noteq> nl) acc)) (client_line (trim (takeWhile (\<lambda>c. c \<noteq> nl) acc)) st) = (None, rest, st1)"
      "trim (takeWhile (\<lambda>c. c \<noteq> nl) acc) \<noteq> ''END''"
      using "1.prems" by (subst (asm) client_lines.simps, simp add: Let_def split: if_splits)+
    then show ?thesis using 1 True by blast
  qed
qed

text \<open>The loop gives the same result for every way the reply is cut into chunks.\<close>

lemma client_loop_concat:
  assumes "chunks_ok chunks" and "client_lines (acc @ concat chunks) st = (Some code, rest, st1)"
  shows "\<exists>acc' used left. client_loop chunks acc st = (code, st1, acc', left) \<and> acc' @ concat left = rest \<and> chunks = used @ left"
  using assms
proof (induction chunks arbitrary: acc st)
  case Nil
  then show ?case by (simp add: client_loop.simps)
next
  case (Cons c cs)
  have c: "c \<noteq> []" "c_str c = c" "chunks_ok cs" using Cons.prems(1) c_str_id by (simp_all add: chunks_ok_def)
  obtain o1 acc1 st2 where o: "client_lines acc st = (o1, acc1, st2)" by (cases "client_lines acc st") auto
  note app = client_lines_append [of acc "c @ concat cs" st, unfolded o]
  show ?case
  proof (cases o1)
    case None
    then have "client_lines ((acc1 @ c) @ concat cs) st2 = (Some code, rest, st1)" using Cons.prems(2) app by simp
    then obtain acc' used left where u: "client_loop cs (acc1 @ c) st2 = (code, st1, acc', left)" "acc' @ concat left = rest" "cs = used @ left"
      using Cons.IH [OF c(3)] by blast
    then have "client_loop (c # cs) acc st = (code, st1, acc', left)" using None o c by (subst client_loop.simps) simp
    then show ?thesis using u(2,3) by (intro exI [of _ acc'] exI [of _ "c # used"] exI [of _ left]) simp
  next
    case (Some k)
    then have k: "k = code" "acc1 @ concat (c # cs) = rest" "st2 = st1" using Cons.prems(2) app by simp_all
    then have "client_loop (c # cs) acc st = (code, st1, acc1, c # cs)" using Some o by (subst client_loop.simps) simp
    then show ?thesis using k(2) by blast
  qed
qed

text \<open>The lines of a reply.\<close>

lemma client_lines_line:
  assumes "nl \<notin> set l"
  shows "client_lines (l @ nl # rest) st =
    (if trim l = ''END'' then (Some (if cl_error st then FLEXQL_ERROR else FLEXQL_OK), rest, st)
     else client_lines rest (client_line (trim l) st))"
  using cut_first [OF assms, of rest] by (subst client_lines.simps) (simp add: Let_def)

definition wire_ok :: "string list \<Rightarrow> bool" where
  "wire_ok row \<longleftrightarrow> row \<noteq> [] \<and> (\<forall>v \<in> set row. \<forall>c \<in> set v. c \<noteq> tab \<and> c \<noteq> nl \<and> char_nat c \<noteq> 0) \<and>
     last row \<noteq> [] \<and> \<not> is_space (last (last row))"

definition err_ok :: "string \<Rightarrow> bool" where
  "err_ok e \<longleftrightarrow> (\<forall>c \<in> set e. c \<noteq> nl \<and> char_nat c \<noteq> 0) \<and> (e \<noteq> [] \<longrightarrow> \<not> is_space (hd e) \<and> \<not> is_space (last e))"

lemma trim_ends: "s \<noteq> [] \<Longrightarrow> \<not> is_space (hd s) \<Longrightarrow> \<not> is_space (last s) \<Longrightarrow> trim s = s"
proof -
  assume s: "s \<noteq> []" "\<not> is_space (hd s)" "\<not> is_space (last s)"
  then have "trim_left s = s" by (cases s) (simp_all add: trim_left_def)
  moreover have "trim_right s = s" using s by (cases s rule: rev_cases) (simp_all add: trim_right_def)
  ultimately show ?thesis by (simp add: trim_def)
qed

lemma sep_by_set: "set (sep_by sep xs) \<subseteq> (\<Union>x \<in> set xs. set x) \<union> set sep"
  by (induction sep xs rule: sep_by.induct) auto

lemma sep_by_last: "xs \<noteq> [] \<Longrightarrow> last xs \<noteq> [] \<Longrightarrow> sep_by sep xs \<noteq> [] \<and> last (sep_by sep xs) = last (last xs)"
  by (induction sep xs rule: sep_by.induct) auto

lemma getlines_sep_last:
  assumes "\<forall>x \<in> set xs. d \<notin> set x" and "xs \<noteq> []" and "last xs \<noteq> []"
  shows "getlines d (sep_by [d] xs) = xs"
  using assms by (induction "[d]" xs rule: sep_by.induct) (simp_all add: getlines_last getlines_item)

lemma wire_row:
  assumes "wire_ok row"
  shows "server_exec_callback row = (''ROW '' @ sep_by [tab] row) @ [nl]" "nl \<notin> set (''ROW '' @ sep_by [tab] row)"
    "trim (''ROW '' @ sep_by [tab] row) = ''ROW '' @ sep_by [tab] row" "getlines tab (sep_by [tab] row) = row" "map c_str row = row"
proof -
  show c: "map c_str row = row" using assms c_str_id by (auto simp: wire_ok_def intro: map_idI)
  then show "server_exec_callback row = (''ROW '' @ sep_by [tab] row) @ [nl]" by (simp add: server_exec_callback_def)
  show "nl \<notin> set (''ROW '' @ sep_by [tab] row)" using assms sep_by_set [of "[tab]" row] by (auto simp: wire_ok_def)
  have "sep_by [tab] row \<noteq> []" "\<not> is_space (last (sep_by [tab] row))" using assms sep_by_last by (simp_all add: wire_ok_def)
  then show "trim (''ROW '' @ sep_by [tab] row) = ''ROW '' @ sep_by [tab] row"
    by (intro trim_ends) (simp_all, simp add: is_space_def char_nat_def)
  show "getlines tab (sep_by [tab] row) = row" using assms by (intro getlines_sep_last) (auto simp: wire_ok_def)
qed

lemma client_row:
  assumes "wire_ok row" and "\<not> cl_error st"
  shows "client_lines (server_exec_callback row @ rest) st = client_lines rest (st\<lparr>cl_rows := cl_rows st @ [row]\<rparr>)"
  using client_lines_line [OF wire_row(2) [OF assms(1)], of rest st] wire_row(3-5) [OF assms(1)] assms(2) wire_row(1) [OF assms(1)]
  by (simp add: client_line_def)

lemma client_rows:
  assumes "list_all wire_ok rows" and "\<not> cl_error st"
  shows "client_lines (concat (map server_exec_callback rows) @ rest) st = client_lines rest (st\<lparr>cl_rows := cl_rows st @ rows\<rparr>)"
  using assms by (induction rows arbitrary: st) (simp_all add: client_row)

lemma client_end: "client_lines (''END'' @ nl # rest) st = (Some (if cl_error st then FLEXQL_ERROR else FLEXQL_OK), rest, st)"
proof -
  have "trim ''END'' = ''END''" by (rule trim_ends) (simp_all add: is_space_def char_nat_def)
  then show ?thesis using client_lines_line [of "''END''" rest st] by simp
qed

lemma client_error:
  assumes "err_ok e" and "e \<noteq> []"
  shows "client_lines (''ERROR: '' @ e @ nl # rest) st = client_lines rest (st\<lparr>cl_errmsg := Some e, cl_error := True\<rparr>)"
proof -
  have n: "nl \<notin> set (''ERROR: '' @ e)" using assms(1) by (auto simp: err_ok_def)
  have "trim (''ERROR: '' @ e) = ''ERROR: '' @ e"
    by (rule trim_ends) (use assms in \<open>simp_all add: err_ok_def\<close>, simp add: is_space_def char_nat_def)
  moreover have "c_str (trim_left (CHR '' '' # e)) = e"
    using assms c_str_id [of e] space_facts(1) by (cases e) (simp_all add: trim_left_def err_ok_def)
  ultimately show ?thesis using client_lines_line [OF n, of rest st] by (simp add: client_line_def)
qed

definition seen_of :: "exec_out \<Rightarrow> client_seen" where
  "seen_of out = \<lparr>cl_rows = eo_rows out, cl_errmsg = (if eo_err out = [] then None else Some (eo_err out)), cl_error = (eo_err out \<noteq> [])\<rparr>"

lemma client_reply:
  assumes "list_all wire_ok (eo_rows out)" and "err_ok (eo_err out)"
  shows "client_lines (reply out @ rest) no_lines = (Some (if eo_err out = [] then FLEXQL_OK else FLEXQL_ERROR), rest, seen_of out)"
proof -
  have "client_lines (reply out @ rest) no_lines =
      client_lines ((if eo_err out \<noteq> [] then ''ERROR: '' @ eo_err out @ [nl] else []) @ ''END'' @ nl # rest)
        (no_lines\<lparr>cl_rows := eo_rows out\<rparr>)"
    using client_rows [OF assms(1), of no_lines] by (simp add: reply_def no_lines_def)
  then show ?thesis
    using client_end [of rest] client_error [OF assms(2)] by (auto simp: no_lines_def seen_of_def)
qed

lemma flexql_exec_reply:
  assumes "list_all wire_ok (eo_rows out)" and "err_ok (eo_err out)" and "chunks_ok chunks"
    and "acc @ concat chunks = reply out @ rest" and "client_request sql \<noteq> None"
  shows "\<exists>acc' used left. flexql_exec sql chunks acc = (if eo_err out = [] then FLEXQL_OK else FLEXQL_ERROR, seen_of out, acc', left) \<and>
    acc' @ concat left = rest \<and> chunks = used @ left"
  using client_loop_concat [OF assms(3), of acc no_lines] client_reply [OF assms(1,2), of rest] assms(4,5)
  by (auto simp: flexql_exec_def)

text \<open>
  C18. The client reads what the server sent. For every way the network cuts the reply into chunks,
  \<open>flexql_exec\<close> returns \<open>FLEXQL_OK\<close> or \<open>FLEXQL_ERROR\<close> as the statement ended, has called the callback
  with the rows of the executor in order, has the text of the error, and leaves what follows the reply
  for the next call. The texts of a row must not hold tabs, newlines or NULs, and the last one must
  not be empty or end with white space.
\<close>

theorem wire_roundtrip:
  assumes "list_all wire_ok (eo_rows out)" and "err_ok (eo_err out)" and "chunks_ok chunks"
    and "acc @ concat chunks = reply out @ rest" and "client_request sql \<noteq> None"
  shows "\<exists>acc' left. flexql_exec sql chunks acc = (if eo_err out = [] then FLEXQL_OK else FLEXQL_ERROR, seen_of out, acc', left) \<and>
    acc' @ concat left = rest"
  using flexql_exec_reply [OF assms] by blast

theorem wire_roundtrip_witness:
  "\<exists>acc' left. flexql_exec ''SELECT NAME FROM T'' [''ROW Ann'', ''\<newline>ROW Bob x\<newline>EN'', ''D\<newline>'', ''END\<newline>''] [] =
     (FLEXQL_OK, \<lparr>cl_rows = [[''Ann''], [''Bob x'']], cl_errmsg = None, cl_error = False\<rparr>, acc', left) \<and> acc' @ concat left = ''END\<newline>''"
proof -
  let ?out = "out_ok\<lparr>eo_rows := [[''Ann''], [''Bob x'']]\<rparr>"
  let ?chunks = "[''ROW Ann'', ''\<newline>ROW Bob x\<newline>EN'', ''D\<newline>'', ''END\<newline>'']"
  have "list_all wire_ok (eo_rows ?out)" "err_ok (eo_err ?out)" "chunks_ok ?chunks"
    by (simp_all add: wire_ok_def err_ok_def chunks_ok_def out_ok_def is_space_def char_nat_def)
  moreover have "[] @ concat ?chunks = reply ?out @ ''END\<newline>''"
    by (simp add: reply_def out_ok_def server_exec_callback_def c_str_def char_nat_def)
  moreover have "client_request ''SELECT NAME FROM T'' \<noteq> None" by (simp add: client_request_def c_str_def char_nat_def Let_def)
  ultimately show ?thesis using wire_roundtrip [of ?out ?chunks "[]" "''END\<newline>''" "''SELECT NAME FROM T''"]
    by (simp add: seen_of_def out_ok_def)
qed

end
