(* ===== verification/SessionProps.thy ===== *)
theory SessionProps
  imports ServerProofs
begin

text \<open>
  From the text of a statement to the rows at the client: the parser reads the printed
  statements back, and a connection on which they arrive behaves as the abstract database.
\<close>

section \<open>Statements as texts\<close>

definition stmt_text :: "statement \<Rightarrow> string" where
  "stmt_text s = (case st_type s of
       ST_CREATE \<Rightarrow> create_text (st_create s)
     | ST_INSERT \<Rightarrow> insert_text (in_table (st_insert s)) (tl (in_raw_values (st_insert s)))
     | ST_SELECT \<Rightarrow> select_text (st_select s)
     | ST_DELETE \<Rightarrow> delete_text (de_table (st_delete s))
     | ST_NONE \<Rightarrow> [])"

definition insert_printable :: "insert_stmt \<Rightarrow> bool" where
  "insert_printable i \<longleftrightarrow> ident (in_table i) \<and> find_str ''VALUES'' (in_table i) = None \<and>
     (\<exists>raw. in_raw_values i = CHR '' '' # raw \<and> raw \<noteq> [] \<and> \<not> is_space (last raw)) \<and> CHR '';'' \<notin> set (in_raw_values i)"

text \<open>The statements with a text: the part of the statement's type is printable, the others are empty.\<close>

definition printable :: "statement \<Rightarrow> bool" where
  "printable s \<longleftrightarrow> (case st_type s of
       ST_CREATE \<Rightarrow> create_ok (st_create s) \<and> s = empty_statement\<lparr>st_type := ST_CREATE, st_create := st_create s\<rparr>
     | ST_INSERT \<Rightarrow> insert_printable (st_insert s) \<and> s = empty_statement\<lparr>st_type := ST_INSERT, st_insert := st_insert s\<rparr>
     | ST_SELECT \<Rightarrow> select_printable (st_select s) \<and> s = empty_statement\<lparr>st_type := ST_SELECT, st_select := st_select s\<rparr>
     | ST_DELETE \<Rightarrow> ident (de_table (st_delete s)) \<and> s = empty_statement\<lparr>st_type := ST_DELETE, st_delete := st_delete s\<rparr>
     | ST_NONE \<Rightarrow> False)"

lemma printable_type: "printable s \<Longrightarrow> st_type s \<noteq> ST_NONE"
  by (auto simp: printable_def)

lemma parse_stmt_text:
  assumes "printable s"
  shows "parse (stmt_text s) = s"
proof (cases "st_type s")
  case ST_CREATE
  then show ?thesis using assms parse_create_text by (simp add: printable_def stmt_text_def)
next
  case ST_INSERT
  then obtain raw where i: "ident (in_table (st_insert s))" "find_str ''VALUES'' (in_table (st_insert s)) = None"
    "in_raw_values (st_insert s) = CHR '' '' # raw" "raw \<noteq> []" "\<not> is_space (last raw)" "CHR '';'' \<notin> set raw"
    "s = empty_statement\<lparr>st_type := ST_INSERT, st_insert := st_insert s\<rparr>"
    using assms by (auto simp: printable_def insert_printable_def)
  have "last raw \<noteq> CHR '';''" using i(4,6) last_in_set by fastforce
  note p = parse_insert_text [OF i(1,2,4) this i(5)]
  have eq: "\<lparr>in_table = in_table (st_insert s), in_raw_values = CHR '' '' # raw\<rparr> = st_insert s" using i(3) by simp
  have "parse (stmt_text s) = empty_statement\<lparr>st_type := ST_INSERT, st_insert := st_insert s\<rparr>"
    using p i(3) ST_INSERT unfolding eq by (simp add: stmt_text_def)
  then show ?thesis using i(7) by simp
next
  case ST_SELECT
  then show ?thesis using assms parse_select_text by (simp add: printable_def stmt_text_def)
next
  case ST_DELETE
  then have d: "ident (de_table (st_delete s))" "s = empty_statement\<lparr>st_type := ST_DELETE, st_delete := st_delete s\<rparr>"
    using assms by (simp_all add: printable_def)
  have eq: "\<lparr>de_table = de_table (st_delete s)\<rparr> = st_delete s" by simp
  have "parse (stmt_text s) = empty_statement\<lparr>st_type := ST_DELETE, st_delete := st_delete s\<rparr>"
    using parse_delete_text [OF d(1)] ST_DELETE unfolding eq by (simp add: stmt_text_def)
  then show ?thesis using d(2) by simp
qed (use assms printable_type in blast)

text \<open>No semicolon: the text is one statement for the server.\<close>

lemma sep_by_no: "\<forall>x \<in> set xs. c \<notin> set x \<Longrightarrow> c \<notin> set sep \<Longrightarrow> c \<notin> set (sep_by sep xs)"
  using sep_by_set [of sep xs] by auto

lemma comma_words_set: "x \<in> set (comma_words cs) \<Longrightarrow> \<exists>c \<in> set cs. x = c \<or> x = c @ '',''"
  by (induction cs rule: comma_words.induct) auto

lemma stmt_text_no_semicolon:
  assumes "printable s"
  shows "CHR '';'' \<notin> set (stmt_text s)"
proof (cases "st_type s")
  case ST_CREATE
  have n: "CHR '';'' \<notin> set n" if "ident n" for n using ident_chars [OF that] by simp
  have "create_ok (st_create s)" using assms ST_CREATE by (simp add: printable_def)
  then have "CHR '';'' \<notin> set (sep_by '', '' (map (\<lambda>(n, ty). n @ '' '' @ ty) (cr_columns (st_create s))))"
    using n by (intro sep_by_no) (auto simp: create_ok_def list_all_iff)
  then show ?thesis
    using \<open>create_ok (st_create s)\<close> n by (simp add: stmt_text_def ST_CREATE create_text_def create_ok_def)
next
  case ST_INSERT
  then have "insert_printable (st_insert s)" using assms by (simp add: printable_def)
  then have i: "ident (in_table (st_insert s))" "CHR '';'' \<notin> set (in_raw_values (st_insert s))"
    unfolding insert_printable_def by blast+
  have "CHR '';'' \<notin> set (in_table (st_insert s))" using ident_chars [OF i(1), of "CHR '';''"] by simp
  moreover have "CHR '';'' \<notin> set (tl (in_raw_values (st_insert s)))" using i(2) by (cases "in_raw_values (st_insert s)") auto
  ultimately show ?thesis using ST_INSERT by (simp add: stmt_text_def insert_text_def)
next
  case ST_SELECT
  then have p: "select_printable (st_select s)" using assms by (simp add: printable_def)
  have n: "CHR '';'' \<notin> set c" if "name_ok c" for c using name_chars [OF that] by simp
  have "CHR '';'' \<notin> set x" if "list_all name_ok cs" "x \<in> set (comma_words cs)" for cs x
  proof -
    obtain c where c: "c \<in> set cs" "x = c \<or> x = c @ '',''" using comma_words_set [OF \<open>x \<in> set (comma_words cs)\<close>] by blast
    have "CHR '';'' \<notin> set c" using \<open>list_all name_ok cs\<close> c(1) n by (simp add: list_all_iff)
    then show ?thesis using c(2) by auto
  qed
  moreover have "list_all name_ok (se_columns (st_select s))" using p by (simp add: select_printable_def)
  ultimately have "\<forall>x \<in> set (comma_words (se_columns (st_select s))). CHR '';'' \<notin> set x" by blast
  then have "\<forall>x \<in> set (''SELECT'' # comma_words (se_columns (st_select s)) @ ''FROM'' # rest_words (st_select s)). CHR '';'' \<notin> set x"
    using rest_no_semicolon [OF p] by (simp add: ball_Un)
  then have "CHR '';'' \<notin> set (select_text (st_select s))" unfolding select_text_def by (intro sep_by_no) simp_all
  then show ?thesis by (simp add: stmt_text_def ST_SELECT)
next
  case ST_DELETE
  then have "ident (de_table (st_delete s))" using assms by (simp add: printable_def)
  then show ?thesis
    using ident_chars [of "de_table (st_delete s)"] ST_DELETE by (simp add: stmt_text_def delete_text_def)
qed (simp add: stmt_text_def)

text \<open>
  C16. Parsing is the inverse of printing: a CREATE, INSERT, SELECT (with a list of columns, an inner
  join, conditions and an order) or DELETE written in its canonical form is parsed into the
  statement. Names are upper-case words without the separators of the language, and no name or value
  is one of the words FROM, INNER, ON, WHERE, ORDER, AND.
\<close>

theorem parse_roundtrip:
  assumes "printable s"
  shows "parse (stmt_text s) = s"
  using parse_stmt_text [OF assms] .

definition demo_join :: select_stmt where
  "demo_join = \<lparr>se_columns = [''NAME'', ''CITY''], se_table = ''T'',
     se_where = [\<lparr>wh_column = ''ID'', wh_op = ''>'', wh_value = ''5''\<rparr>, \<lparr>wh_column = ''CITY'', wh_op = ''='', wh_value = ''Rome''\<rparr>],
     se_join = \<lparr>jn_table = ''U'', jn_on_left = ''ID'', jn_on_right = ''TID''\<rparr>,
     se_order_by = \<lparr>ob_column = ''NAME'', ob_ascending = False\<rparr>, se_has_join = True, se_has_order = True\<rparr>"

theorem parse_roundtrip_witness:
  "parse ''SELECT NAME, CITY FROM T INNER JOIN U ON ID = TID WHERE ID > 5 AND CITY = Rome ORDER BY NAME DESC'' =
     empty_statement\<lparr>st_type := ST_SELECT, st_select := demo_join\<rparr>"
proof -
  let ?s = "empty_statement\<lparr>st_type := ST_SELECT, st_select := demo_join\<rparr>"
  have "printable ?s"
    by (simp add: printable_def select_printable_def demo_join_def name_ok_def value_ok_def ident_def word_def plain_def reserved_def
      to_upper_def is_space_def char_nat_def)
  moreover have "stmt_text ?s = ''SELECT NAME, CITY FROM T INNER JOIN U ON ID = TID WHERE ID > 5 AND CITY = Rome ORDER BY NAME DESC''"
    by (simp add: stmt_text_def select_text_def demo_join_def rest_words_def join_words_def cond_words_def order_words_def)
  ultimately show ?thesis using parse_roundtrip [of ?s] by simp
qed

section \<open>A connection\<close>

lemma serve_printable: "printable s \<Longrightarrow> serve env (stmt_text s) ex = exec env s ex"
  using printable_type [of s] by (cases "st_type s") (simp_all add: serve_def parse_stmt_text)

lemma serve_all_printable:
  "list_all printable ss \<Longrightarrow> serve_all env (map stmt_text ss) ex = exec_all env ss ex"
  by (induction ss arbitrary: ex) (simp_all add: serve_printable)

lemma demo_printable: "list_all printable [demo_create, demo_insert, demo_select]"
proof -
  have "printable demo_create"
    by (simp add: printable_def demo_create_def create_ok_def ident_def plain_def to_upper_def is_space_def char_nat_def)
  moreover have "printable demo_insert"
  proof -
    have seven: "to_string 7 = ''7''" "to_string 9 = ''9''"
      by code_simp+
    have r: "rows_text demo_rows = ''(7,'' @ [CHR 0x27] @ ''Ann'' @ [CHR 0x27] @ ''), (9,'' @ [CHR 0x27] @ ''Bob'' @ [CHR 0x27] @ '')''"
      by (simp add: rows_text_def row_text_def demo_rows_def seven)
    show ?thesis
      by (simp add: printable_def demo_insert_def insert_printable_def ident_def plain_def to_upper_def r)
        (simp add: is_space_def char_nat_def)
  qed
  moreover have "printable demo_select"
    by (simp add: printable_def demo_select_def demo_query_def select_printable_def empty_select_def name_ok_def value_ok_def ident_def
      word_def plain_def reserved_def to_upper_def is_space_def char_nat_def)
  ultimately show ?thesis by simp
qed

lemma demo_admissible: "admissible Map.empty [demo_create, demo_insert, demo_select]"
  by (simp add: demo_create_step demo_insert_step demo_select_step)
    (metis demo_create_step demo_insert_step demo_select_step)

lemma no_nul_chunks: "xs \<noteq> [] \<Longrightarrow> \<forall>c \<in> set xs. char_nat c \<noteq> 0 \<Longrightarrow> chunks_ok (map (\<lambda>c. [c]) xs)"
  by (auto simp: chunks_ok_def list_all_iff)

lemma demo_no_nul: "\<forall>c \<in> set (request_text (map stmt_text [demo_create, demo_insert, demo_select])). char_nat c \<noteq> 0"
  by code_simp

text \<open>One call with two statements.\<close>

definition two_statements :: "string \<Rightarrow> string \<Rightarrow> string" where
  "two_statements q1 q2 = q1 @ '';'' @ q2"

lemma two_request:
  assumes "\<forall>c \<in> set (q1 @ q2). c \<noteq> CHR '';'' \<and> char_nat c \<noteq> 0" and "q2 \<noteq> []"
  shows "client_request (two_statements q1 q2) = Some (request_text [q1, q2])"
proof -
  have "c_str (q1 @ '';'' @ q2) = q1 @ '';'' @ q2" using assms(1) by (intro c_str_id) (auto simp: char_nat_def)
  moreover have "last q2 \<noteq> CHR '';''" using assms last_in_set [OF assms(2)] by auto
  ultimately show ?thesis using assms(2) by (simp add: client_request_def two_statements_def request_text_def)
qed

text \<open>
  C29. A call of \<open>flexql_exec\<close> with two statements returns after the first reply. The second reply stays
  in the connection, and the next call, whatever it asks, returns the rows and the code of the second
  statement and leaves its own reply for the call after it.
\<close>

theorem client_desync:
  assumes q: "\<forall>c \<in> set (q1 @ q2). c \<noteq> CHR '';'' \<and> char_nat c \<noteq> 0" "q2 \<noteq> []"
    and srv: "serve_all env [q1, q2] ex = Inr ([o1, o2], ex')"
    and ok: "list_all wire_ok (eo_rows o1)" "err_ok (eo_err o1)" "list_all wire_ok (eo_rows o2)" "err_ok (eo_err o2)"
    and c: "chunks_ok chunks" "concat chunks = reply o1 @ reply o2" and c2: "chunks_ok answer" and sql: "client_request sql \<noteq> None"
  shows "handle_client env [the (client_request (two_statements q1 q2))] \<lparr>ss_acc = [], ss_sent = [], ss_exec = ex\<rparr> =
      Inr \<lparr>ss_acc = [], ss_sent = concat chunks, ss_exec = ex'\<rparr> \<and>
    (\<exists>acc left acc' left'.
      flexql_exec (two_statements q1 q2) chunks [] = (if eo_err o1 = [] then FLEXQL_OK else FLEXQL_ERROR, seen_of o1, acc, left) \<and>
      flexql_exec sql (left @ answer) acc = (if eo_err o2 = [] then FLEXQL_OK else FLEXQL_ERROR, seen_of o2, acc', left') \<and>
      acc' @ concat left' = concat answer)"
proof -
  note r = two_request [OF q]
  have nul: "char_nat (CHR '';'') \<noteq> 0" by (simp add: char_nat_def)
  have "chunks_ok [request_text [q1, q2]]" using q(1) nul by (auto simp: chunks_ok_def request_text_def)
  moreover have "\<forall>x \<in> set [q1, q2]. CHR '';'' \<notin> set x" using q(1) by auto
  ultimately have sent: "handle_client env [the (client_request (two_statements q1 q2))] \<lparr>ss_acc = [], ss_sent = [], ss_exec = ex\<rparr> =
      Inr \<lparr>ss_acc = [], ss_sent = concat chunks, ss_exec = ex'\<rparr>"
    using handle_client_concat [of "[request_text [q1, q2]]" "\<lparr>ss_acc = [], ss_sent = [], ss_exec = ex\<rparr>" env]
      drain_statements [of "[q1, q2]" "[]" env "[]" ex] srv r c(2) by simp
  obtain acc used left where l: "flexql_exec (two_statements q1 q2) chunks [] = (if eo_err o1 = [] then FLEXQL_OK else FLEXQL_ERROR, seen_of o1, acc, left)"
    "acc @ concat left = reply o2" "chunks = used @ left"
    using flexql_exec_reply [OF ok(1,2) c(1), of "[]" "reply o2" "two_statements q1 q2"] c(2) r by auto
  have "chunks_ok (left @ answer)" using c(1) c2 l(3) by (simp add: chunks_ok_def)
  moreover have "acc @ concat (left @ answer) = reply o2 @ concat answer" using l(2) by simp
  ultimately obtain acc' left' where "flexql_exec sql (left @ answer) acc = (if eo_err o2 = [] then FLEXQL_OK else FLEXQL_ERROR, seen_of o2, acc', left')"
    "acc' @ concat left' = concat answer"
    using flexql_exec_reply [OF ok(3,4) _ _ sql] by blast
  then show ?thesis using l(1) sent by blast
qed

theorem client_desync_witness:
  "\<exists>ex' acc left acc' left'.
     handle_client demo_env [''DROP;VACUUM;''] \<lparr>ss_acc = [], ss_sent = [], ss_exec = exec_new ''data''\<rparr> =
       Inr \<lparr>ss_acc = [], ss_sent = ''ERROR: Invalid SQL\<newline>END\<newline>ERROR: Invalid SQL\<newline>END\<newline>'', ss_exec = ex'\<rparr> \<and>
     flexql_exec ''DROP;VACUUM'' [''ERROR: Invalid SQL\<newline>END\<newline>ERROR: Invalid SQL\<newline>END\<newline>''] [] =
       (FLEXQL_ERROR, \<lparr>cl_rows = [], cl_errmsg = Some ''Invalid SQL'', cl_error = True\<rparr>, acc, left) \<and>
     flexql_exec ''SELECT NAME FROM T'' (left @ [''END\<newline>'']) acc =
       (FLEXQL_ERROR, \<lparr>cl_rows = [], cl_errmsg = Some ''Invalid SQL'', cl_error = True\<rparr>, acc', left') \<and> acc' @ concat left' = ''END\<newline>''"
proof -
  let ?o = "out_err ''Invalid SQL''" and ?ex = "exec_new ''data''"
  have sv: "serve_all demo_env [''DROP'', ''VACUUM''] ?ex = Inr ([?o, ?o], ?ex)"
  proof -
    have "st_type (parse ''DROP'') = ST_NONE" "st_type (parse ''VACUUM'') = ST_NONE" by code_simp+
    then show ?thesis by (simp add: serve_def)
  qed
  have q: "\<forall>c \<in> set (''DROP'' @ ''VACUUM''). c \<noteq> CHR '';'' \<and> char_nat c \<noteq> 0" by (simp add: char_nat_def)
  have o: "list_all wire_ok (eo_rows ?o)" "err_ok (eo_err ?o)" by (simp_all add: out_err_def err_ok_def is_space_def char_nat_def)
  have r: "concat [''ERROR: Invalid SQL\<newline>END\<newline>ERROR: Invalid SQL\<newline>END\<newline>''] = reply ?o @ reply ?o"
    by (simp add: reply_def out_err_def)
  have c: "chunks_ok [''ERROR: Invalid SQL\<newline>END\<newline>ERROR: Invalid SQL\<newline>END\<newline>'']" "chunks_ok [''END\<newline>'']"
    by (simp_all add: chunks_ok_def char_nat_def)
  have s: "client_request ''SELECT NAME FROM T'' \<noteq> None" by (simp add: client_request_def c_str_def char_nat_def Let_def)
  have t: "two_statements ''DROP'' ''VACUUM'' = ''DROP;VACUUM''" by (simp add: two_statements_def)
  have "client_request (two_statements ''DROP'' ''VACUUM'') = Some (request_text [''DROP'', ''VACUUM''])"
    using two_request [OF q] by simp
  then have rq: "the (client_request ''DROP;VACUUM'') = ''DROP;VACUUM;''" unfolding t by (simp add: request_text_def)
  have "seen_of ?o = \<lparr>cl_rows = [], cl_errmsg = Some ''Invalid SQL'', cl_error = True\<rparr>" "eo_err ?o \<noteq> []"
    by (simp_all add: seen_of_def out_err_def)
  then show ?thesis
    using client_desync [OF q _ sv o o c(1) r c(2) s, unfolded t rq] by auto
qed

section \<open>What the protocol loses\<close>

lemma sep_by_blank: "\<forall>v \<in> set vs. \<forall>c \<in> set v. is_space c \<Longrightarrow> \<forall>c \<in> set (sep_by [tab] vs). is_space c"
proof -
  assume v: "\<forall>v \<in> set vs. \<forall>c \<in> set v. is_space c"
  have "is_space tab" by (simp add: is_space_def char_nat_def)
  then show ?thesis using v sep_by_set [of "[tab]" vs] by fastforce
qed

text \<open>
  A row whose texts are all empty or blank does not reach the client: the line \<open>ROW\<close> with white
  space behind it is trimmed, does not start with \<open>ROW\<close> and a space any more, and is ignored. The count
  of the rows is wrong, too.
\<close>

theorem blank_row_dropped:
  assumes "\<forall>v \<in> set row. \<forall>c \<in> set v. is_space c \<and> c \<noteq> nl" and "\<not> cl_error st"
  shows "client_lines (server_exec_callback row @ rest) st = client_lines rest st"
proof -
  have c: "map c_str row = row"
  proof (rule map_idI)
    fix v assume "v \<in> set row"
    moreover have "char_nat c \<noteq> 0" if "is_space c" for c using that by (auto simp: is_space_def)
    ultimately have "\<forall>c \<in> set v. char_nat c \<noteq> 0" using assms(1) by blast
    then show "c_str v = v" by (rule c_str_id)
  qed
  let ?l = "''ROW '' @ sep_by [tab] row"
  have "nl \<notin> set (sep_by [tab] row)" using assms(1) by (intro sep_by_no) auto
  then have n: "nl \<notin> set ?l" by simp
  have "\<forall>c \<in> set (sep_by [tab] row). is_space c" using assms(1) by (intro sep_by_blank) auto
  then have "dropWhile is_space (rev (sep_by [tab] row) @ x) = dropWhile is_space x" for x by (intro dropWhile_append2) simp
  moreover have "dropWhile is_space '' WOR'' = ''WOR''" by (simp add: is_space_def char_nat_def)
  ultimately have "trim_right ?l = ''ROW''" by (simp add: trim_right_def)
  moreover have "trim_left ?l = ?l" by (simp add: trim_left_def is_space_def char_nat_def)
  ultimately have t: "trim ?l = ''ROW''" by (simp add: trim_def)
  have "client_line ''ROW'' st = st" by (simp add: client_line_def)
  then show ?thesis using client_lines_line [OF n, of rest st] t c by (simp add: server_exec_callback_def)
qed

theorem blank_row_dropped_witness:
  "client_lines (server_exec_callback [[]] @ ''END\<newline>'') no_lines = (Some FLEXQL_OK, [], no_lines)"
proof -
  have "client_lines (server_exec_callback [[]] @ ''END\<newline>'') no_lines = client_lines ''END\<newline>'' no_lines"
    by (rule blank_row_dropped) (simp_all add: no_lines_def)
  then show ?thesis using client_end [of "[]" no_lines] by (simp add: no_lines_def)
qed

theorem server_stream_witness:
  "handle_client demo_env [''DR'', ''OP; VAC'', ''UUM;SEL''] \<lparr>ss_acc = [], ss_sent = [], ss_exec = exec_new ''data''\<rparr> =
     Inr \<lparr>ss_acc = ''SEL'', ss_sent = ''ERROR: Invalid SQL\<newline>END\<newline>ERROR: Invalid SQL\<newline>END\<newline>'', ss_exec = exec_new ''data''\<rparr>"
proof -
  have p: "st_type (parse ''DROP'') = ST_NONE" "st_type (parse '' VACUUM'') = ST_NONE" by code_simp+
  have c: "chunks_ok [''DR'', ''OP; VAC'', ''UUM;SEL'']" by (simp add: chunks_ok_def char_nat_def)
  have q: "concat [''DR'', ''OP; VAC'', ''UUM;SEL''] = request_text [''DROP'', '' VACUUM''] @ ''SEL''" by (simp add: request_text_def)
  show ?thesis
    using server_stream [OF c q, of demo_env "exec_new ''data''"] p by (simp add: serve_def reply_def out_err_def)
qed

section \<open>Literals in conditions\<close>

definition quoted :: "string \<Rightarrow> string" where
  "quoted v = CHR 0x27 # v @ [CHR 0x27]"

text \<open>
  C28. The quotes of a string literal are stripped by INSERT but kept in a condition: the text
  \<open>SELECT .. FROM t WHERE c = 'v'\<close> outputs the rows whose text in column \<open>c\<close> is \<open>'v'\<close> with the quotes,
  and none of the rows that \<open>INSERT .. VALUES ('v')\<close> stored.
\<close>

theorem where_keeps_quotes:
  assumes ok: "tab_ok (ex_tables ex) t sc (has_pk sc) rows" and sc: "schema_ok sc" and srt: "sort_spec (env_sort env)"
    and n: "upper t = t" "col_index (sc_columns sc) c = Some i" "cd_type (sc_columns sc ! i) = CT_VARCHAR" "c \<noteq> ''ID''"
    and q: "q = empty_select\<lparr>se_columns := [c], se_table := t, se_where := [\<lparr>wh_column = c, wh_op = ''='', wh_value = quoted v\<rparr>]\<rparr>"
    and p: "select_printable q"
  shows "\<exists>ex'. serve env (stmt_text (empty_statement\<lparr>st_type := ST_SELECT, st_select := q\<rparr>)) ex =
    Inr (out_ok\<lparr>eo_rows := map (\<lambda>r. [cell_str (r ! i)]) (filter (\<lambda>r. r ! i = CStr (quoted v)) rows)\<rparr>, ex') \<and>
    CStr v \<noteq> CStr (quoted v)"
proof -
  let ?s = "empty_statement\<lparr>st_type := ST_SELECT, st_select := q\<rparr>"
  have "printable ?s" using p by (simp add: printable_def)
  then have sv: "serve env (stmt_text ?s) ex = exec_select env q ex" using serve_printable by (simp add: exec_def)
  have qi: "query_index (sc_columns sc) None c = Some i" using n(2) by (simp add: query_index_def)
  have w: "wheres_fit (sc_columns sc) None (se_where q)"
    using qi n(3) by (simp add: wheres_fit_def where_fits_def all_defs_def q)
  have "\<not> uses_index q" "sortable q rows'" "\<not> se_has_join q" "upper (se_table q) = t" "\<forall>x \<in> set (se_columns q). col_index (sc_columns sc) x \<noteq> None \<or> x = ''*''" for rows'
    using n by (simp_all add: q uses_index_def sortable_def empty_select_def)
  then obtain out ex' where e: "exec_select env q ex = Inr (out, ex')" "answers (sc_columns sc) None q rows out"
    using select_ok [of ex q sc rows env] ok sc w srt by auto
  have "sem_row (sc_columns sc) None (se_where q) r \<longleftrightarrow> r ! i = CStr (quoted v)" if "r \<in> set rows" for r
  proof -
    have "cell_ok CT_VARCHAR (r ! i)"
      using row_fits_nth(2) [OF tab_ok_rows [OF ok that] col_index_less [OF n(2)]] n(3) by simp
    then obtain x where "r ! i = CStr x" using cell_okD by fastforce
    then show ?thesis using qi by (simp add: sem_row_def q)
  qed
  then have "filter (sem_row (sc_columns sc) None (se_where q)) rows = filter (\<lambda>r. r ! i = CStr (quoted v)) rows"
    by (intro filter_cong) simp_all
  moreover have "project (sc_columns sc) None (se_columns q) = (\<lambda>r. [cell_str (r ! i)])" using qi by (auto simp: project_def q)
  ultimately have "out = out_ok\<lparr>eo_rows := map (\<lambda>r. [cell_str (r ! i)]) (filter (\<lambda>r. r ! i = CStr (quoted v)) rows)\<rparr>"
    using e(2) by (simp add: answers_def arranged_def q empty_select_def)
  moreover have "length v \<noteq> length (quoted v)" by (simp add: quoted_def)
  then have "CStr v \<noteq> CStr (quoted v)" by auto
  ultimately show ?thesis using e(1) sv by auto
qed

theorem where_keeps_quotes_witness:
  "\<exists>ex ex'. exec_all demo_env [demo_create, demo_insert] (exec_new ''data'') = Inr ([out_ok, out_ok], ex) \<and>
     serve demo_env (stmt_text (empty_statement\<lparr>st_type := ST_SELECT, st_select := empty_select\<lparr>se_columns := [''NAME''], se_table := ''T'',
       se_where := [\<lparr>wh_column = ''NAME'', wh_op = ''='', wh_value = quoted ''Bob''\<rparr>]\<rparr>\<rparr>)) ex = Inr (out_ok, ex')"
proof -
  let ?q = "empty_select\<lparr>se_columns := [''NAME''], se_table := ''T'',
       se_where := [\<lparr>wh_column = ''NAME'', wh_op = ''='', wh_value = quoted ''Bob''\<rparr>]\<rparr>"
  obtain ex where ex: "exec_all demo_env [demo_create, demo_insert] (exec_new ''data'') = Inr ([out_ok, out_ok], ex)"
    "tab_ok (ex_tables ex) ''T'' demo_schema (has_pk demo_schema) demo_rows" using demo_state demo_schema_ok by auto
  have p: "select_printable ?q"
    by (simp add: select_printable_def empty_select_def name_ok_def value_ok_def ident_def quoted_def
      word_def plain_def reserved_def to_upper_def is_space_def char_nat_def)
  obtain ex' where "serve demo_env (stmt_text (empty_statement\<lparr>st_type := ST_SELECT, st_select := ?q\<rparr>)) ex =
    Inr (out_ok\<lparr>eo_rows := map (\<lambda>r. [cell_str (r ! 1)]) (filter (\<lambda>r. r ! 1 = CStr (quoted ''Bob'')) demo_rows)\<rparr>, ex')"
    using where_keeps_quotes [OF ex(2) demo_schema_ok(1) demo_env_sort upper_T demo_col_index(2) demo_types(2) _ refl p] by auto
  then show ?thesis using ex(1) by (auto simp: demo_rows_def quoted_def out_ok_def)
qed

end
