(* ===== verification/ThreadPool.thy ===== *)
theory ThreadPool
  imports Prelude
begin

text \<open>
  The thread pool (\<open>src/src/server/thread_pool.cpp\<close>, \<open>include/server/thread_pool.h\<close>) as a
  transition system. Each step is a section of the code that runs under the mutex, a notification
  after it, or the call of a task, so any interleaving of the threads is a sequence of steps.

  The condition variables are modelled with the threads that sleep on them. \<open>wait\<close> tests its condition
  under the mutex and, when it is false, puts the thread to sleep in the same step; a sleeping thread does
  nothing until it is notified, or wakes up spuriously, and then tests the condition again. The
  notifications come after the mutex is released, so each of them is a step of its own:
  \<open>tp_signals\<close> counts the clients that have pushed a task and have not yet called \<open>cv_.notify_one\<close>,
  \<open>tp_closing\<close> says that the destructor has set \<open>stop_\<close> and not yet called \<open>cv_.notify_all\<close>, and a worker
  that has counted \<open>active_\<close> down and not yet called \<open>cv_done_.notify_all\<close> is \<open>Reporting\<close>.

  Three lists record the history: the tasks submitted, started and finished. They are not part
  of the code's state and no step reads them. A task runs to its end; an exception in a task
  ends the process (\<open>std::terminate\<close>) and is not modelled here.
\<close>

section \<open>State and steps\<close>

text \<open>\<open>Waiting\<close>: at the test of the condition in \<open>cv_.wait\<close>; \<open>Sleeping\<close>: blocked on \<open>cv_\<close>.\<close>

datatype 'a worker = Waiting | Sleeping | Running 'a | Finishing 'a | Reporting | Exited

text \<open>A client in \<open>wait_all\<close>: at the test, blocked on \<open>cv_done_\<close>, or after the return.\<close>

datatype waiter = Testing | Blocked | Returned

record 'a pool =
  tp_queue :: "'a list"
  tp_workers :: "'a worker list"
  tp_waiters :: "waiter list"
  tp_stop :: bool
  tp_active :: nat
  tp_signals :: nat
  tp_closing :: bool
  tp_submitted :: "'a list"
  tp_started :: "'a list"
  tp_finished :: "'a list"

definition pool_new :: "nat \<Rightarrow> nat \<Rightarrow> 'a pool" where
  "pool_new num_threads hardware_concurrency =
     (let n = (if num_threads = 0 then max 1 hardware_concurrency else num_threads) in
      \<lparr>tp_queue = [], tp_workers = replicate n Waiting, tp_waiters = [], tp_stop = False, tp_active = 0,
       tp_signals = 0, tp_closing = False, tp_submitted = [], tp_started = [], tp_finished = []\<rparr>)"

text \<open>\<open>submit\<close>: the push under the mutex; the \<open>notify_one\<close> of the caller is then due.\<close>

definition submit :: "'a \<Rightarrow> 'a pool \<Rightarrow> 'a pool" where
  "submit task p = p\<lparr>tp_queue := tp_queue p @ [task], tp_signals := tp_signals p + 1,
     tp_submitted := tp_submitted p @ [task]\<rparr>"

text \<open>The destructor up to the joins: \<open>stop_\<close> is set; the \<open>notify_all\<close> is then due.\<close>

definition shutdown :: "'a pool \<Rightarrow> 'a pool" where
  "shutdown p = p\<lparr>tp_stop := True, tp_closing := True\<rparr>"

definition set_worker :: "nat \<Rightarrow> 'a worker \<Rightarrow> 'a pool \<Rightarrow> 'a pool" where
  "set_worker i w p = p\<lparr>tp_workers := (tp_workers p)[i := w]\<rparr>"

text \<open>The \<open>notify_one\<close> of \<open>submit\<close>: it wakes up the sleeping worker \<open>i\<close>, or no one sleeps (\<open>None\<close>).\<close>

definition notify_one :: "nat option \<Rightarrow> 'a pool \<Rightarrow> 'a pool" where
  "notify_one who p = (let p1 = p\<lparr>tp_signals := tp_signals p - 1\<rparr> in
     case who of None \<Rightarrow> p1 | Some i \<Rightarrow> set_worker i Waiting p1)"

fun wake_up :: "'a worker \<Rightarrow> 'a worker" where
  "wake_up Sleeping = Waiting"
| "wake_up w = w"

text \<open>The \<open>notify_all\<close> of the destructor.\<close>

definition notify_stop :: "'a pool \<Rightarrow> 'a pool" where
  "notify_stop p = p\<lparr>tp_workers := map wake_up (tp_workers p), tp_closing := False\<rparr>"

text \<open>The first critical section of \<open>worker_loop\<close>: go to sleep, return, or take the front of the queue.\<close>

definition worker_wake :: "nat \<Rightarrow> 'a pool \<Rightarrow> 'a pool" where
  "worker_wake i p = (if \<not> (tp_stop p \<or> tp_queue p \<noteq> []) then set_worker i Sleeping p
     else case tp_queue p of [] \<Rightarrow> set_worker i Exited p
       | task # rest \<Rightarrow> set_worker i (Running task)
           (p\<lparr>tp_queue := rest, tp_active := tp_active p + 1, tp_started := tp_started p @ [task]\<rparr>))"

text \<open>The call of the task, the second critical section, and the \<open>notify_all\<close> after it.\<close>

definition worker_call :: "nat \<Rightarrow> 'a \<Rightarrow> 'a pool \<Rightarrow> 'a pool" where
  "worker_call i task p = set_worker i (Finishing task) (p\<lparr>tp_finished := tp_finished p @ [task]\<rparr>)"

definition worker_release :: "nat \<Rightarrow> 'a pool \<Rightarrow> 'a pool" where
  "worker_release i p = set_worker i Reporting (p\<lparr>tp_active := tp_active p - 1\<rparr>)"

fun wake_waiter :: "waiter \<Rightarrow> waiter" where
  "wake_waiter Blocked = Testing"
| "wake_waiter v = v"

definition worker_report :: "nat \<Rightarrow> 'a pool \<Rightarrow> 'a pool" where
  "worker_report i p = set_worker i Waiting (p\<lparr>tp_waiters := map wake_waiter (tp_waiters p)\<rparr>)"

text \<open>\<open>wait_all\<close>: a client enters it; at the test it returns when \<open>wait_all_done\<close> holds, or goes to sleep.\<close>

definition wait_all :: "'a pool \<Rightarrow> 'a pool" where
  "wait_all p = p\<lparr>tp_waiters := tp_waiters p @ [Testing]\<rparr>"

definition wait_all_done :: "'a pool \<Rightarrow> bool" where
  "wait_all_done p \<longleftrightarrow> tp_queue p = [] \<and> tp_active p = 0"

definition wait_all_test :: "nat \<Rightarrow> 'a pool \<Rightarrow> 'a pool" where
  "wait_all_test j p = p\<lparr>tp_waiters := (tp_waiters p)[j := if wait_all_done p then Returned else Blocked]\<rparr>"

definition thread_count :: "'a pool \<Rightarrow> nat" where
  "thread_count p = length (tp_workers p)"

definition queue_depth :: "'a pool \<Rightarrow> nat" where
  "queue_depth p = length (tp_queue p)"

text \<open>
  The steps of the threads inside the pool other than the call of a task: the workers, the
  clients that have to notify, the destructor, the clients in \<open>wait_all\<close>.
\<close>

inductive sync_step :: "'a pool \<Rightarrow> 'a pool \<Rightarrow> bool" where
  wake: "i < length (tp_workers p) \<Longrightarrow> tp_workers p ! i = Waiting \<Longrightarrow> sync_step p (worker_wake i p)"
| release: "i < length (tp_workers p) \<Longrightarrow> tp_workers p ! i = Finishing task \<Longrightarrow> sync_step p (worker_release i p)"
| report: "i < length (tp_workers p) \<Longrightarrow> tp_workers p ! i = Reporting \<Longrightarrow> sync_step p (worker_report i p)"
| notify: "0 < tp_signals p \<Longrightarrow> i < length (tp_workers p) \<Longrightarrow> tp_workers p ! i = Sleeping \<Longrightarrow>
    sync_step p (notify_one (Some i) p)"
| notify_none: "0 < tp_signals p \<Longrightarrow> Sleeping \<notin> set (tp_workers p) \<Longrightarrow> sync_step p (notify_one None p)"
| notify_stop: "tp_closing p \<Longrightarrow> sync_step p (notify_stop p)"
| test: "j < length (tp_waiters p) \<Longrightarrow> tp_waiters p ! j = Testing \<Longrightarrow> sync_step p (wait_all_test j p)"

inductive thread_step :: "'a pool \<Rightarrow> 'a pool \<Rightarrow> bool" where
  sync: "sync_step p p' \<Longrightarrow> thread_step p p'"
| call: "i < length (tp_workers p) \<Longrightarrow> tp_workers p ! i = Running task \<Longrightarrow> thread_step p (worker_call i task p)"

text \<open>A thread that sleeps may wake up without a notification.\<close>

inductive spurious_step :: "'a pool \<Rightarrow> 'a pool \<Rightarrow> bool" where
  worker: "i < length (tp_workers p) \<Longrightarrow> tp_workers p ! i = Sleeping \<Longrightarrow> spurious_step p (set_worker i Waiting p)"
| waiter: "j < length (tp_waiters p) \<Longrightarrow> tp_waiters p ! j = Blocked \<Longrightarrow>
    spurious_step p (p\<lparr>tp_waiters := (tp_waiters p)[j := Testing]\<rparr>)"

text \<open>A client may submit or wait until the pool is being destroyed.\<close>

inductive pool_step :: "'a pool \<Rightarrow> 'a pool \<Rightarrow> bool" where
  thread: "thread_step p p' \<Longrightarrow> pool_step p p'"
| spurious: "spurious_step p p' \<Longrightarrow> pool_step p p'"
| submit: "\<not> tp_stop p \<Longrightarrow> pool_step p (submit task p)"
| wait_all: "\<not> tp_stop p \<Longrightarrow> pool_step p (wait_all p)"
| shutdown: "pool_step p (shutdown p)"

inductive_cases sync_stepE: "sync_step p p'"
inductive_cases thread_stepE: "thread_step p p'"
inductive_cases spurious_stepE: "spurious_step p p'"
inductive_cases pool_stepE: "pool_step p p'"

definition reachable :: "nat \<Rightarrow> nat \<Rightarrow> 'a pool \<Rightarrow> bool" where
  "reachable n h p \<longleftrightarrow> pool_step\<^sup>*\<^sup>* (pool_new n h) p"

section \<open>The invariant of the tasks\<close>

fun busy :: "'a worker \<Rightarrow> bool" where
  "busy (Running t) = True"
| "busy (Finishing t) = True"
| "busy _ = False"

fun running_task :: "'a worker \<Rightarrow> 'a list" where
  "running_task (Running t) = [t]"
| "running_task _ = []"

definition pool_inv :: "'a pool \<Rightarrow> bool" where
  "pool_inv p \<longleftrightarrow> tp_workers p \<noteq> [] \<and> tp_active p = length (filter busy (tp_workers p)) \<and>
     tp_submitted p = tp_started p @ tp_queue p \<and>
     mset (tp_started p) = mset (tp_finished p) + mset (concat (map running_task (tp_workers p))) \<and>
     (Exited \<in> set (tp_workers p) \<longrightarrow> tp_stop p \<and> tp_queue p = [])"

text \<open>A worker list is split at the worker that moves.\<close>

lemma worker_split:
  assumes "i < length ws"
  obtains xs ys where "ws = xs @ ws ! i # ys" "length xs = i" "\<And>w. ws[i := w] = xs @ w # ys"
proof
  show "ws = take i ws @ ws ! i # drop (Suc i) ws" using assms by (rule id_take_nth_drop)
  show "length (take i ws) = i" using assms by simp
  show "ws[i := w] = take i ws @ w # drop (Suc i) ws" for w using assms by (rule upd_conv_take_nth_drop)
qed

lemmas pool_defs = submit_def shutdown_def set_worker_def worker_call_def worker_release_def worker_report_def
  notify_one_def notify_stop_def wait_all_def wait_all_test_def

lemma wake_up_same [simp]: "busy (wake_up w) = busy w" "running_task (wake_up w) = running_task w"
  "wake_up w = Exited \<longleftrightarrow> w = Exited" "wake_up w = Reporting \<longleftrightarrow> w = Reporting" "wake_up w \<noteq> Sleeping"
  by (cases w; simp)+

lemma wake_up_sym [simp]: "Exited = wake_up w \<longleftrightarrow> w = Exited" "Reporting = wake_up w \<longleftrightarrow> w = Reporting" "Sleeping \<noteq> wake_up w"
  by (cases w; simp)+

lemma map_wake_up [simp]:
  "length (filter busy (map wake_up ws)) = length (filter busy ws)"
  "map (running_task \<circ> wake_up) ws = map running_task ws"
  "Exited \<in> wake_up ` set ws \<longleftrightarrow> Exited \<in> set ws"
  "Reporting \<in> wake_up ` set ws \<longleftrightarrow> Reporting \<in> set ws"
  "Sleeping \<notin> wake_up ` set ws"
  by (induction ws) (auto simp: image_iff)

text \<open>Moving one worker, as the steps do: what the invariant asks of the old and the new state of it.\<close>

lemma pool_inv_set:
  assumes inv: "pool_inv p" and i: "i < length (tp_workers p)" "tp_workers p ! i = w"
    and w': "busy w' = busy w" "running_task w' = running_task w" "w' = Exited \<longrightarrow> tp_stop p \<and> tp_queue p = []"
  shows "pool_inv (set_worker i w' p)"
proof -
  obtain xs ys where "tp_workers p = xs @ w # ys" "\<And>v. (tp_workers p)[i := v] = xs @ v # ys"
    using worker_split [OF i(1)] i(2) by metis
  then show ?thesis using inv w' by (auto simp: pool_inv_def set_worker_def)
qed

text \<open>Nothing but the workers, the queue, \<open>stop_\<close>, \<open>active_\<close> and the histories matters to it.\<close>

lemma pool_inv_more [simp]:
  "pool_inv (p\<lparr>tp_waiters := v\<rparr>) = pool_inv p" "pool_inv (p\<lparr>tp_signals := n\<rparr>) = pool_inv p"
  "pool_inv (p\<lparr>tp_closing := c\<rparr>) = pool_inv p"
  by (simp_all add: pool_inv_def)

lemma wake_inv_tasks:
  assumes inv: "pool_inv p" and i: "i < length (tp_workers p)" "tp_workers p ! i = Waiting"
  shows "pool_inv (worker_wake i p)"
proof (cases "tp_queue p")
  case Nil
  then show ?thesis using pool_inv_set [OF inv i] by (simp add: worker_wake_def)
next
  case (Cons t q)
  obtain xs ys where "tp_workers p = xs @ Waiting # ys" "\<And>w. (tp_workers p)[i := w] = xs @ w # ys"
    using worker_split [OF i(1)] i(2) by metis
  then show ?thesis using inv Cons by (auto simp: worker_wake_def pool_inv_def set_worker_def)
qed

lemma sync_step_inv:
  assumes "sync_step p p'" and inv: "pool_inv p"
  shows "pool_inv p'"
  using assms(1)
proof cases
  case (wake i)
  then show ?thesis using wake_inv_tasks [OF inv] by simp
next
  case (release i task)
  obtain xs ys where "tp_workers p = xs @ Finishing task # ys" "\<And>w. (tp_workers p)[i := w] = xs @ w # ys"
    using worker_split [OF release(2)] release(3) by metis
  then show ?thesis using inv release(1) by (auto simp: pool_inv_def pool_defs)
next
  case (report i)
  then show ?thesis using pool_inv_set [of "p\<lparr>tp_waiters := map wake_waiter (tp_waiters p)\<rparr>" i Reporting Waiting] inv
    by (simp add: worker_report_def)
next
  case (notify i)
  then show ?thesis using pool_inv_set [of "p\<lparr>tp_signals := tp_signals p - 1\<rparr>" i Sleeping Waiting] inv
    by (simp add: notify_one_def)
qed (use inv in \<open>auto simp: notify_one_def notify_stop_def wait_all_test_def pool_inv_def comp_def\<close>)

lemma thread_step_inv:
  assumes "thread_step p p'" and inv: "pool_inv p"
  shows "pool_inv p'"
  using assms(1)
proof cases
  case sync
  then show ?thesis using inv by (rule sync_step_inv)
next
  case (call i task)
  obtain xs ys where "tp_workers p = xs @ Running task # ys" "\<And>w. (tp_workers p)[i := w] = xs @ w # ys"
    using worker_split [OF call(2)] call(3) by metis
  then show ?thesis using inv call(1) by (auto simp: pool_inv_def pool_defs)
qed

lemma spurious_step_inv: "spurious_step p p' \<Longrightarrow> pool_inv p \<Longrightarrow> pool_inv p'"
  by (erule spurious_stepE) (auto intro: pool_inv_set)

lemma pool_step_inv: "pool_step p p' \<Longrightarrow> pool_inv p \<Longrightarrow> pool_inv p'"
proof (erule pool_stepE)
  show "pool_inv p \<Longrightarrow> thread_step p p' \<Longrightarrow> pool_inv p'" by (rule thread_step_inv)
  show "pool_inv p \<Longrightarrow> spurious_step p p' \<Longrightarrow> pool_inv p'" by (rule spurious_step_inv)
qed (auto simp: pool_inv_def pool_defs)

lemma pool_new_inv: "pool_inv (pool_new n h)"
  by (auto simp: pool_inv_def pool_new_def Let_def filter_replicate concat_eq_Nil_conv)

lemma reachable_inv: "reachable n h p \<Longrightarrow> pool_inv p"
  unfolding reachable_def by (induction rule: rtranclp_induct) (auto intro: pool_new_inv pool_step_inv)

section \<open>What the pool promises\<close>

lemma running_busy: "concat (map running_task ws) \<noteq> [] \<Longrightarrow> filter busy ws \<noteq> []"
proof -
  have "running_task w \<noteq> [] \<Longrightarrow> busy w" for w :: "'a worker" by (cases w) auto
  then show "concat (map running_task ws) \<noteq> [] \<Longrightarrow> filter busy ws \<noteq> []" by (induction ws) auto
qed

lemma all_done:
  assumes "pool_inv p" and "tp_queue p = []" and "filter busy (tp_workers p) = []"
  shows "mset (tp_finished p) = mset (tp_submitted p)"
proof -
  have "concat (map running_task (tp_workers p)) = []" using assms(3) running_busy by blast
  then show ?thesis using assms(1,2) by (simp add: pool_inv_def del: concat_eq_Nil_conv)
qed

text \<open>
  C35. In every interleaving, the tasks are started in the order in which they were submitted, each
  once; the started tasks are those that have finished and those that a worker is running; \<open>active_\<close> is
  the number of workers between taking a task and reporting its end, so its decrement never wraps.
\<close>

theorem pool_fifo:
  assumes "reachable n h p"
  shows "tp_submitted p = tp_started p @ tp_queue p \<and>
    mset (tp_started p) = mset (tp_finished p) + mset (concat (map running_task (tp_workers p))) \<and>
    tp_active p = length (filter busy (tp_workers p)) \<and>
    (\<forall>i task. i < length (tp_workers p) \<and> tp_workers p ! i = Finishing task \<longrightarrow> 0 < tp_active p)"
proof -
  note inv = reachable_inv [OF assms]
  have "0 < tp_active p" if "i < length (tp_workers p)" "tp_workers p ! i = Finishing task" for i task
  proof -
    have "Finishing task \<in> set (filter busy (tp_workers p))" using that by (auto simp: in_set_conv_nth)
    then show ?thesis using inv by (cases "filter busy (tp_workers p)") (auto simp: pool_inv_def)
  qed
  then show ?thesis using inv by (auto simp: pool_inv_def)
qed

text \<open>
  C34. When \<open>wait_all\<close> returns, and when the destructor has joined all workers, every submitted task
  has finished, exactly once.
\<close>

theorem pool_wait_all:
  assumes "reachable n h p" and "wait_all_done p \<or> (\<forall>w \<in> set (tp_workers p). w = Exited)"
  shows "mset (tp_finished p) = mset (tp_submitted p)"
proof -
  note inv = reachable_inv [OF assms(1)]
  from assms(2) show ?thesis
  proof
    assume "wait_all_done p"
    then show ?thesis using inv by (intro all_done) (auto simp: wait_all_done_def pool_inv_def)
  next
    assume ex: "\<forall>w \<in> set (tp_workers p). w = Exited"
    then have "filter busy (tp_workers p) = []" by (auto simp: filter_empty_conv)
    moreover have "Exited \<in> set (tp_workers p)" using inv ex by (cases "tp_workers p") (auto simp: pool_inv_def)
    ultimately show ?thesis using inv by (intro all_done) (auto simp: pool_inv_def)
  qed
qed

section \<open>No notification is lost\<close>

fun awake :: "'a worker \<Rightarrow> bool" where
  "awake Sleeping = False"
| "awake Exited = False"
| "awake _ = True"

text \<open>
  A queue that is not empty has a client that will notify or a worker that will test the queue;
  workers sleep in a stopped pool only before the \<open>notify_all\<close> of the destructor; and clients sleep in
  \<open>wait_all\<close> although all is done only while a worker still has to notify them.
\<close>

definition wake_inv :: "'a pool \<Rightarrow> bool" where
  "wake_inv p \<longleftrightarrow> (tp_queue p \<noteq> [] \<longrightarrow> 0 < tp_signals p \<or> (\<exists>w \<in> set (tp_workers p). awake w)) \<and>
     (tp_stop p \<and> Sleeping \<in> set (tp_workers p) \<longrightarrow> tp_closing p) \<and>
     (Blocked \<in> set (tp_waiters p) \<and> wait_all_done p \<longrightarrow> Reporting \<in> set (tp_workers p))"

lemma awake_wake_up: "awake (wake_up w) \<longleftrightarrow> w \<noteq> Exited"
  by (cases w) auto

lemma wake_waiter_blocked [simp]: "Blocked \<notin> wake_waiter ` set vs"
proof -
  have "wake_waiter v \<noteq> Blocked" for v by (cases v) auto
  then show ?thesis by (metis imageE)
qed

lemma wake_inv_wake:
  assumes inv: "wake_inv p" and i: "i < length (tp_workers p)" "tp_workers p ! i = Waiting"
  shows "wake_inv (worker_wake i p)"
proof -
  obtain xs ys where "tp_workers p = xs @ Waiting # ys" "\<And>w. (tp_workers p)[i := w] = xs @ w # ys"
    using worker_split [OF i(1)] i(2) by metis
  then show ?thesis
    using inv by (cases "tp_queue p") (auto simp: worker_wake_def wake_inv_def set_worker_def wait_all_done_def)
qed

text \<open>One worker moves from a state to one that is awake.\<close>

lemma wake_inv_set:
  assumes "wake_inv p" and "i < length (tp_workers p)" and "tp_workers p ! i = w" and "awake w'" and "w \<noteq> Reporting"
  shows "wake_inv (set_worker i w' p)"
proof -
  obtain xs ys where "tp_workers p = xs @ w # ys" "\<And>v. (tp_workers p)[i := v] = xs @ v # ys"
    using worker_split [OF assms(2)] assms(3) by metis
  moreover have "w' \<noteq> Sleeping" using assms(4) by auto
  ultimately show ?thesis using assms(1,4,5) by (auto simp: wake_inv_def set_worker_def wait_all_done_def)
qed

lemma wake_inv_report:
  assumes inv: "wake_inv p" and i: "i < length (tp_workers p)" "tp_workers p ! i = Reporting"
  shows "wake_inv (worker_report i p)"
proof -
  obtain xs ys where "tp_workers p = xs @ Reporting # ys" "\<And>w. (tp_workers p)[i := w] = xs @ w # ys"
    using worker_split [OF i(1)] i(2) by metis
  then show ?thesis using inv by (auto simp: worker_report_def wake_inv_def set_worker_def)
qed

lemma none_sleeping_awake:
  assumes "pool_inv p" and "tp_queue p \<noteq> []" and "Sleeping \<notin> set (tp_workers p)"
  shows "\<exists>w \<in> set (tp_workers p). awake w"
proof -
  obtain w ws where "tp_workers p = w # ws" using assms(1) by (cases "tp_workers p") (auto simp: pool_inv_def)
  then show ?thesis using assms by (cases w) (auto simp: pool_inv_def)
qed

lemma wake_inv_notify_one:
  assumes inv: "wake_inv p" and i: "i < length (tp_workers p)" "tp_workers p ! i = Sleeping"
  shows "wake_inv (notify_one (Some i) p)"
proof -
  obtain xs ys where "tp_workers p = xs @ Sleeping # ys" "\<And>w. (tp_workers p)[i := w] = xs @ w # ys"
    using worker_split [OF i(1)] i(2) by metis
  then show ?thesis using inv by (auto simp: notify_one_def wake_inv_def set_worker_def wait_all_done_def)
qed

lemma wake_inv_notify_stop:
  assumes "wake_inv p" and "pool_inv p"
  shows "wake_inv (notify_stop p)"
proof -
  have "tp_queue p \<noteq> [] \<longrightarrow> (\<exists>w \<in> set (tp_workers p). w \<noteq> Exited)"
    using assms(2) by (cases "tp_workers p") (auto simp: pool_inv_def)
  then show ?thesis using assms(1) by (auto simp: notify_stop_def wake_inv_def wait_all_done_def awake_wake_up)
qed

lemma wake_inv_test:
  assumes "wake_inv p"
  shows "wake_inv (wait_all_test j p)"
proof -
  have "Blocked \<in> set ((tp_waiters p)[j := v]) \<Longrightarrow> Blocked \<in> set (tp_waiters p) \<or> v = Blocked" for v
    using set_update_subset_insert [of "tp_waiters p" j v] by auto
  then show ?thesis using assms by (auto simp: wait_all_test_def wake_inv_def wait_all_done_def split: if_splits)
qed

lemma sync_step_wake_inv:
  assumes "sync_step p p'" and inv: "wake_inv p" and pinv: "pool_inv p"
  shows "wake_inv p'"
  using assms(1)
proof cases
  case (release i task)
  obtain xs ys where "tp_workers p = xs @ Finishing task # ys" "\<And>w. (tp_workers p)[i := w] = xs @ w # ys"
    using worker_split [OF release(2)] release(3) by metis
  then show ?thesis using inv release(1) by (auto simp: wake_inv_def pool_defs)
next
  case notify_none
  then show ?thesis
    using none_sleeping_awake [OF pinv] inv by (auto simp: notify_one_def wake_inv_def wait_all_done_def)
qed (use inv pinv in \<open>simp_all add: wake_inv_wake wake_inv_report wake_inv_notify_one wake_inv_notify_stop wake_inv_test\<close>)

lemma thread_step_wake_inv:
  assumes "thread_step p p'" and inv: "wake_inv p" and pinv: "pool_inv p"
  shows "wake_inv p'"
  using assms(1)
proof cases
  case sync
  then show ?thesis using inv pinv by (rule sync_step_wake_inv)
next
  case (call i task)
  have "wake_inv (p\<lparr>tp_finished := tp_finished p @ [task]\<rparr>)" using inv by (simp add: wake_inv_def wait_all_done_def)
  then show ?thesis using call wake_inv_set [of _ i "Running task" "Finishing task"] by (simp add: worker_call_def)
qed

lemma spurious_step_wake_inv:
  assumes "spurious_step p p'" and inv: "wake_inv p"
  shows "wake_inv p'"
  using assms(1)
proof cases
  case (worker i)
  then show ?thesis using wake_inv_set [OF inv, of i Sleeping Waiting] by simp
next
  case (waiter j)
  then show ?thesis
    using inv set_update_subset_insert [of "tp_waiters p" j Testing] by (auto simp: wake_inv_def wait_all_done_def)
qed

lemma pool_step_wake_inv:
  assumes "pool_step p p'" and inv: "wake_inv p" and pinv: "pool_inv p"
  shows "wake_inv p'"
  using assms(1)
proof cases
  case thread
  then show ?thesis using inv pinv by (rule thread_step_wake_inv)
next
  case spurious
  then show ?thesis using inv by (rule spurious_step_wake_inv)
qed (use inv in \<open>simp_all add: wake_inv_def submit_def shutdown_def wait_all_def wait_all_done_def\<close>)

lemma wake_inv_new: "wake_inv (pool_new n h)"
  by (simp add: wake_inv_def pool_new_def Let_def)

lemma reachable_wake_inv: "reachable n h p \<Longrightarrow> wake_inv p \<and> pool_inv p"
  unfolding reachable_def
  by (induction rule: rtranclp_induct) (auto intro: wake_inv_new pool_new_inv pool_step_inv pool_step_wake_inv)

section \<open>Progress\<close>

text \<open>Each step of the threads makes this number smaller.\<close>

fun work :: "nat \<Rightarrow> 'a worker \<Rightarrow> nat" where
  "work m Sleeping = 0"
| "work m Exited = 0"
| "work m Waiting = 1"
| "work m Reporting = m + 2"
| "work m (Finishing t) = m + 3"
| "work m (Running t) = m + 4"

fun waiter_work :: "waiter \<Rightarrow> nat" where
  "waiter_work Testing = 1"
| "waiter_work _ = 0"

definition pool_work :: "'a pool \<Rightarrow> nat" where
  "pool_work p = (length (tp_waiters p) + 4) * length (tp_queue p) + sum_list (map (work (length (tp_waiters p))) (tp_workers p)) +
     2 * tp_signals p + (if tp_closing p then length (tp_workers p) + 1 else 0) + sum_list (map waiter_work (tp_waiters p))"

lemma wake_up_work: "sum_list (map (work m) (map wake_up ws)) \<le> sum_list (map (work m) ws) + length ws"
proof (induction ws)
  case (Cons w ws)
  then show ?case by (cases w) auto
qed simp

lemma waiters_work: "sum_list (map waiter_work vs) \<le> length vs"
proof (induction vs)
  case (Cons v vs)
  then show ?case by (cases v) auto
qed simp

text \<open>The workers after a move of one of them.\<close>

lemma work_set:
  assumes "i < length ws"
  shows "sum_list (map (work m) (ws[i := w'])) + work m (ws ! i) = sum_list (map (work m) ws) + work m w'"
proof -
  obtain xs ys where s: "ws = xs @ ws ! i # ys" "length xs = i" "\<And>w. ws[i := w] = xs @ w # ys"
    using worker_split [OF assms] by blast
  have "sum_list (map (work m) ws) = sum_list (map (work m) xs) + work m (ws ! i) + sum_list (map (work m) ys)"
    by (subst s(1)) simp
  then show ?thesis using s(3) by simp
qed

lemma test_work:
  assumes "j < length vs" and "vs ! j = Testing" and "v \<noteq> Testing"
  shows "sum_list (map waiter_work (vs[j := v])) < sum_list (map waiter_work vs)"
proof -
  have vs: "vs = take j vs @ Testing # drop (Suc j) vs" using id_take_nth_drop [OF assms(1)] assms(2) by simp
  have "sum_list (map waiter_work vs) = sum_list (map waiter_work (take j vs)) + 1 + sum_list (map waiter_work (drop (Suc j) vs))"
    by (subst vs) simp
  moreover have "waiter_work v = 0" using assms(3) by (cases v) auto
  ultimately show ?thesis using assms(1) by (simp add: upd_conv_take_nth_drop)
qed

lemma sync_step_work: "sync_step p p' \<Longrightarrow> pool_work p' < pool_work p"
proof (erule sync_stepE)
  let ?m = "length (tp_waiters p)"
  fix i assume i: "p' = worker_wake i p" "i < length (tp_workers p)" "tp_workers p ! i = Waiting"
  show ?thesis
  proof (cases "tp_queue p")
    case Nil
    then show ?thesis using i(1,3) work_set [OF i(2), of ?m Sleeping] work_set [OF i(2), of ?m Exited]
      by (simp add: worker_wake_def pool_work_def set_worker_def)
  next
    case (Cons t q)
    then show ?thesis using i(1,3) work_set [OF i(2), of ?m "Running t"]
      by (simp add: worker_wake_def pool_work_def set_worker_def)
  qed
next
  fix i task assume i: "p' = worker_release i p" "i < length (tp_workers p)" "tp_workers p ! i = Finishing task"
  show ?thesis using i(1) work_set [OF i(2), of "length (tp_waiters p)" Reporting] i(3) by (simp add: pool_work_def pool_defs)
next
  fix i assume i: "p' = worker_report i p" "i < length (tp_workers p)" "tp_workers p ! i = Reporting"
  show ?thesis using i(1) work_set [OF i(2), of "length (tp_waiters p)" Waiting] i(3) waiters_work [of "map wake_waiter (tp_waiters p)"]
    by (simp add: pool_work_def pool_defs)
next
  fix i assume i: "p' = notify_one (Some i) p" "0 < tp_signals p" "i < length (tp_workers p)" "tp_workers p ! i = Sleeping"
  show ?thesis using i(1,2) work_set [OF i(3), of "length (tp_waiters p)" Waiting] i(4) by (simp add: pool_work_def pool_defs)
next
  assume i: "p' = notify_stop p" "tp_closing p"
  show ?thesis using i wake_up_work [of "length (tp_waiters p)" "tp_workers p"] by (simp add: pool_work_def notify_stop_def)
next
  fix j assume j: "p' = wait_all_test j p" "j < length (tp_waiters p)" "tp_waiters p ! j = Testing"
  show ?thesis using j(1) test_work [OF j(2,3)] by (simp add: pool_work_def wait_all_test_def)
qed (simp add: pool_work_def notify_one_def)

lemma thread_step_work: "thread_step p p' \<Longrightarrow> pool_work p' < pool_work p"
proof (erule thread_stepE)
  fix i task assume i: "p' = worker_call i task p" "i < length (tp_workers p)" "tp_workers p ! i = Running task"
  show ?thesis using i(1) work_set [OF i(2), of "length (tp_waiters p)" "Finishing task"] i(3) by (simp add: pool_work_def pool_defs)
qed (rule sync_step_work)

lemma thread_step_keeps: "thread_step p p' \<Longrightarrow> tp_submitted p' = tp_submitted p \<and> tp_stop p' = tp_stop p"
  by (auto simp: worker_wake_def pool_defs Let_def elim!: thread_stepE sync_stepE split: if_splits list.splits option.splits)

lemma thread_steps_keep:
  assumes "thread_step\<^sup>*\<^sup>* p q" and "wake_inv p" and "pool_inv p"
  shows "wake_inv q \<and> pool_inv q \<and> tp_submitted q = tp_submitted p \<and> tp_stop q = tp_stop p"
  using assms
proof (induction rule: rtranclp_induct)
  case (step a b)
  then show ?case using thread_step_keeps thread_step_inv thread_step_wake_inv by metis
qed simp

text \<open>Where no thread can move, the workers sleep or have returned, and no notification is due.\<close>

lemma stuck_threads:
  assumes stuck: "\<And>r. \<not> thread_step q r"
  shows "w \<in> set (tp_workers q) \<Longrightarrow> w = Sleeping \<or> w = Exited" "v \<in> set (tp_waiters q) \<Longrightarrow> v = Blocked \<or> v = Returned"
    "tp_signals q = 0" "\<not> tp_closing q"
proof -
  have sync: "\<not> sync_step q r" for r using stuck thread_step.sync by blast
  show "w = Sleeping \<or> w = Exited" if mem: "w \<in> set (tp_workers q)"
  proof -
    obtain i where i: "i < length (tp_workers q)" "tp_workers q ! i = w" using mem by (auto simp: in_set_conv_nth)
    show ?thesis
    proof (cases w)
      case Waiting
      then show ?thesis using sync sync_step.wake [OF i(1)] i(2) by blast
    next
      case (Running t)
      then show ?thesis using stuck thread_step.call [OF i(1)] i(2) by blast
    next
      case (Finishing t)
      then show ?thesis using sync sync_step.release [OF i(1)] i(2) by blast
    next
      case Reporting
      then show ?thesis using sync sync_step.report [OF i(1)] i(2) by blast
    qed simp_all
  qed
  show "v = Blocked \<or> v = Returned" if mem: "v \<in> set (tp_waiters q)"
  proof -
    obtain j where "j < length (tp_waiters q)" "tp_waiters q ! j = v" using mem by (auto simp: in_set_conv_nth)
    then show ?thesis using sync sync_step.test by (cases v) blast+
  qed
  show "tp_signals q = 0"
  proof (rule ccontr)
    assume s: "tp_signals q \<noteq> 0"
    then show False using sync sync_step.notify sync_step.notify_none by (metis in_set_conv_nth neq0_conv)
  qed
  show "\<not> tp_closing q" using sync sync_step.notify_stop by blast
qed

lemma stuck_done:
  assumes inv: "wake_inv q" "pool_inv q" and stuck: "\<And>r. \<not> thread_step q r"
  shows "mset (tp_finished q) = mset (tp_submitted q)" "\<forall>v \<in> set (tp_waiters q). v = Returned"
    "tp_stop q \<Longrightarrow> \<forall>w \<in> set (tp_workers q). w = Exited"
proof -
  note st = stuck_threads [OF stuck]
  have "\<not> awake w" "\<not> busy w" "w \<noteq> Reporting" if "w \<in> set (tp_workers q)" for w using st(1) [OF that] by auto
  note w = this
  have q: "tp_queue q = []" using inv(1) w(1) st(3) by (auto simp: wake_inv_def)
  have f: "filter busy (tp_workers q) = []" using w(2) by (simp add: filter_empty_conv)
  show "mset (tp_finished q) = mset (tp_submitted q)" using all_done [OF inv(2) q f] .
  have "wait_all_done q" using q f inv(2) by (simp add: wait_all_done_def pool_inv_def)
  then have "Blocked \<notin> set (tp_waiters q)" using inv(1) w(3) by (auto simp: wake_inv_def)
  then show "\<forall>v \<in> set (tp_waiters q). v = Returned" using st(2) by blast
  show "\<forall>w \<in> set (tp_workers q). w = Exited" if "tp_stop q" using that st(1,4) inv(1) by (auto simp: wake_inv_def)
qed

text \<open>
  C33. The pool makes progress, and no wake-up is lost: from every reachable state the threads inside the
  pool (workers, clients in \<open>submit\<close> and \<open>wait_all\<close>, the destructor), left alone and without spurious
  wake-ups, can take only finitely many steps, and when none of them can take a step any more, whatever the
  order was and whichever worker each \<open>notify_one\<close> chose, every submitted task has finished, every
  \<open>wait_all\<close> has returned, and if the pool is being destroyed, every worker has returned, so the joins of
  the destructor end.
\<close>

theorem pool_progress:
  assumes "reachable n h p"
  shows "(\<nexists>f. f 0 = p \<and> (\<forall>i :: nat. thread_step (f i) (f (Suc i)))) \<and>
    (\<forall>q. thread_step\<^sup>*\<^sup>* p q \<and> (\<forall>r. \<not> thread_step q r) \<longrightarrow>
       mset (tp_finished q) = mset (tp_submitted p) \<and> (\<forall>v \<in> set (tp_waiters q). v = Returned) \<and>
       (tp_stop p \<longrightarrow> (\<forall>w \<in> set (tp_workers q). w = Exited)))"
proof
  have inv: "wake_inv p" "pool_inv p" using reachable_wake_inv [OF assms] by auto
  show "\<nexists>f. f 0 = p \<and> (\<forall>i. thread_step (f i) (f (Suc i)))"
  proof
    assume "\<exists>f. f 0 = p \<and> (\<forall>i. thread_step (f i) (f (Suc i)))"
    then obtain f where "f 0 = p" "\<forall>i. thread_step (f i) (f (Suc i))" by blast
    then have "\<forall>i. (f (Suc i), f i) \<in> measure pool_work" using thread_step_work by auto
    then show False using wf_measure [of pool_work] unfolding wf_iff_no_infinite_down_chain by blast
  qed
  show "\<forall>q. thread_step\<^sup>*\<^sup>* p q \<and> (\<forall>r. \<not> thread_step q r) \<longrightarrow>
      mset (tp_finished q) = mset (tp_submitted p) \<and> (\<forall>v \<in> set (tp_waiters q). v = Returned) \<and>
      (tp_stop p \<longrightarrow> (\<forall>w \<in> set (tp_workers q). w = Exited))"
    using thread_steps_keep [OF _ inv] stuck_done by metis
qed

section \<open>Instances\<close>

text \<open>
  One worker, one task: the worker has gone to sleep, the task is submitted and a client waits for it;
  the client that submitted it notifies, the task is run, and the waiting client is notified.
\<close>

definition demo_pool :: "nat list \<Rightarrow> nat worker \<Rightarrow> waiter list \<Rightarrow> nat \<Rightarrow> nat \<Rightarrow> nat list \<Rightarrow> nat list \<Rightarrow> nat pool" where
  "demo_pool q w vs act sig sta fin = \<lparr>tp_queue = q, tp_workers = [w], tp_waiters = vs, tp_stop = False, tp_active = act,
     tp_signals = sig, tp_closing = False, tp_submitted = [7], tp_started = sta, tp_finished = fin\<rparr>"

lemmas demo_defs = demo_pool_def pool_defs worker_wake_def wait_all_done_def

lemma demo_start: "pool_step\<^sup>*\<^sup>* (pool_new 1 4) (demo_pool [7] Sleeping [Blocked] 0 1 [] [])"
proof -
  let ?p1 = "worker_wake 0 (pool_new 1 4) :: nat pool"
  let ?p2 = "submit 7 ?p1"
  have "pool_step (pool_new 1 4) ?p1"
    by (intro pool_step.thread thread_step.sync sync_step.wake) (simp_all add: pool_new_def)
  moreover have "pool_step ?p1 ?p2" by (rule pool_step.submit) (simp add: pool_new_def demo_defs)
  moreover have "pool_step ?p2 (wait_all ?p2)" by (rule pool_step.wait_all) (simp add: pool_new_def demo_defs)
  moreover have "pool_step (wait_all ?p2) (wait_all_test 0 (wait_all ?p2))"
    by (intro pool_step.thread thread_step.sync sync_step.test) (simp_all add: pool_new_def demo_defs)
  moreover have "wait_all_test 0 (wait_all ?p2) = demo_pool [7] Sleeping [Blocked] 0 1 [] []"
    by (simp add: pool_new_def demo_defs)
  ultimately show ?thesis by (metis converse_rtranclp_into_rtranclp rtranclp.rtrancl_refl)
qed

lemma demo_steps:
  "thread_step (demo_pool [7] Sleeping [Blocked] 0 1 [] []) (demo_pool [7] Waiting [Blocked] 0 0 [] [])"
  "thread_step (demo_pool [7] Waiting [Blocked] 0 0 [] []) (demo_pool [] (Running 7) [Blocked] 1 0 [7] [])"
  "thread_step (demo_pool [] (Running 7) [Blocked] 1 0 [7] []) (demo_pool [] (Finishing 7) [Blocked] 1 0 [7] [7])"
  "thread_step (demo_pool [] (Finishing 7) [Blocked] 1 0 [7] [7]) (demo_pool [] Reporting [Blocked] 0 0 [7] [7])"
  "thread_step (demo_pool [] Reporting [Blocked] 0 0 [7] [7]) (demo_pool [] Waiting [Testing] 0 0 [7] [7])"
  "thread_step (demo_pool [] Waiting [Testing] 0 0 [7] [7]) (demo_pool [] Sleeping [Testing] 0 0 [7] [7])"
  "thread_step (demo_pool [] Sleeping [Testing] 0 0 [7] [7]) (demo_pool [] Sleeping [Returned] 0 0 [7] [7])"
proof -
  show "thread_step (demo_pool [7] Sleeping [Blocked] 0 1 [] []) (demo_pool [7] Waiting [Blocked] 0 0 [] [])"
    using sync_step.notify [of "demo_pool [7] Sleeping [Blocked] 0 1 [] []" 0, THEN thread_step.sync] by (simp add: demo_defs)
  show "thread_step (demo_pool [7] Waiting [Blocked] 0 0 [] []) (demo_pool [] (Running 7) [Blocked] 1 0 [7] [])"
    using sync_step.wake [of 0 "demo_pool [7] Waiting [Blocked] 0 0 [] []", THEN thread_step.sync] by (simp add: demo_defs)
  show "thread_step (demo_pool [] (Running 7) [Blocked] 1 0 [7] []) (demo_pool [] (Finishing 7) [Blocked] 1 0 [7] [7])"
    using thread_step.call [of 0 "demo_pool [] (Running 7) [Blocked] 1 0 [7] []" 7] by (simp add: demo_defs)
  show "thread_step (demo_pool [] (Finishing 7) [Blocked] 1 0 [7] [7]) (demo_pool [] Reporting [Blocked] 0 0 [7] [7])"
    using sync_step.release [of 0 "demo_pool [] (Finishing 7) [Blocked] 1 0 [7] [7]" 7, THEN thread_step.sync] by (simp add: demo_defs)
  show "thread_step (demo_pool [] Reporting [Blocked] 0 0 [7] [7]) (demo_pool [] Waiting [Testing] 0 0 [7] [7])"
    using sync_step.report [of 0 "demo_pool [] Reporting [Blocked] 0 0 [7] [7]", THEN thread_step.sync] by (simp add: demo_defs)
  show "thread_step (demo_pool [] Waiting [Testing] 0 0 [7] [7]) (demo_pool [] Sleeping [Testing] 0 0 [7] [7])"
    using sync_step.wake [of 0 "demo_pool [] Waiting [Testing] 0 0 [7] [7]", THEN thread_step.sync] by (simp add: demo_defs)
  show "thread_step (demo_pool [] Sleeping [Testing] 0 0 [7] [7]) (demo_pool [] Sleeping [Returned] 0 0 [7] [7])"
    using sync_step.test [of 0 "demo_pool [] Sleeping [Testing] 0 0 [7] [7]", THEN thread_step.sync] by (simp add: demo_defs)
qed

lemma demo_work:
  "thread_step\<^sup>*\<^sup>* (demo_pool [7] Sleeping [Blocked] 0 1 [] []) (demo_pool [] (Finishing 7) [Blocked] 1 0 [7] [7])"
  "thread_step\<^sup>*\<^sup>* (demo_pool [] (Finishing 7) [Blocked] 1 0 [7] [7]) (demo_pool [] Sleeping [Returned] 0 0 [7] [7])"
  using demo_steps by (meson rtranclp.rtrancl_into_rtrancl rtranclp.rtrancl_refl)+

lemma demo_reach:
  "reachable 1 4 (demo_pool [7] Sleeping [Blocked] 0 1 [] [])"
  "reachable 1 4 (demo_pool [] (Finishing 7) [Blocked] 1 0 [7] [7])"
  "reachable 1 4 (demo_pool [] Sleeping [Returned] 0 0 [7] [7])"
proof -
  have t: "thread_step\<^sup>*\<^sup>* p q \<Longrightarrow> pool_step\<^sup>*\<^sup>* p q" for p q :: "nat pool" by (metis pool_step.thread predicate2I rtranclp_mono predicate2D)
  show r1: "reachable 1 4 (demo_pool [7] Sleeping [Blocked] 0 1 [] [])" using demo_start by (simp add: reachable_def)
  then show r2: "reachable 1 4 (demo_pool [] (Finishing 7) [Blocked] 1 0 [7] [7])"
    using t [OF demo_work(1)] unfolding reachable_def by (rule rtranclp_trans)
  then show "reachable 1 4 (demo_pool [] Sleeping [Returned] 0 0 [7] [7])"
    using t [OF demo_work(2)] unfolding reachable_def by (rule rtranclp_trans)
qed

theorem pool_fifo_witness: "0 < tp_active (demo_pool [] (Finishing 7) [Blocked] 1 0 [7] [7])"
  using pool_fifo [OF demo_reach(2)] by (auto simp: demo_pool_def)

theorem pool_wait_all_witness: "mset (tp_finished (demo_pool [] Sleeping [Returned] 0 0 [7] [7])) = mset [7]"
  using pool_wait_all [OF demo_reach(3)] by (simp add: demo_pool_def wait_all_done_def)

theorem pool_progress_witness:
  "(\<nexists>f. f 0 = demo_pool [7] Sleeping [Blocked] 0 1 [] [] \<and> (\<forall>i :: nat. thread_step (f i) (f (Suc i)))) \<and>
    mset (tp_finished (demo_pool [] Sleeping [Returned] 0 0 [7] [7])) = mset [7]"
proof
  note pr = pool_progress [OF demo_reach(1)]
  show "\<nexists>f. f 0 = demo_pool [7] Sleeping [Blocked] 0 1 [] [] \<and> (\<forall>i :: nat. thread_step (f i) (f (Suc i)))"
    by (rule pr [THEN conjunct1])
  have "\<not> thread_step (demo_pool [] Sleeping [Returned] 0 0 [7] [7]) r" for r
    by (auto simp: demo_pool_def elim!: thread_stepE sync_stepE)
  moreover have "thread_step\<^sup>*\<^sup>* (demo_pool [7] Sleeping [Blocked] 0 1 [] []) (demo_pool [] Sleeping [Returned] 0 0 [7] [7])"
    using demo_work by (rule rtranclp_trans)
  ultimately show "mset (tp_finished (demo_pool [] Sleeping [Returned] 0 0 [7] [7])) = mset [7]"
    using pr [THEN conjunct2, rule_format, of "demo_pool [] Sleeping [Returned] 0 0 [7] [7]"] by (simp add: demo_pool_def)
qed

end
