(* ===== verification/ServerRun.thy ===== *)
theory ServerRun
  imports SessionProps ThreadPool
begin

text \<open>
  The server process (\<open>Server\<close> in \<open>src/src/server/server.cpp\<close>): the constructor, \<open>run\<close>, \<open>stop\<close> and the
  destructor, with the thread pool that runs \<open>handle_client\<close> for every accepted connection on one
  shared executor.

  A connection is its descriptor and the chunks that \<open>recv\<close> returns on it until the peer closes.
  The results of the system calls are arguments: whether \<open>socket\<close>, \<open>bind\<close> and \<open>listen\<close> succeed, and
  what \<open>accept\<close> returns.

  A handler is one step of its worker. This is exact for a pool of one worker
  (\<open>--threads 1\<close>), which is what the properties are about. With more workers the
  handlers overlap, and the tables they share have no lock; see the theory of concurrent
  insertions. The other steps of the pool (sleeping, notifications, spurious wake-ups included) are those of
  \<open>ThreadPool\<close>.
\<close>

section \<open>The model\<close>

type_synonym conn = "nat \<times> string list"

record server =
  sv_listen :: bool
  sv_running :: bool
  sv_executor :: executor
  sv_pool :: "conn pool"
  sv_sent :: "(conn \<times> string) list"
  sv_fault :: "fault option"

text \<open>
  \<open>sv_listen\<close>: \<open>listen_fd_\<close> is not negative. \<open>sv_sent\<close> records what was sent on each closed connection.
  \<open>sv_fault\<close>: the process has ended by a fault or an exception that no one catches.
\<close>

text \<open>The constructor; \<open>None\<close> is \<open>exit(1)\<close>.\<close>

definition server_new :: "bool \<Rightarrow> bool \<Rightarrow> string \<Rightarrow> nat \<Rightarrow> nat \<Rightarrow> server option" where
  "server_new socket_ok bind_ok data_dir threads hardware_concurrency =
     (if \<not> socket_ok then None else if \<not> bind_ok then None
      else Some \<lparr>sv_listen = True, sv_running = False, sv_executor = exec_new data_dir,
        sv_pool = pool_new threads hardware_concurrency, sv_sent = [], sv_fault = None\<rparr>)"

text \<open>\<open>run\<close> up to its loop: it returns when \<open>listen\<close> fails.\<close>

definition server_run :: "bool \<Rightarrow> server \<Rightarrow> server" where
  "server_run listen_ok sv = (if \<not> listen_ok then sv else sv\<lparr>sv_running := True\<rparr>)"

text \<open>One turn of the loop; \<open>None\<close>: \<open>accept\<close> returned a negative number.\<close>

definition server_accept :: "conn option \<Rightarrow> server \<Rightarrow> server" where
  "server_accept client_fd sv = (case client_fd of None \<Rightarrow> sv
     | Some c \<Rightarrow> sv\<lparr>sv_pool := submit c (sv_pool sv)\<rparr>)"

definition server_stop :: "server \<Rightarrow> server" where
  "server_stop sv = sv\<lparr>sv_running := False, sv_listen := False\<rparr>"

text \<open>The destructor closes the socket; then the pool is destroyed, before the executor.\<close>

definition server_destroy :: "server \<Rightarrow> server" where
  "server_destroy sv = sv\<lparr>sv_listen := False, sv_pool := shutdown (sv_pool sv)\<rparr>"

text \<open>The task of a connection, from an empty accumulator to the end of the stream.\<close>

definition server_task :: "exec_env \<Rightarrow> conn \<Rightarrow> executor \<Rightarrow> (string \<times> executor) res" where
  "server_task env c ex =
     rbind (handle_client env (snd c) \<lparr>ss_acc = [], ss_sent = [], ss_exec = ex\<rparr>) (\<lambda>s. Inr (ss_sent s, ss_exec s))"

definition server_call :: "exec_env \<Rightarrow> nat \<Rightarrow> conn \<Rightarrow> server \<Rightarrow> server" where
  "server_call env i c sv = (case server_task env c (sv_executor sv) of
       Inl e \<Rightarrow> sv\<lparr>sv_fault := Some e\<rparr>
     | Inr (out, ex) \<Rightarrow> sv\<lparr>sv_executor := ex, sv_sent := sv_sent sv @ [(c, out)], sv_pool := worker_call i c (sv_pool sv)\<rparr>)"

inductive server_step :: "exec_env \<Rightarrow> server \<Rightarrow> server \<Rightarrow> bool" for env :: exec_env where
  run: "sv_fault sv = None \<Longrightarrow> sv_listen sv \<Longrightarrow> \<not> sv_running sv \<Longrightarrow> server_step env sv (server_run ok sv)"
| accept: "sv_fault sv = None \<Longrightarrow> sv_running sv \<Longrightarrow> server_step env sv (server_accept c sv)"
| stop: "sv_fault sv = None \<Longrightarrow> server_step env sv (server_stop sv)"
| destroy: "sv_fault sv = None \<Longrightarrow> \<not> sv_running sv \<Longrightarrow> server_step env sv (server_destroy sv)"
| sync: "sv_fault sv = None \<Longrightarrow> sync_step (sv_pool sv) p \<Longrightarrow> server_step env sv (sv\<lparr>sv_pool := p\<rparr>)"
| spurious: "sv_fault sv = None \<Longrightarrow> spurious_step (sv_pool sv) p \<Longrightarrow> server_step env sv (sv\<lparr>sv_pool := p\<rparr>)"
| call: "sv_fault sv = None \<Longrightarrow> i < length (tp_workers (sv_pool sv)) \<Longrightarrow> tp_workers (sv_pool sv) ! i = Running c \<Longrightarrow>
    server_step env sv (server_call env i c sv)"

text \<open>The tasks of connections, one after the other.\<close>

fun handle_all :: "exec_env \<Rightarrow> conn list \<Rightarrow> executor \<Rightarrow> (string list \<times> executor) res" where
  "handle_all env [] ex = Inr ([], ex)"
| "handle_all env (c # cs) ex =
     rbind (server_task env c ex) (\<lambda>(out, ex1). rbind (handle_all env cs ex1) (\<lambda>(outs, ex2). Inr (out # outs, ex2)))"

lemma handle_all_append:
  "handle_all env (cs @ ds) ex = rbind (handle_all env cs ex) (\<lambda>(outs, ex1).
     rbind (handle_all env ds ex1) (\<lambda>(outs', ex2). Inr (outs @ outs', ex2)))"
  by (induction cs arbitrary: ex) (auto simp: rbind_def split: sum.splits)

section \<open>The server in steps of its pool\<close>

text \<open>Every step of the server is a step of the pool, or leaves it alone.\<close>

definition open_ok :: "server \<Rightarrow> bool" where
  "open_ok sv \<longleftrightarrow> (tp_stop (sv_pool sv) \<longrightarrow> \<not> sv_running sv \<and> \<not> sv_listen sv)"

lemma server_step_pool:
  assumes "server_step env sv sv'" and "open_ok sv"
  shows "open_ok sv' \<and> (sv_pool sv' = sv_pool sv \<or> pool_step (sv_pool sv) (sv_pool sv'))"
  using assms(1)
proof cases
  case (run ok)
  then show ?thesis using assms(2) by (auto simp: open_ok_def server_run_def)
next
  case (accept c)
  then show ?thesis
    using assms(2) pool_step.submit [of "sv_pool sv"] by (cases c) (auto simp: open_ok_def server_accept_def submit_def)
next
  case destroy
  then show ?thesis using pool_step.shutdown [of "sv_pool sv"] by (auto simp: open_ok_def server_destroy_def shutdown_def)
next
  case (sync p)
  note t = thread_step.sync [OF sync(3)]
  show ?thesis using sync assms(2) thread_step_keeps [OF t] pool_step.thread [OF t] by (auto simp: open_ok_def)
next
  case (spurious p)
  have "tp_stop p = tp_stop (sv_pool sv)" using spurious(3) by (auto simp: set_worker_def elim: spurious_stepE)
  then show ?thesis using spurious assms(2) pool_step.spurious [OF spurious(3)] by (auto simp: open_ok_def)
next
  case (call i c)
  then show ?thesis using assms(2) pool_step.thread [OF thread_step.call [OF call(3,4)]]
    by (auto simp: open_ok_def server_call_def worker_call_def set_worker_def split: sum.splits)
qed (use assms(2) in \<open>auto simp: open_ok_def server_stop_def\<close>)

section \<open>One worker\<close>

text \<open>
  With one worker the finished connections are those that were started, but for the running one,
  and the executor is the one that their tasks, run in this order, leave.
\<close>

definition serial_inv :: "exec_env \<Rightarrow> string \<Rightarrow> server \<Rightarrow> bool" where
  "serial_inv env dir sv \<longleftrightarrow> (\<exists>w. tp_workers (sv_pool sv) = [w] \<and>
     tp_started (sv_pool sv) = map fst (sv_sent sv) @ running_task w) \<and>
     handle_all env (map fst (sv_sent sv)) (exec_new dir) = Inr (map snd (sv_sent sv), sv_executor sv) \<and>
     (case sv_fault sv of None \<Rightarrow> True | Some e \<Rightarrow> handle_all env (tp_started (sv_pool sv)) (exec_new dir) = Inl e)"

lemmas server_defs = server_run_def server_accept_def server_stop_def server_destroy_def

lemma serial_inv_new: "server_new so bo dir 1 h = Some sv \<Longrightarrow> serial_inv env dir sv"
  by (auto simp: server_new_def pool_new_def serial_inv_def Let_def split: if_splits)

lemma serial_inv_call:
  assumes "serial_inv env dir sv" and "sv_fault sv = None" and "tp_workers (sv_pool sv) = [Running c]"
  shows "serial_inv env dir (server_call env 0 c sv)"
proof -
  have h: "handle_all env (map fst (sv_sent sv)) (exec_new dir) = Inr (map snd (sv_sent sv), sv_executor sv)"
    "tp_started (sv_pool sv) = map fst (sv_sent sv) @ [c]"
    using assms(1,3) by (auto simp: serial_inv_def)
  have n: "handle_all env (map fst (sv_sent sv) @ [c]) (exec_new dir) =
      rbind (server_task env c (sv_executor sv)) (\<lambda>(out, ex). Inr (map snd (sv_sent sv) @ [out], ex))"
    using h(1) by (simp add: handle_all_append rbind_def split: sum.splits)
  show ?thesis
  proof (cases "server_task env c (sv_executor sv)")
    case (Inl e)
    then show ?thesis using assms h n by (simp add: serial_inv_def server_call_def)
  next
    case (Inr p)
    then show ?thesis
      using assms(2,3) h(2) n by (cases p) (simp add: serial_inv_def server_call_def worker_call_def set_worker_def)
  qed
qed

text \<open>The other steps of the pool move the worker and keep what was started and is not running.\<close>

lemma serial_sync:
  assumes "sync_step p p' \<or> spurious_step p p'" and "tp_workers p = [w]" and "tp_started p = cs @ running_task w"
  shows "\<exists>w'. tp_workers p' = [w'] \<and> tp_started p' = cs @ running_task w'"
proof -
  have "length (tp_workers p') = 1 \<and> tp_started p' = cs @ running_task (hd (tp_workers p'))"
    using assms by (auto simp: worker_wake_def pool_defs elim!: sync_stepE spurious_stepE split: list.splits)
  then show ?thesis by (cases "tp_workers p'") auto
qed

lemma serial_inv_sync:
  assumes inv: "serial_inv env dir sv" and f: "sv_fault sv = None" and p: "sync_step (sv_pool sv) p \<or> spurious_step (sv_pool sv) p"
  shows "serial_inv env dir (sv\<lparr>sv_pool := p\<rparr>)"
proof -
  obtain w where "tp_workers (sv_pool sv) = [w]" "tp_started (sv_pool sv) = map fst (sv_sent sv) @ running_task w"
    using inv by (auto simp: serial_inv_def)
  then show ?thesis using serial_sync [OF p] inv f by (auto simp: serial_inv_def)
qed

lemma serial_inv_step:
  assumes "server_step env sv sv'" and inv: "serial_inv env dir sv"
  shows "serial_inv env dir sv'"
  using assms(1)
proof cases
  case (accept c)
  then show ?thesis using inv by (cases c) (auto simp: serial_inv_def server_defs submit_def)
next
  case (sync p)
  then show ?thesis using serial_inv_sync [OF inv] by simp
next
  case (spurious p)
  then show ?thesis using serial_inv_sync [OF inv] by simp
next
  case (call i c)
  then have "i = 0" "tp_workers (sv_pool sv) = [Running c]" using inv by (auto simp: serial_inv_def)
  then show ?thesis using serial_inv_call [OF inv call(2)] call(1) by simp
qed (use inv in \<open>auto simp: serial_inv_def server_defs shutdown_def split: option.splits\<close>)

lemma server_reach:
  assumes "server_new so bo dir 1 h = Some sv0" and "(server_step env)\<^sup>*\<^sup>* sv0 sv"
  shows "serial_inv env dir sv \<and> pool_inv (sv_pool sv)"
proof -
  have "open_ok sv0" "pool_inv (sv_pool sv0)" "serial_inv env dir sv0"
    using assms(1) serial_inv_new reachable_inv [of 1 h "pool_new 1 h"]
    by (auto simp: server_new_def open_ok_def pool_new_def reachable_def split: if_splits)
  with assms(2) have "open_ok sv \<and> pool_inv (sv_pool sv) \<and> serial_inv env dir sv"
  proof (induction rule: rtranclp_induct)
    case (step a b)
    then show ?case using server_step_pool [OF step.hyps(2)] serial_inv_step [OF step.hyps(2)] pool_step_inv by metis
  qed simp
  then show ?thesis by blast
qed

section \<open>The server is the abstract database\<close>

lemma spec_run_append:
  "spec_run db xs outs db1 \<Longrightarrow> spec_run db1 ys outs' db2 \<Longrightarrow> spec_run db (xs @ ys) (outs @ outs') db2"
  by (induction db xs outs db1 rule: spec_run.induct) (auto split: list.splits)

lemma admissible_append:
  "admissible db (xs @ ys) \<longleftrightarrow> admissible db xs \<and> (\<forall>outs db'. spec_run db xs outs db' \<longrightarrow> admissible db' ys)"
proof (induction xs arbitrary: db)
  case (Cons x xs)
  have "(\<forall>outs db'. spec_run db (x # xs) outs db' \<longrightarrow> admissible db' ys) \<longleftrightarrow>
      (\<forall>out db1 outs db'. spec_step db x out db1 \<and> spec_run db1 xs outs db' \<longrightarrow> admissible db' ys)"
    by (auto split: list.splits)
  then show ?case using Cons by auto
qed simp

lemma spec_run_length: "spec_run db ss outs db' \<Longrightarrow> length outs = length ss"
  by (induction db ss outs db' rule: spec_run.induct) (auto split: list.splits)

text \<open>A connection that brings the texts of the statements \<open>ss\<close>.\<close>

definition brings :: "conn \<Rightarrow> statement list \<Rightarrow> bool" where
  "brings c ss \<longleftrightarrow> chunks_ok (snd c) \<and> concat (snd c) = request_text (map stmt_text ss) \<and> list_all printable ss"

definition replies :: "exec_out list \<Rightarrow> string" where
  "replies outs = concat (map reply outs)"

lemma server_task_brings:
  assumes "brings c ss"
  shows "server_task env c ex = rbind (exec_all env ss ex) (\<lambda>(outs, ex'). Inr (replies outs, ex'))"
proof -
  have "\<forall>q \<in> set (map stmt_text ss). CHR '';'' \<notin> set q"
    using assms stmt_text_no_semicolon by (auto simp: brings_def list_all_iff)
  then have "handle_client env (snd c) \<lparr>ss_acc = [], ss_sent = [], ss_exec = ex\<rparr> =
      rbind (exec_all env ss ex) (\<lambda>(outs, ex'). Inr \<lparr>ss_acc = [], ss_sent = replies outs, ss_exec = ex'\<rparr>)"
    using assms drain_statements [of "map stmt_text ss" "[]" env "[]" ex] serve_all_printable [of ss env ex]
      handle_client_concat [of "snd c" "\<lparr>ss_acc = [], ss_sent = [], ss_exec = ex\<rparr>" env]
    by (simp add: brings_def replies_def)
  then show ?thesis by (auto simp: server_task_def rbind_def split: sum.splits)
qed

lemma handle_all_brings:
  assumes srt: "sort_spec (env_sort env)" and "list_all2 brings cs sss" and "db_rel ex db" and "admissible db (concat sss)"
  shows "\<exists>outss ex' db'. handle_all (disk_env data idx env) cs ex = Inr (map replies outss, ex') \<and>
    map length outss = map length sss \<and> spec_run db (concat sss) (concat outss) db' \<and> db_rel ex' db'"
  using assms(2-)
proof (induction cs sss arbitrary: ex db rule: list_all2_induct)
  case (Cons c cs ss sss)
  obtain outs ex1 db1 where o: "exec_all (disk_env data idx env) ss ex = Inr (outs, ex1)" "spec_run db ss outs db1" "db_rel ex1 db1"
    using exec_all_simulates [OF srt Cons.prems(1), of ss data idx] Cons.prems(2) by (auto simp: admissible_append)
  have "admissible db1 (concat sss)" using Cons.prems(2) o(2) by (auto simp: admissible_append)
  then obtain outss ex2 db2 where r: "handle_all (disk_env data idx env) cs ex1 = Inr (map replies outss, ex2)"
    "map length outss = map length sss" "spec_run db1 (concat sss) (concat outss) db2" "db_rel ex2 db2"
    using Cons.IH [OF o(3)] by blast
  then show ?case
    using o server_task_brings [OF Cons.hyps(1)] spec_run_append [OF o(2) r(3)] spec_run_length [OF o(2)]
    by (intro exI [of _ "outs # outss"] exI [of _ ex2] exI [of _ db2]) simp
qed auto

text \<open>
  C2. The whole server with one worker, in any state it can reach: connections are accepted, queued
  and served in any interleaving, the server may be stopped and destroyed. If the connections bring
  statements that the specification covers, the process has not faulted; the served connections are
  the first \<open>k\<close> accepted ones, in this order; and on each of them the server has sent the replies of one
  abstract database, whose state carries over from each connection to the next. When the pool is idle,
  every accepted connection has been served.
\<close>

theorem server_refines:
  assumes "sort_spec (env_sort env)" and "server_new socket_ok bind_ok dir 1 h = Some sv0"
    and "(server_step (disk_env data idx env))\<^sup>*\<^sup>* sv0 sv"
    and "list_all2 brings (tp_submitted (sv_pool sv)) sss" and "admissible Map.empty (concat sss)"
  shows "\<exists>k outss db'. sv_fault sv = None \<and> sv_sent sv = zip (take k (tp_submitted (sv_pool sv))) (map replies outss) \<and>
    map length outss = map length (take k sss) \<and> spec_run Map.empty (concat (take k sss)) (concat outss) db' \<and>
    k \<le> length sss \<and> (wait_all_done (sv_pool sv) \<longrightarrow> k = length sss)"
proof -
  let ?E = "disk_env data idx env"
  note inv = server_reach [OF assms(2,3)]
  obtain w where w: "tp_workers (sv_pool sv) = [w]" "tp_started (sv_pool sv) = map fst (sv_sent sv) @ running_task w"
    and h: "handle_all ?E (map fst (sv_sent sv)) (exec_new dir) = Inr (map snd (sv_sent sv), sv_executor sv)"
    using inv by (auto simp: serial_inv_def)
  have f: "handle_all ?E (tp_started (sv_pool sv)) (exec_new dir) = Inl e" if "sv_fault sv = Some e" for e
    using inv that by (simp add: serial_inv_def)
  have sub: "tp_submitted (sv_pool sv) = tp_started (sv_pool sv) @ tp_queue (sv_pool sv)"
    and act: "tp_active (sv_pool sv) = length (filter busy [w])"
    using inv w(1) by (simp_all add: pool_inv_def)
  have ok: "\<exists>outss ex' db'. handle_all ?E (take j (tp_submitted (sv_pool sv))) (exec_new dir) = Inr (map replies outss, ex') \<and>
      map length outss = map length (take j sss) \<and> spec_run Map.empty (concat (take j sss)) (concat outss) db' \<and> db_rel ex' db'" for j
  proof -
    have "concat sss = concat (take j sss) @ concat (drop j sss)" by (simp flip: concat_append)
    then have "admissible Map.empty (concat (take j sss))" using assms(5) by (metis admissible_append)
    then show ?thesis by (rule handle_all_brings [OF assms(1) list_all2_takeI [OF assms(4)] db_rel_new])
  qed
  have "sv_fault sv = None"
    using f ok [of "length (tp_started (sv_pool sv))"] sub by (cases "sv_fault sv") auto
  moreover let ?k = "length (sv_sent sv)"
  have tk: "take ?k (tp_submitted (sv_pool sv)) = map fst (sv_sent sv)" using sub w(2) by simp
  then obtain outss db' where o: "map snd (sv_sent sv) = map replies outss"
      "map length outss = map length (take ?k sss)" "spec_run Map.empty (concat (take ?k sss)) (concat outss) db'"
    using ok [of ?k] h by auto
  moreover have "sv_sent sv = zip (map fst (sv_sent sv)) (map snd (sv_sent sv))" by (rule zip_map_fst_snd [symmetric])
  moreover have "length sss = length (tp_submitted (sv_pool sv))" using assms(4) by (simp add: list_all2_lengthD)
  moreover have "?k = length (tp_submitted (sv_pool sv))" if "wait_all_done (sv_pool sv)"
    using that act sub w by (cases w) (auto simp: wait_all_done_def)
  ultimately show ?thesis using sub w(2) tk by (intro exI [of _ ?k] exI [of _ outss] exI [of _ db']) auto
qed

text \<open>An idle worker can serve the whole queue.\<close>

lemma serve_queue:
  assumes "sv_fault sv = None" and "tp_workers (sv_pool sv) = [Waiting]" and "tp_queue (sv_pool sv) = q"
    and "handle_all env q (sv_executor sv) = Inr (outs, ex)"
  shows "\<exists>sv'. (server_step env)\<^sup>*\<^sup>* sv sv' \<and> tp_submitted (sv_pool sv') = tp_submitted (sv_pool sv) \<and>
    tp_queue (sv_pool sv') = [] \<and> tp_active (sv_pool sv') = tp_active (sv_pool sv)"
  using assms
proof (induction q arbitrary: sv outs)
  case (Cons c q)
  let ?p = "sv_pool sv"
  let ?p1 = "?p\<lparr>tp_queue := q, tp_active := tp_active ?p + 1, tp_started := tp_started ?p @ [c], tp_workers := [Running c]\<rparr>"
  have "worker_wake 0 ?p = ?p1" using Cons.prems(2,3) by (simp add: worker_wake_def set_worker_def)
  then have s1: "server_step env sv (sv\<lparr>sv_pool := ?p1\<rparr>)"
    using Cons.prems(1,2) sync_step.wake [of 0 ?p] by (intro server_step.sync) simp_all
  obtain out ex1 outs' where t: "server_task env c (sv_executor sv) = Inr (out, ex1)" "handle_all env q ex1 = Inr (outs', ex)"
    using Cons.prems(4) by (auto simp: rbind_def split: sum.splits prod.splits)
  let ?sv2 = "server_call env 0 c (sv\<lparr>sv_pool := ?p1\<rparr>)"
  have s2: "server_step env (sv\<lparr>sv_pool := ?p1\<rparr>) ?sv2" using Cons.prems(1) by (intro server_step.call) simp_all
  let ?sv3 = "?sv2\<lparr>sv_pool := worker_release 0 (sv_pool ?sv2)\<rparr>"
  let ?sv4 = "?sv3\<lparr>sv_pool := worker_report 0 (sv_pool ?sv3)\<rparr>"
  have s3: "server_step env ?sv2 ?sv3"
    using Cons.prems(1) t(1)
    by (intro server_step.sync sync_step.release [of 0 _ c]) (simp_all add: server_call_def worker_call_def set_worker_def)
  have s4: "server_step env ?sv3 ?sv4"
    using Cons.prems(1) t(1)
    by (intro server_step.sync sync_step.report) (simp_all add: server_call_def worker_call_def worker_release_def set_worker_def)
  have "sv_fault ?sv4 = None" "tp_workers (sv_pool ?sv4) = [Waiting]" "tp_queue (sv_pool ?sv4) = q" "sv_executor ?sv4 = ex1"
    "tp_submitted (sv_pool ?sv4) = tp_submitted ?p" "tp_active (sv_pool ?sv4) = tp_active ?p"
    using Cons.prems(1) t(1) by (simp_all add: server_call_def worker_call_def worker_release_def worker_report_def set_worker_def)
  then obtain sv' where "(server_step env)\<^sup>*\<^sup>* ?sv4 sv'" "tp_submitted (sv_pool sv') = tp_submitted ?p" "tp_queue (sv_pool sv') = []"
    "tp_active (sv_pool sv') = tp_active ?p" using Cons.IH [of ?sv4 outs'] t(2) by auto
  then show ?case using s1 s2 s3 s4 by (meson converse_rtranclp_into_rtranclp)
qed blast

definition demo_conns :: "conn list" where
  "demo_conns = [(4, map (\<lambda>c. [c]) (request_text (map stmt_text [demo_create, demo_insert]))), (5, map (\<lambda>c. [c]) (request_text (map stmt_text [demo_select])))]"

lemma chars_bring:
  assumes "\<forall>x \<in> set (request_text (map stmt_text ss)). char_nat x \<noteq> 0" and "ss \<noteq> []" and "list_all printable ss"
  shows "brings (fd, map (\<lambda>c. [c]) (request_text (map stmt_text ss))) ss"
proof -
  have "request_text (map stmt_text ss) \<noteq> []" using assms(2) by (cases ss) (simp_all add: request_text_def)
  then show ?thesis using no_nul_chunks assms(1,3) by (simp add: brings_def concat_map_singleton)
qed

lemma demo_brings: "list_all2 brings demo_conns [[demo_create, demo_insert], [demo_select]]"
proof -
  have "\<forall>x \<in> set (request_text (map stmt_text [demo_create, demo_insert])). char_nat x \<noteq> 0"
    "\<forall>x \<in> set (request_text (map stmt_text [demo_select])). char_nat x \<noteq> 0"
    using demo_no_nul by (auto simp: request_text_def)
  then show ?thesis
    using demo_printable unfolding demo_conns_def by (intro list_all2_Cons [THEN iffD2] conjI list_all2_Nil [THEN iffD2] chars_bring) simp_all
qed

lemma demo_outputs:
  "spec_run Map.empty [demo_create, demo_insert, demo_select] outs db' \<longleftrightarrow>
     outs = [out_ok, out_ok, out_ok\<lparr>eo_rows := [[''Bob'']]\<rparr>] \<and> db' = [''T'' \<mapsto> (demo_schema, demo_rows)]"
  by (auto simp: demo_create_step demo_insert_step demo_select_step split: list.splits)

theorem server_refines_witness:
  "\<exists>sv0 sv. server_new True True ''data'' 1 8 = Some sv0 \<and> (server_step demo_env)\<^sup>*\<^sup>* sv0 sv \<and>
     sv_sent sv = zip demo_conns [''END\<newline>END\<newline>'', ''ROW Bob\<newline>END\<newline>'']"
proof -
  let ?env = "\<lparr>env_files = \<lambda>_. Inl Segv, env_idx_files = \<lambda>_. Inl Segv, env_stof = \<lambda>_. Inr 0, env_sort = sort_all\<rparr>"
  let ?sss = "[[demo_create, demo_insert], [demo_select]]"
  have srt: "sort_spec (env_sort ?env)" by (simp add: sort_all_spec)
  have adm: "admissible Map.empty (concat ?sss)" using demo_admissible by simp
  obtain sv0 where sv0: "server_new True True ''data'' 1 8 = Some sv0" by (simp add: server_new_def)
  let ?sv1 = "server_run True sv0"
  let ?sv2 = "server_accept (Some (demo_conns ! 0)) ?sv1"
  let ?sv3 = "server_accept (Some (demo_conns ! 1)) ?sv2"
  have st: "sv_fault sv0 = None" "sv_listen sv0" "\<not> sv_running sv0" "sv_executor sv0 = exec_new ''data''" "sv_pool sv0 = pool_new 1 8"
    using sv0 by (auto simp: server_new_def)
  have "server_step demo_env sv0 ?sv1" using st by (intro server_step.run)
  moreover have "server_step demo_env ?sv1 ?sv2" using st by (intro server_step.accept) (simp_all add: server_run_def)
  moreover have "server_step demo_env ?sv2 ?sv3" using st by (intro server_step.accept) (simp_all add: server_run_def server_accept_def)
  ultimately have r3: "(server_step demo_env)\<^sup>*\<^sup>* sv0 ?sv3" by (meson converse_rtranclp_into_rtranclp rtranclp.rtrancl_refl)
  have p3: "sv_pool ?sv3 = (pool_new 1 8)\<lparr>tp_queue := demo_conns, tp_signals := 2, tp_submitted := demo_conns\<rparr>" "sv_fault ?sv3 = None" "sv_executor ?sv3 = exec_new ''data''"
    using st by (simp_all add: server_run_def server_accept_def submit_def pool_new_def demo_conns_def)
  obtain outs ex where h: "handle_all demo_env demo_conns (exec_new ''data'') = Inr (outs, ex)"
    using handle_all_brings [OF srt demo_brings db_rel_new adm] unfolding demo_env_def by blast
  obtain sv where "(server_step demo_env)\<^sup>*\<^sup>* ?sv3 sv" and sv: "tp_submitted (sv_pool sv) = demo_conns" "wait_all_done (sv_pool sv)"
    using serve_queue [of ?sv3 demo_conns demo_env outs ex] h p3 by (auto simp: pool_new_def wait_all_done_def)
  then have r: "(server_step demo_env)\<^sup>*\<^sup>* sv0 sv" using r3 by auto
  have b: "list_all2 brings (tp_submitted (sv_pool sv)) ?sss" using demo_brings sv(1) by simp
  obtain k outss db' where k: "sv_sent sv = zip (take k demo_conns) (map replies outss)" "map length outss = map length (take k ?sss)"
    "spec_run Map.empty (concat (take k ?sss)) (concat outss) db'" "k = length ?sss"
    using server_refines [OF srt sv0 r [unfolded demo_env_def] b adm] sv by metis
  have "concat outss = [out_ok, out_ok, out_ok\<lparr>eo_rows := [[''Bob'']]\<rparr>]" "map length outss = [2, 1]"
    using k(2-4) demo_outputs by simp_all
  then have "outss = [[out_ok, out_ok], [out_ok\<lparr>eo_rows := [[''Bob'']]\<rparr>]]"
    by (auto simp: map_eq_Cons_conv length_Suc_conv numeral_2_eq_2)
  then have "map replies outss = [''END\<newline>END\<newline>'', ''ROW Bob\<newline>END\<newline>'']"
    by (simp add: replies_def reply_def out_ok_def server_exec_callback_def c_str_def char_nat_def)
  then show ?thesis using k(1,4) sv0 r by (auto simp: demo_conns_def)
qed

end
