(* ===== verification/Programs.thy ===== *)
theory Programs
  imports ServerRun
begin

text \<open>
  The two programs: the interactive client (\<open>src/src/client/main_client.cpp\<close>) over the whole of the
  client library (\<open>src/src/client/flexql.cpp\<close>), and the start of the server
  (\<open>src/src/server/main_server.cpp\<close>).

  The terminal is a list of texts on the standard output and the standard error. What \<open>socket\<close>,
  \<open>connect\<close> and \<open>send\<close> return are arguments, and so are the chunks that \<open>recv\<close> will return on
  the connection, in order.
\<close>

section \<open>The client library\<close>

text \<open>The handle: the descriptor is implicit, what remains is the accumulator; \<open>None\<close> is the null pointer.\<close>

type_synonym flexql = "string option"

text \<open>\<open>*db\<close> is written only on success. The result of \<open>inet_pton\<close> is not looked at.\<close>

definition flexql_open :: "bool \<Rightarrow> bool \<Rightarrow> flexql \<Rightarrow> int \<times> flexql" where
  "flexql_open socket_ok connect_ok db =
     (if \<not> socket_ok then (FLEXQL_ERROR, db) else if \<not> connect_ok then (FLEXQL_ERROR, db) else (FLEXQL_OK, Some []))"

text \<open>\<open>flexql_exec\<close> with the two early returns: no handle, \<open>send\<close> fails.\<close>

definition flexql_call :: "flexql \<Rightarrow> bool \<Rightarrow> string \<Rightarrow> string list \<Rightarrow> int \<times> client_seen \<times> flexql \<times> string list" where
  "flexql_call db send_ok sql chunks = (case db of None \<Rightarrow> (FLEXQL_ERROR, no_lines, None, chunks)
     | Some acc \<Rightarrow> if client_request sql \<noteq> None \<and> \<not> send_ok then (FLEXQL_ERROR, no_lines, db, chunks)
         else (case flexql_exec sql chunks acc of (code, seen, acc', left) \<Rightarrow> (code, seen, Some acc', left)))"

definition flexql_close :: "flexql \<Rightarrow> int \<times> flexql" where
  "flexql_close db = (FLEXQL_OK, None)"

section \<open>The interactive client\<close>

datatype screen = Stdout string | Stderr string

definition print_row :: "string list \<Rightarrow> screen" where
  "print_row argv = Stdout (sep_by '' | '' argv @ [nl])"

text \<open>\<open>atoi\<close>: 0 without digits, undefined outside the range of \<open>int\<close>.\<close>

definition atoi :: "string \<Rightarrow> int res" where
  "atoi s = (case stoll s of Inl InvalidArgument \<Rightarrow> Inr 0 | Inl e \<Rightarrow> Inl Indeterminate
     | Inr v \<Rightarrow> if v < - (2 ^ 31) \<or> 2 ^ 31 \<le> v then Inl Indeterminate else Inr v)"

text \<open>The arguments behind the program name; an option at the very end has no value and is ignored.\<close>

fun client_args :: "string list \<Rightarrow> string \<times> int \<Rightarrow> (string \<times> int) res" where
  "client_args (arg # val # argv) (host, port) =
     (if arg = ''--host'' then client_args argv (val, port)
      else if arg = ''--port'' then rbind (atoi val) (\<lambda>p. client_args argv (host, p))
      else client_args (val # argv) (host, port))"
| "client_args _ opts = Inr opts"

definition prompt :: screen where
  "prompt = Stdout ''FlexQL> ''"

text \<open>The loop: each line that \<open>getline\<close> returns, with the result of \<open>send\<close> should it be called.\<close>

fun repl :: "(string \<times> bool) list \<Rightarrow> flexql \<Rightarrow> string list \<Rightarrow> screen list \<times> flexql \<times> string list" where
  "repl [] db chunks = ([prompt], db, chunks)"
| "repl ((line, send_ok) # lines) db chunks =
     (if line = [] then (case repl lines db chunks of (out, rest) \<Rightarrow> (prompt # out, rest))
      else if line = ''exit'' \<or> line = ''quit'' then ([prompt], db, chunks)
      else case flexql_call db send_ok line chunks of (code, seen, db1, chunks1) \<Rightarrow>
        (case repl lines db1 chunks1 of (out, rest) \<Rightarrow>
          (prompt # map print_row (cl_rows seen) @
           (if code \<noteq> 0 then [Stderr (''Error: '' @ (case cl_errmsg seen of None \<Rightarrow> ''unknown'' | Some m \<Rightarrow> m) @ [nl])] else []) @ out,
           rest)))"

definition address :: "string \<times> int \<Rightarrow> string" where
  "address hp = fst hp @ '':'' @ to_string (snd hp)"

definition client_main :: "string list \<Rightarrow> bool \<Rightarrow> bool \<Rightarrow> (string \<times> bool) list \<Rightarrow> string list \<Rightarrow> (screen list \<times> int) res" where
  "client_main argv socket_ok connect_ok lines chunks =
     rbind (client_args argv (''127.0.0.1'', 5433)) (\<lambda>hp.
       case flexql_open socket_ok connect_ok None of (rc, db) \<Rightarrow>
         if rc \<noteq> 0
         then Inr ([Stderr (''Cannot connect to '' @ address hp @ '' (code='' @ to_string rc @ '')'' @ [nl])], 1)
         else Inr (Stdout (''FlexQL connected to '' @ address hp @ [nl]) # fst (repl lines db chunks), 0))"

section \<open>The server program\<close>

record server_opts =
  so_host :: string
  so_port :: int
  so_data_dir :: string
  so_threads :: nat

definition default_opts :: server_opts where
  "default_opts = \<lparr>so_host = ''127.0.0.1'', so_port = 9000, so_data_dir = ''./data'', so_threads = 0\<rparr>"

text \<open>\<open>std::stoul\<close>: a minus sign negates modulo \<open>2 ^ 64\<close>.\<close>

definition stoul :: "string \<Rightarrow> nat res" where
  "stoul s =
     (let t = dropWhile is_space s; neg = (t \<noteq> [] \<and> hd t = CHR ''-'');
          u = (if t \<noteq> [] \<and> (hd t = CHR ''-'' \<or> hd t = CHR ''+'') then tl t else t);
          ds = takeWhile is_digit u; v = digits_value ds in
      if ds = [] then Inl InvalidArgument
      else if 2 ^ 64 \<le> v then Inl OutOfRange
      else Inr (if neg then (2 ^ 64 - v) mod 2 ^ 64 else v))"

text \<open>The exceptions of \<open>stoul\<close> are thrown before the \<open>try\<close> block and end the process.\<close>

fun server_args :: "string list \<Rightarrow> server_opts \<Rightarrow> server_opts res" where
  "server_args (arg # val # argv) opts =
     (if arg = ''--host'' then server_args argv (opts\<lparr>so_host := val\<rparr>)
      else if arg = ''--port'' then rbind (atoi val) (\<lambda>p. server_args argv (opts\<lparr>so_port := p\<rparr>))
      else if arg = ''--data-dir'' then server_args argv (opts\<lparr>so_data_dir := val\<rparr>)
      else if arg = ''--threads'' then rbind (stoul val) (\<lambda>n. server_args argv (opts\<lparr>so_threads := n\<rparr>))
      else server_args (val # argv) opts)"
| "server_args _ opts = Inr opts"

text \<open>\<open>main\<close> up to the loop of \<open>run\<close>, with the text it prints; \<open>None\<close>: the constructor of \<open>Server\<close> has called \<open>exit(1)\<close>.\<close>

definition server_main :: "string list \<Rightarrow> bool \<Rightarrow> bool \<Rightarrow> nat \<Rightarrow> (screen list \<times> server option) res" where
  "server_main argv socket_ok bind_ok hardware_concurrency =
     rbind (server_args argv default_opts) (\<lambda>o1.
       Inr ([Stdout (''[FlexQL Server] Listening on '' @ address (so_host o1, so_port o1) @ ''  data='' @ so_data_dir o1 @ [nl])],
            server_new socket_ok bind_ok (so_data_dir o1) (so_threads o1) hardware_concurrency))"

section \<open>Client and server together\<close>

text \<open>What the terminal shows for one statement.\<close>

definition screen_of :: "exec_out \<Rightarrow> screen list" where
  "screen_of out = prompt # map print_row (eo_rows out) @
     (if eo_err out \<noteq> [] then [Stderr (''Error: '' @ eo_err out @ [nl])] else [])"

text \<open>Outputs that the line protocol carries without loss.\<close>

definition carried :: "exec_out \<Rightarrow> bool" where
  "carried out \<longleftrightarrow> list_all wire_ok (eo_rows out) \<and> err_ok (eo_err out)"

definition sql_line :: "string \<Rightarrow> bool" where
  "sql_line line \<longleftrightarrow> line \<noteq> ''exit'' \<and> line \<noteq> ''quit'' \<and> client_request line \<noteq> None"

lemma chunks_ok_append: "chunks_ok (xs @ ys) \<longleftrightarrow> chunks_ok xs \<and> chunks_ok ys"
  by (simp add: chunks_ok_def)

lemma repl_replies:
  assumes "list_all carried outs" and "list_all sql_line lines" and "length lines = length outs"
    and "chunks_ok chunks" and "acc @ concat chunks = replies outs @ tail"
  shows "\<exists>acc' left. repl (map (\<lambda>l. (l, True)) lines) (Some acc) chunks =
    (concat (map screen_of outs) @ [prompt], Some acc', left) \<and> acc' @ concat left = tail \<and> chunks_ok left"
  using assms
proof (induction outs arbitrary: lines chunks acc)
  case Nil
  then show ?case by (simp add: replies_def)
next
  case (Cons out outs)
  obtain l ls where l: "lines = l # ls" "sql_line l" "list_all sql_line ls" "length ls = length outs"
    using Cons.prems(2,3) by (cases lines) auto
  have out: "list_all wire_ok (eo_rows out)" "err_ok (eo_err out)" using Cons.prems(1) by (simp_all add: carried_def)
  have "acc @ concat chunks = reply out @ (replies outs @ tail)" using Cons.prems(5) by (simp add: replies_def)
  then obtain acc1 used left where f: "flexql_exec l chunks acc = (if eo_err out = [] then FLEXQL_OK else FLEXQL_ERROR, seen_of out, acc1, left)"
      "acc1 @ concat left = replies outs @ tail" "chunks = used @ left"
    using flexql_exec_reply [OF out Cons.prems(4)] l(2) unfolding sql_line_def by blast
  obtain acc' left' where r: "repl (map (\<lambda>l. (l, True)) ls) (Some acc1) left = (concat (map screen_of outs) @ [prompt], Some acc', left')"
      "acc' @ concat left' = tail" "chunks_ok left'"
    using Cons.IH [OF _ l(3,4) _ f(2)] Cons.prems(1,4) f(3) by (auto simp: chunks_ok_append)
  have "l \<noteq> []" using l(2) by (auto simp: sql_line_def client_request_def c_str_def Let_def)
  then show ?case
    using l f(1) r by (simp add: flexql_call_def sql_line_def screen_of_def [of out] seen_of_def FLEXQL_OK_def FLEXQL_ERROR_def)
qed

lemma sep_by_Cons: "sep_by sep (x # xs) = x @ (if xs = [] then [] else sep @ sep_by sep xs)"
  by (cases xs) simp_all

lemma stmt_text_line:
  assumes "printable s" and "\<forall>c \<in> set (stmt_text s). char_nat c \<noteq> 0"
  shows "sql_line (stmt_text s)" "client_request (stmt_text s) = Some (stmt_text s @ '';'')"
proof -
  have c: "c_str (stmt_text s) = stmt_text s" using assms(2) by (rule c_str_id)
  obtain d r where d: "stmt_text s = d # r" "d \<in> {CHR ''C'', CHR ''I'', CHR ''S'', CHR ''D''}"
    using printable_type [OF assms(1)]
    by (cases "st_type s") (auto simp: stmt_text_def create_text_def insert_text_def select_text_def delete_text_def sep_by_Cons)
  have "last (stmt_text s) \<noteq> CHR '';''" using stmt_text_no_semicolon [OF assms(1)] d(1) by (metis last_in_set list.distinct(1))
  then show "client_request (stmt_text s) = Some (stmt_text s @ '';'')" using c d(1) by (simp add: client_request_def Let_def)
  then show "sql_line (stmt_text s)" using d by (auto simp: sql_line_def)
qed

text \<open>
  C1. A user at the client, a server, the network between them: the user types statements that the
  specification covers, the server gets what \<open>flexql_exec\<close> sends and the client gets what the server
  sends, both cut into chunks in any way. Then the server handles the connection without a fault and the
  terminal shows, for each statement, the prompt and the rows of an abstract database that has executed
  the statements so far, with \<open>|\<close> between the values, or its error. The texts must be of the kind
  that the line protocol carries.
\<close>

theorem client_server_refines:
  assumes "sort_spec (env_sort env)" and "admissible Map.empty ss" and "list_all printable ss"
    and nul: "\<forall>s \<in> set ss. \<forall>c \<in> set (stmt_text s). char_nat c \<noteq> 0"
    and wire: "\<forall>outs db'. spec_run Map.empty ss outs db' \<longrightarrow> list_all carried outs"
    and up: "chunks_ok up" "concat up = concat (map (\<lambda>s. the (client_request (stmt_text s))) ss)"
    and args: "client_args argv (''127.0.0.1'', 5433) = Inr hp"
  shows "\<exists>ex outs db'. server_task (disk_env data idx env) (fd, up) (exec_new dir) = Inr (replies outs, ex) \<and>
    spec_run Map.empty ss outs db' \<and>
    (\<forall>down. chunks_ok down \<and> concat down = replies outs \<longrightarrow>
       client_main argv True True (map (\<lambda>s. (stmt_text s, True)) ss) down =
         Inr (Stdout (''FlexQL connected to '' @ address hp @ [nl]) # concat (map screen_of outs) @ [prompt], 0))"
proof -
  have line: "sql_line (stmt_text s)" "client_request (stmt_text s) = Some (stmt_text s @ '';'')" if "s \<in> set ss" for s
    using stmt_text_line [of s] that assms(3) nul by (simp_all add: list_all_iff)
  have "concat up = request_text (map stmt_text ss)"
    using up(2) line(2) by (simp add: request_text_def comp_def cong: map_cong)
  then have b: "brings (fd, up) ss" using up(1) assms(3) by (simp add: brings_def)
  obtain outs ex db' where e: "exec_all (disk_env data idx env) ss (exec_new dir) = Inr (outs, ex)" "spec_run Map.empty ss outs db'"
    using exec_all_simulates [OF assms(1) db_rel_new assms(2)] by blast
  have t: "server_task (disk_env data idx env) (fd, up) (exec_new dir) = Inr (replies outs, ex)"
    using server_task_brings [OF b] e(1) by simp
  have "client_main argv True True (map (\<lambda>s. (stmt_text s, True)) ss) down =
      Inr (Stdout (''FlexQL connected to '' @ address hp @ [nl]) # concat (map screen_of outs) @ [prompt], 0)"
    if down: "chunks_ok down" "concat down = replies outs" for down
  proof -
    have "list_all carried outs" using wire e(2) by blast
    moreover have "list_all sql_line (map stmt_text ss)" using line(1) by (simp add: list_all_iff)
    moreover have "length (map stmt_text ss) = length outs" using spec_run_length [OF e(2)] by simp
    ultimately obtain rest where "repl (map (\<lambda>l. (l, True)) (map stmt_text ss)) (Some []) down = (concat (map screen_of outs) @ [prompt], rest)"
      using repl_replies [of outs "map stmt_text ss" down "[]" "[]"] down by auto
    then show ?thesis using args by (simp add: client_main_def flexql_open_def FLEXQL_OK_def comp_def)
  qed
  then show ?thesis using t e(2) by blast
qed

theorem client_server_refines_witness:
  "\<exists>sent ex. server_task demo_env (4, map (\<lambda>c. [c]) (request_text (map stmt_text [demo_create, demo_insert, demo_select]))) (exec_new ''data'') = Inr (sent, ex) \<and>
     client_main [''--port'', ''9000''] True True (map (\<lambda>s. (stmt_text s, True)) [demo_create, demo_insert, demo_select]) [sent] =
       Inr ([Stdout ''FlexQL connected to 127.0.0.1:9000\<newline>'', prompt, prompt, prompt, Stdout ''Bob\<newline>'', prompt], 0)"
proof -
  let ?ss = "[demo_create, demo_insert, demo_select]"
  let ?env = "\<lparr>env_files = \<lambda>_. Inl Segv, env_idx_files = \<lambda>_. Inl Segv, env_stof = \<lambda>_. Inr 0, env_sort = sort_all\<rparr>"
  let ?up = "map (\<lambda>c. [c]) (request_text (map stmt_text ?ss))"
  have nul: "\<forall>s \<in> set ?ss. \<forall>c \<in> set (stmt_text s). char_nat c \<noteq> 0" using demo_no_nul by (auto simp: request_text_def)
  have req: "client_request (stmt_text s) = Some (stmt_text s @ '';'')" if "s \<in> set ?ss" for s
    using stmt_text_line(2) [of s] that demo_printable nul by (auto simp: list_all_iff)
  have up: "chunks_ok ?up" using demo_no_nul by (intro no_nul_chunks) (simp_all add: request_text_def)
  have "concat ?up = concat (map (\<lambda>s. the (client_request (stmt_text s))) ?ss)"
    using req by (simp add: concat_map_singleton request_text_def)
  note up = up this
  have wire: "\<forall>outs db'. spec_run Map.empty ?ss outs db' \<longrightarrow> list_all carried outs"
    unfolding demo_outputs by (simp add: carried_def out_ok_def wire_ok_def err_ok_def is_space_def char_nat_def)
  have args: "client_args [''--port'', ''9000''] (''127.0.0.1'', 5433) = Inr (''127.0.0.1'', 9000)" by code_simp
  have srt: "sort_spec (env_sort ?env)" by (simp add: sort_all_spec)
  obtain ex outs db' where r: "server_task demo_env (4, ?up) (exec_new ''data'') = Inr (replies outs, ex)" "spec_run Map.empty ?ss outs db'"
    "\<forall>down. chunks_ok down \<and> concat down = replies outs \<longrightarrow> client_main [''--port'', ''9000''] True True (map (\<lambda>s. (stmt_text s, True)) ?ss) down =
         Inr (Stdout (''FlexQL connected to '' @ address (''127.0.0.1'', 9000) @ [nl]) # concat (map screen_of outs) @ [prompt], 0)"
    using client_server_refines [OF srt demo_admissible demo_printable nul wire up args, where fd = 4 and dir = "''data''"]
    unfolding demo_env_def by blast
  have o: "outs = [out_ok, out_ok, out_ok\<lparr>eo_rows := [[''Bob'']]\<rparr>]" using r(2) unfolding demo_outputs by blast
  have rep: "replies outs = ''END\<newline>END\<newline>ROW Bob\<newline>END\<newline>''"
    unfolding o by (simp add: replies_def reply_def out_ok_def server_exec_callback_def c_str_def char_nat_def)
  have "chunks_ok [replies outs]" unfolding rep by (simp add: chunks_ok_def char_nat_def)
  then have "client_main [''--port'', ''9000''] True True (map (\<lambda>s. (stmt_text s, True)) ?ss) [replies outs] =
      Inr (Stdout (''FlexQL connected to '' @ address (''127.0.0.1'', 9000) @ [nl]) # concat (map screen_of outs) @ [prompt], 0)"
    using r(3) by simp
  moreover have "address (''127.0.0.1'', 9000) = ''127.0.0.1:9000''"
    by (simp add: address_def to_string_def nat_digits.simps [of 9000] nat_digits.simps [of 900] nat_digits.simps [of 90] nat_digits.simps [of 9]
      nat_digits.simps [of 0] digit_char_def) (simp add: char_of_def bit_Suc_0_iff)
  moreover have "concat (map screen_of outs) = [prompt, prompt, prompt, Stdout ''Bob\<newline>'']"
    unfolding o by (simp add: screen_of_def out_ok_def print_row_def)
  ultimately show ?thesis using r(1) by (intro exI [of _ "replies outs"] exI [of _ ex]) simp
qed

end
