(* ===== verification/ConcurrentInsert.thy ===== *)
theory ConcurrentInsert
  imports TableProofs
begin

text \<open>
  Concurrent insertions into one table. The thread pool runs one handler for each connection and
  \<open>Table::insert_row\<close> (\<open>src/src/storage/table.cpp\<close>) takes no lock, nor do the column stores or the
  index, so the insertions of two clients interleave. Here \<open>insert_row\<close> is cut into steps: reading the
  row count, storing one value in its column, and inserting the key into the index. A schedule says
  which thread takes the next step. Races inside such a step are not modelled: the schedules are
  the mildest that the code allows.
\<close>

section \<open>The steps of an insertion\<close>

datatype insert_pc = At_start dbrow | At_column dbrow u64 nat | At_index dbrow u64 | At_end

text \<open>The part of \<open>insert_row\<close> behind its loop.\<close>

definition index_step :: "dbrow \<Rightarrow> u64 \<Rightarrow> table \<Rightarrow> table res" where
  "index_step row rid t =
     rbind (first_is_id (tb_schema t)) (\<lambda>pk.
       if \<not> pk then Inr t
       else case im_get_index (tb_index t) ''PK'' of None \<Rightarrow> Inl NullDeref
       | Some idx \<Rightarrow> if row = [] then Inl OutOfBounds
           else rbind (read_i64 (v_num (hd row))) (\<lambda>key.
             rbind (bpt_insert idx key rid) (\<lambda>idx'. Inr (t\<lparr>tb_index := (tb_index t)(''PK'' \<mapsto> idx')\<rparr>))))"

definition column_step :: "dbrow \<Rightarrow> nat \<Rightarrow> table \<Rightarrow> table res" where
  "column_step row i t = rbind (value_bytes (row ! i)) (\<lambda>(buf, sz).
     rbind (insert_fixed (tb_columns t ! i) buf sz) (\<lambda>c. Inr (t\<lparr>tb_columns := (tb_columns t)[i := c]\<rparr>)))"

fun insert_step :: "insert_pc \<Rightarrow> table \<Rightarrow> (insert_pc \<times> table) res" where
  "insert_step (At_start row) t =
     (if tb_columns t = [] then Inl OutOfBounds else Inr (At_column row (cs_total_rows (hd (tb_columns t))) 0, t))"
| "insert_step (At_column row rid i) t =
     (if i < length (tb_columns t) \<and> i < length row
      then rbind (column_step row i t) (\<lambda>t'. Inr (At_column row rid (Suc i), t'))
      else Inr (At_index row rid, t))"
| "insert_step (At_index row rid) t = rbind (index_step row rid t) (\<lambda>t'. Inr (At_end, t'))"
| "insert_step At_end t = Inr (At_end, t)"

text \<open>Threads and a schedule: the numbers of the threads in the order in which they take steps.\<close>

fun run_threads :: "nat list \<Rightarrow> insert_pc list \<Rightarrow> table \<Rightarrow> (insert_pc list \<times> table) res" where
  "run_threads [] pcs t = Inr (pcs, t)"
| "run_threads (k # ks) pcs t =
     (if k < length pcs then rbind (insert_step (pcs ! k) t) (\<lambda>(pc, t'). run_threads ks (pcs[k := pc]) t')
      else run_threads ks pcs t)"

lemma run_threads_append:
  "run_threads (ks @ ls) pcs t = rbind (run_threads ks pcs t) (\<lambda>(pcs', t'). run_threads ls pcs' t')"
  by (induction ks pcs t rule: run_threads.induct) (auto simp: rbind_def split: sum.splits)

section \<open>A thread that is not interrupted\<close>

lemma run_columns:
  assumes "k < length pcs" and "pcs ! k = At_column row rid i" and "tb_columns t = pre @ cs" and "length pre = i"
  shows "run_threads (replicate (min (length cs) (length row - i)) k) pcs t =
    rbind (insert_values cs (drop i row)) (\<lambda>cs'.
      Inr (pcs[k := At_column row rid (i + min (length cs) (length row - i))], t\<lparr>tb_columns := pre @ cs'\<rparr>))"
  using assms
proof (induction cs arbitrary: pcs i pre t)
  case Nil
  then show ?case using list_update_id [of pcs k] by simp
next
  case (Cons c cs)
  show ?case
  proof (cases "i < length row")
    case False
    then show ?thesis using Cons.prems list_update_id [of pcs k] by simp
  next
    case True
    then have d: "drop i row = row ! i # drop (Suc i) row" by (simp add: Cons_nth_drop_Suc)
    have n: "min (length (c # cs)) (length row - i) = Suc (min (length cs) (length row - Suc i))" using True by simp
    let ?pc = "At_column row rid (Suc i)"
    have step: "insert_step (pcs ! k) t = rbind (value_bytes (row ! i)) (\<lambda>(buf, sz). rbind (insert_fixed c buf sz)
        (\<lambda>c'. Inr (?pc, t\<lparr>tb_columns := (pre @ [c']) @ cs\<rparr>)))"
      using True Cons.prems by (auto simp: column_step_def nth_append rbind_def list_update_append split: sum.splits)
    have IH: "run_threads (replicate (min (length cs) (length row - Suc i)) k) (pcs[k := ?pc]) (t\<lparr>tb_columns := (pre @ [c']) @ cs\<rparr>) =
        rbind (insert_values cs (drop (Suc i) row)) (\<lambda>cs'.
          Inr ((pcs[k := ?pc])[k := At_column row rid (Suc i + min (length cs) (length row - Suc i))],
            (t\<lparr>tb_columns := (pre @ [c']) @ cs\<rparr>)\<lparr>tb_columns := (pre @ [c']) @ cs'\<rparr>))" for c'
      by (rule Cons.IH) (use Cons.prems in simp_all)
    show ?thesis
      unfolding n d using Cons.prems(1) step IH by (auto simp: rbind_def split: sum.splits)
  qed
qed

lemma insert_row_parts:
  "insert_row t row = (if tb_columns t = [] then Inl OutOfBounds
     else rbind (insert_values (tb_columns t) row) (\<lambda>cols. index_step row (cs_total_rows (hd (tb_columns t))) (t\<lparr>tb_columns := cols\<rparr>)))"
  by (auto simp: insert_row_def index_step_def Let_def rbind_def split: sum.splits option.splits)

text \<open>From the middle of the columns to the end.\<close>

lemma insert_values_length: "insert_values cs vs = Inr cs' \<Longrightarrow> length cs' = length cs"
  by (induction cs vs arbitrary: cs' rule: insert_values.induct) (auto simp: rbind_def split: sum.splits)

lemma run_rest:
  assumes "k < length pcs" and "pcs ! k = At_column row rid i" and "tb_columns t = pre @ cs" and "length pre = i"
  shows "run_threads (replicate (min (length cs) (length row - i)) k @ [k, k]) pcs t =
    rbind (insert_values cs (drop i row)) (\<lambda>cs'. rbind (index_step row rid (t\<lparr>tb_columns := pre @ cs'\<rparr>)) (\<lambda>t'. Inr (pcs[k := At_end], t')))"
proof (cases "insert_values cs (drop i row)")
  case (Inl e)
  then show ?thesis using run_columns [OF assms] by (simp add: run_threads_append)
next
  case (Inr cs')
  let ?m = "min (length cs) (length row - i)"
  let ?pcs = "pcs[k := At_column row rid (i + ?m)]" and ?t = "t\<lparr>tb_columns := pre @ cs'\<rparr>"
  have "length cs' = length cs" using insert_values_length [OF Inr] .
  then have "insert_step (?pcs ! k) ?t = Inr (At_index row rid, ?t)" using assms(1,4) by auto
  then have "run_threads [k, k] ?pcs ?t = rbind (index_step row rid ?t) (\<lambda>t'. Inr (pcs[k := At_end], t'))"
    using assms(1) by (auto simp: rbind_def split: sum.splits)
  then show ?thesis using run_columns [OF assms] Inr by (simp add: run_threads_append)
qed

text \<open>The steps of a thread that is not interrupted do what \<open>insert_row\<close> does, whatever the other threads are at.\<close>

lemma run_uninterrupted:
  assumes "k < length pcs" and "pcs ! k = At_start row"
  shows "run_threads (replicate (min (length (tb_columns t)) (length row) + 3) k) pcs t =
    rbind (insert_row t row) (\<lambda>t'. Inr (pcs[k := At_end], t'))"
proof -
  let ?n = "min (length (tb_columns t)) (length row)"
  have r: "replicate (?n + 3) k = k # replicate ?n k @ [k, k]"
    using replicate_add [of "?n + 1" 2 k] by (simp add: numeral_2_eq_2 numeral_3_eq_3)
  show ?thesis
  proof (cases "tb_columns t = []")
    case True
    then show ?thesis unfolding r using assms by (simp add: insert_row_def)
  next
    case False
    let ?pc = "At_column row (cs_total_rows (hd (tb_columns t))) 0"
    have "run_threads (replicate (?n + 3) k) pcs t = run_threads (replicate ?n k @ [k, k]) (pcs[k := ?pc]) t"
      unfolding r using assms False by simp
    also have "\<dots> = rbind (insert_row t row) (\<lambda>t'. Inr (pcs[k := At_end], t'))"
      using run_rest [of k "pcs[k := ?pc]" row _ 0 t "[]" "tb_columns t"] assms(1) False
      by (simp add: insert_row_parts rbind_def split: sum.splits)
    finally show ?thesis .
  qed
qed

section \<open>Two insertions that interleave\<close>

text \<open>The index of a table that holds the pairs \<open>M\<close>.\<close>

definition index_holds :: "bool \<Rightarrow> table \<Rightarrow> (u64 \<times> u64) multiset \<Rightarrow> bool" where
  "index_holds pk t M \<longleftrightarrow> first_is_id (tb_schema t) = Inr pk \<and>
     (pk \<longrightarrow> (\<exists>ix. im_get_index (tb_index t) ''PK'' = Some ix \<and> idx_inv ix \<and> mset (idx_entries ix) = M \<and> unat (bpt_npages ix) \<le> 1 + 2 * size M))"

lemma index_step_holds:
  assumes "index_holds pk t M" and "pk \<Longrightarrow> \<exists>w ws. row = CNum w # ws" and "pk \<Longrightarrow> size M < 31500"
  shows "\<exists>t'. index_step (map cell_db row) rid t = Inr t' \<and> index_holds pk t' (add_mset (cell_key (hd row), rid) M) \<and>
    tb_schema t' = tb_schema t \<and> tb_columns t' = tb_columns t"
proof (cases pk)
  case False
  then show ?thesis using assms(1) by (simp add: index_holds_def index_step_def)
next
  case True
  obtain ix where ix: "im_get_index (tb_index t) ''PK'' = Some ix" "idx_inv ix" "mset (idx_entries ix) = M" "unat (bpt_npages ix) \<le> 1 + 2 * size M"
    and fid: "first_is_id (tb_schema t) = Inr True" using assms(1) True by (auto simp: index_holds_def)
  obtain w ws where row: "row = CNum w # ws" using assms(2) True by blast
  have len: "length (idx_entries ix) = size M" using ix(3) by (metis size_mset)
  obtain ix' where "bpt_insert ix w rid = Inr ix'" "idx_inv ix'" "unat (bpt_npages ix') \<le> unat (bpt_npages ix) + 2"
      "mset (idx_entries ix') = add_mset (w, rid) (mset (idx_entries ix))"
    using idx_insert_law [OF ix(2), of w rid] ix(4) assms(3) True len by (auto simp: max_pages_def)
  then show ?thesis
    using True ix fid row by (auto simp: index_step_def index_holds_def im_get_index_def read_i64_def)
qed

lemma table_inv_parts:
  "table_inv pk t rows \<longleftrightarrow> table_types t \<noteq> [] \<and> cols_inv (table_types t) (tb_columns t) rows \<and> rows_ok (table_types t) rows \<and>
     (pk \<longrightarrow> hd (table_types t) = CT_DECIMAL) \<and> index_holds pk t (mset (pk_pairs rows))"
  by (auto simp: table_inv_def index_holds_def pk_pairs_def)

text \<open>One value stored in the first column, the others left for later.\<close>

lemma column_step_first:
  assumes "tb_columns t = c # cs" and "fixed_inv (cell_size ty) c xs" and "cell_ok ty x" and "length xs < cell_capacity ty"
  shows "\<exists>c'. column_step (map cell_db (x # row)) 0 t = Inr (t\<lparr>tb_columns := c' # cs\<rparr>) \<and> fixed_inv (cell_size ty) c' (xs @ [cell_buf x])"
  using fixed_inv_insert [OF assms(2,4) length_cell_buf [OF assms(3)]] value_bytes_cell [OF assms(3)] assms(1)
  by (auto simp: column_step_def)

text \<open>A whole insertion into columns that are out of step: the first holds \<open>zs\<close>, the others \<open>us\<close>.\<close>

lemma insert_row_ragged:
  assumes "tb_columns t = c # cs" and "fixed_inv (cell_size ty) c zs" and "cols_inv tys cs us"
    and y: "cell_ok ty y" "list_all2 cell_ok tys ys" and "\<forall>z \<in> set (ty # tys). length zs < cell_capacity z \<and> length us < cell_capacity z"
    and "index_holds pk t M" and "pk \<Longrightarrow> ty = CT_DECIMAL \<and> size M < 31500"
  shows "\<exists>t' c' cs'. insert_row t (map cell_db (y # ys)) = Inr t' \<and> tb_columns t' = c' # cs' \<and> tb_schema t' = tb_schema t \<and>
    fixed_inv (cell_size ty) c' (zs @ [cell_buf y]) \<and> cols_inv tys cs' (us @ [ys]) \<and>
    index_holds pk t' (add_mset (cell_key y, cs_total_rows c) M)"
proof -
  obtain c' where c': "insert_fixed c (cell_buf y) (cell_size ty) = Inr c'" "fixed_inv (cell_size ty) c' (zs @ [cell_buf y])"
    using fixed_inv_insert [OF assms(2) _ length_cell_buf [OF y(1)]] assms(6) by auto
  obtain cs' where cs': "insert_values cs (map cell_db ys) = Inr cs'" "cols_inv tys cs' (us @ [ys])"
    using insert_values_appends [OF assms(3) y(2)] assms(6) by auto
  have num: "\<exists>w ws. y # ys = CNum w # ws" if pk using assms(8) [OF that] y(1) cell_okD by fastforce
  have "index_holds pk (t\<lparr>tb_columns := c' # cs'\<rparr>) M" using assms(7) by (simp add: index_holds_def)
  then obtain t' where "index_step (map cell_db (y # ys)) (cs_total_rows c) (t\<lparr>tb_columns := c' # cs'\<rparr>) = Inr t'"
      "index_holds pk t' (add_mset (cell_key y, cs_total_rows c) M)" "tb_schema t' = tb_schema t" "tb_columns t' = c' # cs'"
    using index_step_holds [of pk _ M "y # ys" "cs_total_rows c"] num assms(8) by fastforce
  then show ?thesis using assms(1) c' cs' value_bytes_cell [OF y(1)] by (auto simp: insert_row_parts)
qed

text \<open>The first thread goes on after its first column: the other columns, then the index.\<close>

lemma first_thread_resumes:
  assumes "tb_columns t = c # cs" and "cols_inv tys cs us" and "list_all2 cell_ok tys xs"
    and "\<forall>z \<in> set tys. length us < cell_capacity z" and ix: "index_holds pk t M"
    and "pk \<Longrightarrow> \<exists>w. x = CNum w" and "pk \<Longrightarrow> size M < 31500"
  shows "\<exists>n t' cs'. run_threads (replicate n 0 @ [0, 0]) [At_column (map cell_db (x # xs)) rid 1, At_end] t = Inr ([At_end, At_end], t') \<and>
    tb_columns t' = c # cs' \<and> cols_inv tys cs' (us @ [xs]) \<and> tb_schema t' = tb_schema t \<and>
    index_holds pk t' (add_mset (cell_key x, rid) M)"
proof -
  obtain cs' where cs': "insert_values cs (map cell_db xs) = Inr cs'" "cols_inv tys cs' (us @ [xs])"
    using insert_values_appends [OF assms(2-4)] by blast
  have "index_holds pk (t\<lparr>tb_columns := c # cs'\<rparr>) M" using ix by (simp add: index_holds_def)
  then obtain t' where t': "index_step (map cell_db (x # xs)) rid (t\<lparr>tb_columns := c # cs'\<rparr>) = Inr t'"
      "index_holds pk t' (add_mset (cell_key x, rid) M)" "tb_schema t' = tb_schema t" "tb_columns t' = c # cs'"
    using index_step_holds [of pk _ M "x # xs" rid] assms(6,7) by fastforce
  have "run_threads (replicate (min (length cs) (length xs)) 0 @ [0, 0]) [At_column (map cell_db (x # xs)) rid 1, At_end] t =
      Inr ([At_end, At_end], t')"
    using run_rest [of 0 "[At_column (map cell_db (x # xs)) rid 1, At_end]" "map cell_db (x # xs)" rid 1 t "[c]" cs] assms(1) cs'(1) t'(1)
    by simp
  then show ?thesis using t' cs'(2) by blast
qed

text \<open>Two pairs of mixed rows in the columns and in the index are two rows of the table.\<close>

lemma mixed_table_inv:
  assumes "table_types t = ty # tys" "rows_ok (ty # tys) rows" "pk \<Longrightarrow> ty = CT_DECIMAL"
    and "cell_ok ty x" "cell_ok ty y" "list_all2 cell_ok tys xs" "list_all2 cell_ok tys ys"
    and "tb_columns t = c # cs" "fixed_inv (cell_size ty) c (map (\<lambda>r. cell_buf (hd r)) rows @ [cell_buf x, cell_buf y])"
    and "cols_inv tys cs (map tl rows @ [ys, xs])"
    and "index_holds pk t (add_mset (cell_key x, of_nat (length rows))
           (add_mset (cell_key y, of_nat (Suc (length rows))) (mset (pk_pairs rows))))"
  shows "table_inv pk t (rows @ [x # ys, y # xs])"
proof -
  have "mset (pk_pairs (rows @ [x # ys, y # xs])) = add_mset (cell_key x, of_nat (length rows))
      (add_mset (cell_key y, of_nat (Suc (length rows))) (mset (pk_pairs rows)))"
    using pk_pairs_snoc [of "rows @ [x # ys]" "y # xs"] pk_pairs_snoc [of rows "x # ys"] by simp
  moreover have "rows_ok (ty # tys) (rows @ [x # ys, y # xs])" using assms(2,4-7) by (simp add: rows_ok_def)
  ultimately show ?thesis using assms by (simp add: table_inv_parts)
qed

text \<open>
  C20. Two clients insert the rows \<open>a\<close> and \<open>b\<close> at the same time into one table: there is a schedule in which
  both calls end without a fault and the table then holds the first value of \<open>a\<close> with the other values
  of \<open>b\<close> and the reverse, two rows that no one inserted. The index agrees with the mixed rows, so a
  search for the key of \<open>a\<close> gives the values of \<open>b\<close>.
\<close>

theorem concurrent_inserts_mix:
  assumes inv: "table_inv pk t rows" and a: "list_all2 cell_ok (table_types t) a" and b: "list_all2 cell_ok (table_types t) b"
    and room: "table_room pk t (length rows + 2)"
  shows "\<exists>schedule t' t''. run_threads schedule [At_start (map cell_db a), At_start (map cell_db b)] t = Inr ([At_end, At_end], t') \<and>
    table_inv pk t' (rows @ [hd a # tl b, hd b # tl a]) \<and>
    materialize_row t' (of_nat (length rows)) = Inr (map cell_db (hd a # tl b), t'')"
proof -
  obtain ty tys where tys: "table_types t = ty # tys" using inv by (cases "table_types t") (auto simp: table_inv_parts)
  have cols: "cols_inv (ty # tys) (tb_columns t) rows" and ix: "index_holds pk t (mset (pk_pairs rows))"
    and dec: "pk \<Longrightarrow> ty = CT_DECIMAL" and ok: "rows_ok (ty # tys) rows"
    using inv tys by (auto simp: table_inv_parts)
  obtain c cs where c: "tb_columns t = c # cs" "fixed_inv (cell_size ty) c (map (\<lambda>r. cell_buf (hd r)) rows)" "cols_inv tys cs (map tl rows)"
    using cols by (cases "tb_columns t") auto
  obtain x xs where x: "a = x # xs" "cell_ok ty x" "list_all2 cell_ok tys xs" using a tys by (auto simp: list_all2_Cons1)
  obtain y ys where y: "b = y # ys" "cell_ok ty y" "list_all2 cell_ok tys ys" using b tys by (auto simp: list_all2_Cons1)
  have cap: "length rows + 2 \<le> cell_capacity z" if "z \<in> set (ty # tys)" for z using room tys that by (auto simp: table_room_def)
  let ?rid = "cs_total_rows c" and ?a = "map cell_db a" and ?b = "map cell_db b" and ?n = "length cs"
  obtain c1 where c1: "column_step ?a 0 t = Inr (t\<lparr>tb_columns := c1 # cs\<rparr>)"
    "fixed_inv (cell_size ty) c1 (map (\<lambda>r. cell_buf (hd r)) rows @ [cell_buf x])"
    using column_step_first [OF c(1,2) x(2), of xs] cap [of ty] x(1) by auto
  let ?t1 = "t\<lparr>tb_columns := c1 # cs\<rparr>" and ?pcs1 = "[At_column ?a ?rid 1, At_start ?b]"
  have s1: "run_threads [0, 0] [At_start ?a, At_start ?b] t = Inr (?pcs1, ?t1)" using c(1) c1(1) x(1) by simp
  have sz: "size (mset (pk_pairs rows)) = length rows" by (simp add: pk_pairs_def)
  have bound: "pk \<Longrightarrow> length rows + 2 \<le> 31500" using room by (simp add: table_room_def)
  have "index_holds pk ?t1 (mset (pk_pairs rows))" using ix by (simp add: index_holds_def)
  then obtain t2 c2 cs1 where ins: "insert_row ?t1 ?b = Inr t2"
      and t2: "tb_columns t2 = c2 # cs1" "tb_schema t2 = tb_schema t"
      "fixed_inv (cell_size ty) c2 (map (\<lambda>r. cell_buf (hd r)) rows @ [cell_buf x, cell_buf y])" "cols_inv tys cs1 (map tl rows @ [ys])"
      "index_holds pk t2 (add_mset (cell_key y, cs_total_rows c1) (mset (pk_pairs rows)))"
    using insert_row_ragged [of ?t1 c1 cs, OF _ c1(2) c(3) y(2,3)] y(1) dec bound sz cap by (fastforce simp: Suc_le_eq)
  from ins obtain m where s2: "run_threads (replicate m 1) ?pcs1 ?t1 = Inr ([At_column ?a ?rid 1, At_end], t2)"
    using run_uninterrupted [of 1 ?pcs1 ?b ?t1] by auto
  have "\<exists>w. x = CNum w" if pk using dec [OF that] x(2) cell_okD by fastforce
  then obtain n t3 cs2 where s3: "run_threads (replicate n 0 @ [0, 0]) [At_column ?a ?rid 1, At_end] t2 = Inr ([At_end, At_end], t3)"
      and t3: "tb_columns t3 = c2 # cs2" "cols_inv tys cs2 (map tl rows @ [ys, xs])" "tb_schema t3 = tb_schema t"
      "index_holds pk t3 (add_mset (cell_key x, ?rid) (add_mset (cell_key y, cs_total_rows c1) (mset (pk_pairs rows))))"
    using first_thread_resumes [OF t2(1,4) x(3) _ t2(5), of x ?rid] cap bound sz x(1) t2(2) by fastforce
  have rid: "?rid = of_nat (length rows)" "cs_total_rows c1 = of_nat (Suc (length rows))"
    using fixed_inv_rows [OF c(2)] fixed_inv_rows [OF c1(2)] by (metis length_map of_nat_unat ucast_id length_append_singleton)+
  have inv3: "table_inv pk t3 (rows @ [x # ys, y # xs])"
    using mixed_table_inv [OF _ ok dec x(2) y(2) x(3) y(3) t3(1) t2(3) t3(2)] t3(3,4) tys rid by simp
  have "unat (of_nat (length rows) :: u64) = length rows" using fixed_inv_rows [OF c(2)] rid(1) by simp
  then obtain t4 where "materialize_row t3 (of_nat (length rows)) = Inr (map cell_db (x # ys), t4)"
    using materialize_row_nth [OF inv3, of "of_nat (length rows)"] by (auto simp: nth_append)
  moreover have "run_threads ([0, 0] @ replicate m 1 @ replicate n 0 @ [0, 0]) [At_start ?a, At_start ?b] t =
      Inr ([At_end, At_end], t3)" unfolding run_threads_append [of "[0, 0]"] run_threads_append [of "replicate m 1"] s1 using s2 s3 by simp
  ultimately show ?thesis using inv3 x(1) y(1) by (simp del: run_threads.simps) blast
qed

text \<open>A new table with the rows \<open>(7, 'Ann')\<close> and \<open>(9, 'Bob')\<close>.\<close>

lemma demo_open:
  "\<exists>t. table_open (disk_files (\<lambda>_ _. zero_page)) (disk_files (\<lambda>_ _. fresh_node LEAF)) ''data'' ''T'' demo_schema = Inr t \<and>
     table_inv True t [] \<and> table_types t = [CT_DECIMAL, CT_VARCHAR]"
proof -
  have "schema_ok demo_schema" "has_pk demo_schema" by (simp_all add: schema_ok_def demo_schema_def has_pk_def)
  then show ?thesis using table_open_empty [of demo_schema "\<lambda>_ _. zero_page" "\<lambda>_ _. fresh_node LEAF" "''data''" "''T''"]
    by (auto simp: demo_schema_def)
qed

lemma cols_inv_length: "cols_inv tys cs rows \<Longrightarrow> length cs = length tys"
  by (induction tys cs rows rule: cols_inv.induct) auto

lemma demo_cells:
  "list_all2 cell_ok [CT_DECIMAL, CT_VARCHAR] [CNum 7, CStr ''Ann'']" "list_all2 cell_ok [CT_DECIMAL, CT_VARCHAR] [CNum 9, CStr ''Bob'']"
  by (simp_all add: char_nat_def)

theorem concurrent_inserts_mix_witness:
  "\<exists>t schedule t' t''. table_open (disk_files (\<lambda>_ _. zero_page)) (disk_files (\<lambda>_ _. fresh_node LEAF)) ''data'' ''T'' demo_schema = Inr t \<and>
     run_threads schedule [At_start (map cell_db [CNum 7, CStr ''Ann'']), At_start (map cell_db [CNum 9, CStr ''Bob''])] t = Inr ([At_end, At_end], t') \<and>
     materialize_row t' 0 = Inr (map cell_db [CNum 7, CStr ''Bob''], t'')"
proof -
  obtain t where t: "table_open (disk_files (\<lambda>_ _. zero_page)) (disk_files (\<lambda>_ _. fresh_node LEAF)) ''data'' ''T'' demo_schema = Inr t"
    "table_inv True t []" "table_types t = [CT_DECIMAL, CT_VARCHAR]" using demo_open by (elim exE conjE) (rule that)
  have "table_room True t (length ([] :: cell list list) + 2)" by (rule small_room) simp
  from concurrent_inserts_mix [OF t(2) _ _ this, of "[CNum 7, CStr ''Ann'']" "[CNum 9, CStr ''Bob'']"] demo_cells t(3)
  show ?thesis using t(1) by (auto simp del: run_threads.simps)
qed

end
