(* ===== verification/FloatColumn.thy ===== *)
theory FloatColumn
  imports TableProofs
begin

text \<open>
  Tables with FLOAT columns. \<open>Table::insert_row\<close> stores four bytes for a FLOAT and
  \<open>Executor::materialize_row\<close> reads eight for every type but VARCHAR. The reader does not look at the
  \<open>item_size\<close> in the page header.
\<close>

lemma page_bytes_append: "page_bytes pg off (m + n) = page_bytes pg off m @ page_bytes pg (off + m) n"
  using upt_add_eq_append [of off "off + m" n] by (simp add: page_bytes_def add.assoc)

text \<open>Two neighbouring slots of four bytes are one slot of eight.\<close>

lemma read_two_slots:
  assumes "fixed_ok 4 page (2 * i) x" and "fixed_ok 4 page (2 * i + 1) y" and "i < 511"
  shows "read_slot page (of_nat i) 8 8 = Inr (take 4 x @ take 4 y)"
proof -
  have four: "unat (4 :: u16) = 4" by simp
  have "page_bytes page (8 + i * 8) 4 = take 4 x" "page_bytes page (8 + i * 8 + 4) 4 = take 4 y"
    using assms(1,2) unfolding fixed_ok_def four by (simp_all add: algebra_simps)
  then have "page_bytes page (8 + i * 8) 8 = take 4 x @ take 4 y" using page_bytes_append [of page "8 + i * 8" 4 4] by simp
  moreover have "unat (of_nat i * 8 :: u32) = i * 8" using assms(3) by (simp add: unat_word_ariths unat_of_nat)
  ultimately show ?thesis using assms(3) by (simp add: read_slot_def Let_def page_read_def)
qed

section \<open>Tables with FLOAT columns\<close>

text \<open>A value of a row: of a DECIMAL or VARCHAR column, or the word of a float.\<close>

type_synonym fcell = "cell + u32"

fun fcell_ok :: "column_type \<Rightarrow> fcell \<Rightarrow> bool" where
  "fcell_ok ty (Inl c) = cell_ok ty c"
| "fcell_ok ty (Inr w) = (ty = CT_FLOAT)"

fun fcell_db :: "fcell \<Rightarrow> dbvalue" where
  "fcell_db (Inl c) = cell_db c"
| "fcell_db (Inr w) = \<lparr>v_type = CT_FLOAT, v_num = F32 w, v_str = []\<rparr>"

fun fcell_buf :: "fcell \<Rightarrow> u8 list" where
  "fcell_buf (Inl c) = cell_buf c"
| "fcell_buf (Inr w) = pad_to 128 (enc32 w)"

definition stored_size :: "column_type \<Rightarrow> u16" where
  "stored_size ty = (if ty = CT_FLOAT then 4 else cell_size ty)"

lemma value_bytes_fcell:
  assumes "fcell_ok ty c"
  shows "value_bytes (fcell_db c) = Inr (fcell_buf c, stored_size ty) \<and> length (fcell_buf c) = 128"
proof (cases c)
  case (Inl d)
  moreover have "ty \<noteq> CT_FLOAT" if "cell_ok ty d" using that by (auto dest: cell_okD)
  ultimately show ?thesis using assms value_bytes_cell length_cell_buf by (auto simp: stored_size_def)
next
  case (Inr w)
  then show ?thesis using assms by (simp add: value_bytes_def read_word_def stored_size_def pad_to_def)
qed

lemma stored_inv_insert:
  assumes "fixed_inv (stored_size ty) s xs" and "length xs < 8126464" and "length x = 128"
  shows "\<exists>s'. insert_fixed s x (stored_size ty) = Inr s' \<and> fixed_inv (stored_size ty) s' (xs @ [x])"
proof (cases "ty = CT_FLOAT")
  case True
  then show ?thesis
    using f4.insert_appends [of s xs x] assms
    by (simp add: stored_size_def fixed_inv_def insert_fixed_def fixed_wf_def max_pages_def)
next
  case False
  then show ?thesis
    using fixed_inv_insert [of ty s xs x] assms cell_capacity_bound [of ty] by (simp add: stored_size_def)
qed

fun float_inv :: "column_type list \<Rightarrow> colstore list \<Rightarrow> fcell list list \<Rightarrow> bool" where
  "float_inv [] [] rows = True"
| "float_inv (ty # tys) (c # cs) rows =
     (fixed_inv (stored_size ty) c (map (\<lambda>r. fcell_buf (hd r)) rows) \<and> float_inv tys cs (map tl rows))"
| "float_inv _ _ _ = False"

lemma insert_values_float:
  assumes "float_inv tys cs rows" and "list_all2 fcell_ok tys row" and "length rows < 8126464"
  shows "\<exists>cs'. insert_values cs (map fcell_db row) = Inr cs' \<and> float_inv tys cs' (rows @ [row])"
  using assms
proof (induction tys cs rows arbitrary: row rule: float_inv.induct)
  case (2 ty tys c cs rows)
  obtain x xs where row: "row = x # xs" "fcell_ok ty x" "list_all2 fcell_ok tys xs"
    using "2.prems"(2) by (auto simp: list_all2_Cons1)
  note v = value_bytes_fcell [OF row(2)]
  obtain c' where c': "insert_fixed c (fcell_buf x) (stored_size ty) = Inr c'"
    "fixed_inv (stored_size ty) c' (map (\<lambda>r. fcell_buf (hd r)) rows @ [fcell_buf x])"
    using stored_inv_insert [of ty c "map (\<lambda>r. fcell_buf (hd r)) rows" "fcell_buf x"] "2.prems" v by auto
  obtain cs' where cs': "insert_values cs (map fcell_db xs) = Inr cs'" "float_inv tys cs' (map tl rows @ [xs])"
    using "2.IH" [OF _ row(3)] "2.prems" by auto
  show ?case using c' cs' row(1) v by simp
qed auto

section \<open>Reading\<close>

text \<open>What SELECT reads in a FLOAT column that fills at most one page.\<close>

lemma float_read:
  assumes "fixed_inv 4 s xs" and "length xs \<le> 1022" and "2 * unat rid + 1 < length xs"
  shows "\<exists>c. read_at (cs_cm s) rid 8 = Inr (Some (take 4 (xs ! (2 * unat rid)) @ take 4 (xs ! (2 * unat rid + 1))), c)"
proof -
  have m: "4088 div unat (4 :: u16) = 1022" by simp
  have inv: "f4.col_inv s xs" using assms(1) by (simp add: fixed_inv_def)
  note h = f4.col_inv_holds [OF inv, unfolded f4.holds_def, unfolded m]
  let ?c = "cs_cm s" and ?i = "unat rid"
  have np: "cm_npages ?c = 1"
  proof -
    have "unat (cm_npages ?c) = 1" using h assms(2,3) by (cases "unat (cm_npages ?c)" rule: nat.exhaust) auto
    then show ?thesis by (simp add: word_unat_eq_iff)
  qed
  have page: "f4.page_holds (cm_mem ?c 0) xs" using h np assms(2) by simp
  note page = page [unfolded f4.page_holds_def]
  have ok: "fixed_ok 4 (cm_mem ?c 0) j (xs ! j)" if "j < length xs" for j using page that by simp
  have items: "unat (hdr_items (cm_mem ?c 0)) = length xs" using page by simp
  have i: "?i < 511" using assms(2,3) by simp
  obtain c where c: "cm_get_page ?c 0 = Inr (Some (page_addr 0), c)" "cm_deref c (Some (page_addr 0)) = Inr (cm_mem ?c 0)"
    using f4.fetch_page [OF f4.col_inv_holds [OF inv], of 0] np by auto
  have "rid div 511 = 0" using i by (simp add: word_unat_eq_iff unat_div)
  moreover have "rid < ucast (hdr_items (cm_mem ?c 0))" "(ucast rid :: u32) = of_nat ?i"
    using items assms(3) by (simp_all add: word_less_nat_alt)
  moreover have "read_slot (cm_mem ?c 0) (of_nat ?i) 8 8 = Inr (take 4 (xs ! (2 * ?i)) @ take 4 (xs ! (2 * ?i + 1)))"
    using assms(3) i by (intro read_two_slots ok) simp_all
  ultimately show ?thesis using np c by (simp add: read_at_def Let_def)
qed

text \<open>The value of row \<open>i\<close> in a column: its own, or for a float the number of two floats beside each other.\<close>

fun fword :: "fcell \<Rightarrow> u32" where
  "fword (Inr w) = w"
| "fword (Inl c) = 0"

definition misread :: "fcell list \<Rightarrow> nat \<Rightarrow> dbvalue" where
  "misread xs i = (case xs ! i of Inl c \<Rightarrow> cell_db c
     | Inr _ \<Rightarrow> \<lparr>v_type = CT_FLOAT, v_num = I64 (dec64 (enc32 (fword (xs ! (2 * i))) @ enc32 (fword (xs ! (2 * i + 1))))), v_str = []\<rparr>)"

lemma take4_float: "fcell_ok CT_FLOAT x \<Longrightarrow> take 4 (fcell_buf x) = enc32 (fword x)"
  by (cases x) (auto simp: pad_to_def dest: cell_okD)

lemma stored_read:
  assumes inv: "fixed_inv (stored_size ty) s (map fcell_buf xs)" and ok: "\<forall>x \<in> set xs. fcell_ok ty x"
    and "length xs \<le> 1022" and i: "2 * unat rid + 1 < length xs"
  shows "\<exists>bs c. read_at (cs_cm s) rid (cell_size ty) = Inr (bs, c) \<and> cell_value ty bs = misread xs (unat rid)"
proof (cases "ty = CT_FLOAT")
  case True
  let ?i = "unat rid"
  have "fcell_ok CT_FLOAT (xs ! ?i)" "fcell_ok CT_FLOAT (xs ! (2 * ?i))" "fcell_ok CT_FLOAT (xs ! (2 * ?i + 1))"
    using ok i True by simp_all
  note f = this
  obtain w where w: "xs ! ?i = Inr w" using f(1) by (cases "xs ! ?i") (auto dest: cell_okD)
  obtain c where "read_at (cs_cm s) rid 8 = Inr (Some (enc32 (fword (xs ! (2 * ?i))) @ enc32 (fword (xs ! (2 * ?i + 1)))), c)"
    using float_read [of s "map fcell_buf xs" rid] assms True f by (auto simp: stored_size_def take4_float)
  then show ?thesis using True w by (simp add: cell_size_def cell_value_def misread_def)
next
  case False
  have "fcell_ok ty (xs ! unat rid)" using ok i by simp
  then obtain d where d: "xs ! unat rid = Inl d" "cell_ok ty d" using False by (cases "xs ! unat rid") auto
  obtain c where "read_at (cs_cm s) rid (cell_size ty) = Inr (Some (take (unat (cell_size ty)) (cell_buf d)), c)"
    using fixed_inv_read [of ty s "map fcell_buf xs" rid] inv False i d(1) by (auto simp: stored_size_def)
  then show ?thesis using cell_value_buf [OF d(2)] d(1) by (simp add: misread_def)
qed

text \<open>The same for all columns of a row.\<close>

lemma read_cells_float:
  assumes "float_inv (map cd_type ds) cs rows" and "\<forall>r \<in> set rows. list_all2 fcell_ok (map cd_type ds) r"
    and "length rows \<le> 1022" and "2 * unat rid + 1 < length rows"
  shows "\<exists>cs'. read_cells ds cs rid = Inr (map (\<lambda>j. misread (map (\<lambda>r. r ! j) rows) (unat rid)) [0..<length ds], cs')"
  using assms
proof (induction ds cs rid arbitrary: rows rule: read_cells.induct)
  case (3 d ds c cs rid)
  have cons: "r \<noteq> [] \<and> fcell_ok (cd_type d) (hd r) \<and> list_all2 fcell_ok (map cd_type ds) (tl r)" if "r \<in> set rows" for r
    using "3.prems"(2) that by (cases r) auto
  have hds: "map (\<lambda>r. r ! 0) rows = map hd rows" using cons by (auto simp: hd_conv_nth)
  have tls: "map (\<lambda>r. r ! Suc j) rows = map (\<lambda>r. tl r ! j) rows" for j
    using cons by (auto simp: neq_Nil_conv dest!: cons [THEN conjunct1])
  obtain bs cm where cm: "read_at (cs_cm c) rid (cell_size (cd_type d)) = Inr (bs, cm)"
    "cell_value (cd_type d) bs = misread (map hd rows) (unat rid)"
    using stored_read [of "cd_type d" c "map hd rows" rid] "3.prems" cons by (auto simp: comp_def)
  obtain cs' where "read_cells ds cs rid = Inr (map (\<lambda>j. misread (map (\<lambda>r. r ! j) (map tl rows)) (unat rid)) [0..<length ds], cs')"
    using "3.IH" [OF cm(1) refl, of "map tl rows"] "3.prems" cons by auto
  moreover have "[0..<length (d # ds)] = 0 # map Suc [0..<length ds]" by (simp add: map_Suc_upt upt_conv_Cons del: upt_Suc)
  ultimately show ?case using cm by (simp add: hds tls comp_def del: upt_Suc)
qed auto

section \<open>The property\<close>

lemma open_columns_float:
  assumes "list_all cd_terminated ds"
  shows "\<exists>cs. open_columns (disk_files contents) dir name ds = Inr cs \<and> float_inv (map cd_type ds) cs []"
  using assms
proof (induction ds)
  case (Cons d ds)
  let ?pg = "\<lparr>pg_mem = contents (column_path dir name (cd_name d)), pg_disk = contents (column_path dir name (cd_name d)),
      pg_num_pages = 0\<rparr>"
  obtain c where c: "col_open ?pg = Inr c" "cm_inv (cs_cm c)" "cm_npages (cs_cm c) = 0" "cs_total_rows c = 0" "cs_active c = None"
    using col_open_empty [of ?pg] by auto
  have "fixed_inv (stored_size (cd_type d)) c []"
    using fixed_inv_empty [OF c(2-5)] f4.col_inv_empty [OF c(2-5)] by (simp add: stored_size_def) (simp add: fixed_inv_def)
  then show ?case using Cons c(1) by (auto simp: col_name_def disk_files_def pager_open_def)
qed simp

definition float_schema_ok :: "schema \<Rightarrow> bool" where
  "float_schema_ok sc \<longleftrightarrow> sc_columns sc \<noteq> [] \<and> list_all cd_terminated (sc_columns sc) \<and>
     distinct (map cd_name (sc_columns sc)) \<and> \<not> has_pk sc"

lemma insert_rows_float:
  assumes "float_schema_ok sc" and "\<forall>r \<in> set rows. list_all2 fcell_ok (map cd_type (sc_columns sc)) r" and "length rows \<le> 1022"
  shows "\<exists>t t'. table_open (disk_files contents) (disk_files idx) dir name sc = Inr t \<and>
    rfold (\<lambda>r t. insert_row t (map fcell_db r)) rows t = Inr t' \<and> tb_schema t' = sc \<and>
    float_inv (map cd_type (sc_columns sc)) (tb_columns t') rows"
proof -
  let ?tys = "map cd_type (sc_columns sc)"
  have sc: "?tys \<noteq> []" "first_is_id sc = Inr False" "list_all cd_terminated (sc_columns sc)"
    using assms(1) by (auto simp: float_schema_ok_def first_is_id_def has_pk_def col_name_def neq_Nil_conv)
  obtain cs where cs: "open_columns (disk_files contents) dir name (sc_columns sc) = Inr cs" "float_inv ?tys cs []"
    using open_columns_float [OF sc(3)] by blast
  let ?t = "\<lparr>tb_name = name, tb_schema = sc, tb_columns = cs, tb_index = Map.empty\<rparr>"
  have "table_open (disk_files contents) (disk_files idx) dir name sc = Inr ?t" using cs(1) sc(2) by (simp add: table_open_def)
  moreover have "\<exists>t'. rfold (\<lambda>r t. insert_row t (map fcell_db r)) rows ?t = Inr t' \<and>
      (tb_schema t' = sc \<and> float_inv ?tys (tb_columns t') rows)"
  proof (rule rfold_invariant)
    show "tb_schema ?t = sc \<and> float_inv ?tys (tb_columns ?t) []" using cs(2) by simp
  next
    fix ys r zs and u :: table
    assume rows: "rows = ys @ r # zs" and u: "tb_schema u = sc \<and> float_inv ?tys (tb_columns u) ys"
    obtain cs' where "insert_values (tb_columns u) (map fcell_db r) = Inr cs'" "float_inv ?tys cs' (ys @ [r])"
      using insert_values_float [of ?tys "tb_columns u" ys r] u assms(2,3) rows by auto
    moreover have "tb_columns u \<noteq> []" using u sc(1) by (cases ?tys) auto
    ultimately show "\<exists>u'. insert_row u (map fcell_db r) = Inr u' \<and> tb_schema u' = sc \<and> float_inv ?tys (tb_columns u') (ys @ [r])"
      using u sc(2) by (simp add: insert_row_def)
  qed
  ultimately show ?thesis by blast
qed

text \<open>
  C23. A FLOAT column cannot be read back. Rows with FLOAT, DECIMAL and VARCHAR values are inserted into a new
  table without a primary key, at most as many as a page of a FLOAT column holds (1022). All
  insertions succeed, and the row that SELECT materializes for \<open>rid\<close> (where \<open>2 * rid + 1\<close> is a row) has the
  values that were inserted in its DECIMAL and VARCHAR columns, but in each FLOAT column the eight-byte number
  made of the four bytes of row \<open>2 * rid\<close> and those of row \<open>2 * rid + 1\<close>.
\<close>

theorem float_column_misread:
  assumes "float_schema_ok sc" and "\<forall>r \<in> set rows. list_all2 fcell_ok (map cd_type (sc_columns sc)) r"
    and "length rows \<le> 1022" and "2 * unat rid + 1 < length rows"
  shows "\<exists>t t' t''. table_open (disk_files contents) (disk_files idx) dir name sc = Inr t \<and>
    rfold (\<lambda>r t. insert_row t (map fcell_db r)) rows t = Inr t' \<and>
    materialize_row t' rid = Inr (map (\<lambda>j. misread (map (\<lambda>r. r ! j) rows) (unat rid)) [0..<length (sc_columns sc)], t'')"
proof -
  obtain t t' where t: "table_open (disk_files contents) (disk_files idx) dir name sc = Inr t"
    "rfold (\<lambda>r t. insert_row t (map fcell_db r)) rows t = Inr t'" "tb_schema t' = sc"
    "float_inv (map cd_type (sc_columns sc)) (tb_columns t') rows"
    using insert_rows_float [OF assms(1-3)] by blast
  then show ?thesis using read_cells_float [OF t(4) assms(2-4)] by (auto simp: materialize_row_def)
qed

definition price_schema :: schema where
  "price_schema = \<lparr>sc_columns = [\<lparr>cd_name = ''NAME'', cd_terminated = True, cd_type = CT_VARCHAR\<rparr>,
     \<lparr>cd_name = ''PRICE'', cd_terminated = True, cd_type = CT_FLOAT\<rparr>]\<rparr>"

text \<open>The second row, with the words 3 and 4 of the third and fourth row in place of its own.\<close>

theorem float_column_misread_witness:
  "\<exists>t t' t''. table_open (disk_files (\<lambda>_ _. zero_page)) (disk_files (\<lambda>_ _. fresh_node LEAF)) ''data'' ''T'' price_schema = Inr t \<and>
     rfold (\<lambda>r t. insert_row t (map fcell_db r))
       [[Inl (CStr ''a''), Inr 1], [Inl (CStr ''b''), Inr 2], [Inl (CStr ''c''), Inr 3], [Inl (CStr ''d''), Inr 4]] t = Inr t' \<and>
     materialize_row t' 1 = Inr ([cell_db (CStr ''b''), \<lparr>v_type = CT_FLOAT, v_num = I64 (dec64 (enc32 3 @ enc32 4)), v_str = []\<rparr>], t'')"
proof -
  let ?rows = "[[Inl (CStr ''a''), Inr 1], [Inl (CStr ''b''), Inr 2], [Inl (CStr ''c''), Inr 3], [Inl (CStr ''d''), Inr 4]] :: fcell list list"
  have pre: "float_schema_ok price_schema" "\<forall>r \<in> set ?rows. list_all2 fcell_ok (map cd_type (sc_columns price_schema)) r"
    "length ?rows \<le> 1022" "2 * unat (1 :: u64) + 1 < length ?rows"
    by (simp_all add: float_schema_ok_def has_pk_def price_schema_def char_nat_def)
  have "map (\<lambda>j. misread (map (\<lambda>r. r ! j) ?rows) (unat (1 :: u64))) [0..<length (sc_columns price_schema)] =
      [cell_db (CStr ''b''), \<lparr>v_type = CT_FLOAT, v_num = I64 (dec64 (enc32 3 @ enc32 4)), v_str = []\<rparr>]"
    by (simp add: misread_def price_schema_def numeral_3_eq_3)
  then show ?thesis
    using float_column_misread [OF pre, of "\<lambda>_ _. zero_page" "\<lambda>_ _. fresh_node LEAF" "''data''" "''T''"] by simp
qed

end
