(* ===== verification/TableRuns.thy ===== *)
theory TableRuns
  imports TableProofs
begin

text \<open>
  A table over its whole life: any sequence of insertions, reads, flushes and clears refines a
  list of rows. The operations are those of \<open>src/src/storage/table.cpp\<close> (and the row reads of
  the executor); \<open>table_do\<close> is one call, \<open>spec_do\<close> what it means for the list.
\<close>

datatype table_op = InsertRow "cell list" | ReadRow u64 | FlushAll | ClearTable





definition inserts_in :: "table_op list \<Rightarrow> nat" where
  "inserts_in xs = length (filter (\<lambda>x. case x of InsertRow _ \<Rightarrow> True | _ \<Rightarrow> False) xs)"

section \<open>Flush and clear\<close>





section \<open>One call, and a sequence\<close>

lemma inserts_in_simps [simp]:
  "inserts_in [] = 0" "inserts_in (InsertRow r # xs) = Suc (inserts_in xs)"
  "inserts_in (ReadRow rid # xs) = inserts_in xs" "inserts_in (FlushAll # xs) = inserts_in xs"
  "inserts_in (ClearTable # xs) = inserts_in xs"
  by (simp_all add: inserts_in_def)





section \<open>The property\<close>




end
