(* ===== verification/ShortRows.thy ===== *)
theory ShortRows
  imports TableProofs
begin

text \<open>
  Rows with fewer values than the table has columns. \<open>Executor::exec_insert\<close> builds a row from
  the values it finds and \<open>Table::insert_row\<close> stores value \<open>i\<close> in column \<open>i\<close>, for as many as
  there are; nothing is stored in the other columns, which stay shorter. A row id then no longer
  means the same insertion in every column.
\<close>

section \<open>Columns of different lengths\<close>

text \<open>The values that column \<open>i\<close> was given, in order.\<close>

definition column_values :: "cell list list \<Rightarrow> nat \<Rightarrow> cell list" where
  "column_values rows i = [r ! i. r \<leftarrow> rows, i < length r]"

text \<open>A row that fits the first columns of a schema.\<close>

fun fits_prefix :: "column_type list \<Rightarrow> cell list \<Rightarrow> bool" where
  "fits_prefix tys [] \<longleftrightarrow> True"
| "fits_prefix [] (x # xs) \<longleftrightarrow> False"
| "fits_prefix (ty # tys) (x # xs) \<longleftrightarrow> cell_ok ty x \<and> fits_prefix tys xs"

fun ragged_inv :: "column_type list \<Rightarrow> colstore list \<Rightarrow> cell list list \<Rightarrow> bool" where
  "ragged_inv [] [] rows = True"
| "ragged_inv (ty # tys) (c # cs) rows =
     (fixed_inv (cell_size ty) c (map cell_buf (column_values rows 0)) \<and> ragged_inv tys cs (map tl rows))"
| "ragged_inv _ _ _ = False"

lemma column_values_snoc:
  "column_values (rows @ [r]) i = column_values rows i @ (if i < length r then [r ! i] else [])"
  by (simp add: column_values_def)

lemma column_values_Suc: "column_values (map tl rows) i = column_values rows (Suc i)"
proof (induction rows rule: rev_induct)
  case (snoc r rows)
  then show ?case by (cases r) (simp_all add: column_values_snoc)
qed (simp add: column_values_def)

lemma column_values_ok:
  "\<forall>r \<in> set rows. fits_prefix (ty # tys) r \<Longrightarrow> \<forall>x \<in> set (column_values rows 0). cell_ok ty x"
proof (induction rows rule: rev_induct)
  case (snoc r rows)
  then show ?case by (cases r) (auto simp: column_values_snoc)
qed (simp add: column_values_def)

lemma fits_prefix_tl: "fits_prefix (ty # tys) r \<Longrightarrow> fits_prefix tys (tl r)"
  by (cases r) simp_all

lemma column_values_length: "length (column_values rows i) \<le> length rows"
proof (induction rows rule: rev_induct)
  case (snoc r rows)
  then show ?case by (auto simp: column_values_snoc)
qed (simp add: column_values_def)

lemma ragged_inv_empty_row: "ragged_inv tys cs rows \<Longrightarrow> ragged_inv tys cs (rows @ [[]])"
  by (induction tys cs rows rule: ragged_inv.induct) (auto simp: column_values_snoc)

lemma ragged_inv_new: "cols_inv tys cs [] \<Longrightarrow> ragged_inv tys cs []"
proof (induction tys cs "[] :: cell list list" rule: cols_inv.induct)
qed (auto simp: column_values_def)

lemma insert_values_ragged:
  assumes "ragged_inv tys cs rows" and "fits_prefix tys row" and "\<forall>ty \<in> set tys. length rows < cell_capacity ty"
  shows "\<exists>cs'. insert_values cs (map cell_db row) = Inr cs' \<and> ragged_inv tys cs' (rows @ [row])"
  using assms
proof (induction tys cs rows arbitrary: row rule: ragged_inv.induct)
  case (2 ty tys c cs rows)
  show ?case
  proof (cases row)
    case Nil
    then show ?thesis using ragged_inv_empty_row [OF "2.prems"(1)] by auto
  next
    case (Cons x xs)
    then have x: "cell_ok ty x" "fits_prefix tys xs" using "2.prems"(2) by simp_all
    have "length (map cell_buf (column_values rows 0)) < cell_capacity ty"
      using column_values_length [of rows 0] "2.prems"(3) by (simp add: le_less_trans)
    then obtain c' where c': "insert_fixed c (cell_buf x) (cell_size ty) = Inr c'"
      "fixed_inv (cell_size ty) c' (map cell_buf (column_values rows 0) @ [cell_buf x])"
      using fixed_inv_insert [of ty c "map cell_buf (column_values rows 0)" "cell_buf x"] "2.prems"(1) length_cell_buf [OF x(1)] by auto
    obtain cs' where "insert_values cs (map cell_db xs) = Inr cs'" "ragged_inv tys cs' (map tl rows @ [xs])"
      using "2.IH" [OF _ x(2)] "2.prems" by auto
    then show ?thesis
      using c' Cons value_bytes_cell [OF x(1)] by (simp add: column_values_snoc)
  qed
qed (auto elim: fits_prefix.elims)

section \<open>What a read gives\<close>

definition nth_or_missing :: "column_type \<Rightarrow> cell list \<Rightarrow> nat \<Rightarrow> dbvalue" where
  "nth_or_missing ty xs i = (if i < length xs then cell_db (xs ! i) else cell_value ty None)"

fun ragged_row :: "coldef list \<Rightarrow> cell list list \<Rightarrow> nat \<Rightarrow> dbrow" where
  "ragged_row [] rows i = []"
| "ragged_row (d # ds) rows i = nth_or_missing (cd_type d) (column_values rows 0) i # ragged_row ds (map tl rows) i"

lemma ragged_row_columns:
  "ragged_row ds rows i = map (\<lambda>c. nth_or_missing (cd_type (ds ! c)) (column_values rows c) i) [0..<length ds]"
proof (induction ds arbitrary: rows)
  case (Cons d ds)
  have "[0..<length (d # ds)] = 0 # map Suc [0..<length ds]" by (simp add: map_Suc_upt upt_conv_Cons del: upt_Suc)
  then show ?case using Cons.IH [of "map tl rows"] by (simp add: column_values_Suc del: upt_Suc)
qed simp

lemma read_cells_ragged:
  assumes "ragged_inv (map cd_type ds) cs rows" and "\<forall>r \<in> set rows. fits_prefix (map cd_type ds) r"
  shows "\<exists>cs'. read_cells ds cs rid = Inr (ragged_row ds rows (unat rid), cs')"
  using assms
proof (induction ds cs rid arbitrary: rows rule: read_cells.induct)
  case (3 d ds c cs rid)
  let ?ty = "cd_type d" and ?xs = "column_values rows 0"
  obtain cm where cm: "read_at (cs_cm c) rid (cell_size ?ty) =
      Inr (if unat rid < length ?xs then Some (take (unat (cell_size ?ty)) (cell_buf (?xs ! unat rid))) else None, cm)"
    using fixed_inv_read [of ?ty c "map cell_buf ?xs" rid] "3.prems"(1) by auto
  have "\<forall>x \<in> set ?xs. cell_ok ?ty x" using column_values_ok "3.prems"(2) by fastforce
  then have v: "cell_value ?ty (if unat rid < length ?xs then Some (take (unat (cell_size ?ty)) (cell_buf (?xs ! unat rid))) else None) =
      nth_or_missing ?ty ?xs (unat rid)"
    by (simp add: nth_or_missing_def cell_value_buf)
  have "\<forall>r \<in> set (map tl rows). fits_prefix (map cd_type ds) r" using "3.prems"(2) fits_prefix_tl by fastforce
  then obtain cs' where "read_cells ds cs rid = Inr (ragged_row ds (map tl rows) (unat rid), cs')"
    using "3.IH" [OF cm refl, of "map tl rows"] "3.prems"(1) by auto
  then show ?case using cm v by simp
qed auto

section \<open>The property\<close>

lemma insert_rows_ragged:
  assumes "schema_ok sc" and "\<not> has_pk sc" and "\<forall>r \<in> set rows. fits_prefix (map cd_type (sc_columns sc)) r"
    and "length rows \<le> 31500"
  shows "\<exists>t t'. table_open (disk_files contents) (disk_files idx) dir name sc = Inr t \<and>
    rfold (\<lambda>r t. insert_row t (map cell_db r)) rows t = Inr t' \<and> tb_schema t' = sc \<and>
    ragged_inv (map cd_type (sc_columns sc)) (tb_columns t') rows"
proof -
  let ?tys = "map cd_type (sc_columns sc)"
  obtain t where t: "table_open (disk_files contents) (disk_files idx) dir name sc = Inr t"
    "table_inv False t []" "tb_schema t = sc"
    using table_open_empty [OF assms(1), of contents idx dir name] assms(2) by auto
  have "\<exists>t'. rfold (\<lambda>r t. insert_row t (map cell_db r)) rows t = Inr t' \<and>
      (tb_schema t' = sc \<and> first_is_id sc = Inr False \<and> ?tys \<noteq> [] \<and> ragged_inv ?tys (tb_columns t') rows)"
  proof (rule rfold_invariant)
    show "tb_schema t = sc \<and> first_is_id sc = Inr False \<and> ?tys \<noteq> [] \<and> ragged_inv ?tys (tb_columns t) []"
      using t(2,3) ragged_inv_new by (auto simp: table_inv_def)
  next
    fix ys r zs and u :: table
    assume rows: "rows = ys @ r # zs"
      and u: "tb_schema u = sc \<and> first_is_id sc = Inr False \<and> ?tys \<noteq> [] \<and> ragged_inv ?tys (tb_columns u) ys"
    have "\<forall>ty \<in> set ?tys. length ys < cell_capacity ty"
      using rows assms(4) le_trans [OF _ cell_capacity_bound, of "Suc (length ys)"] by (simp add: Suc_le_eq)
    then obtain cs where "insert_values (tb_columns u) (map cell_db r) = Inr cs" "ragged_inv ?tys cs (ys @ [r])"
      using insert_values_ragged u assms(3) rows by fastforce
    moreover have "tb_columns u \<noteq> []" using u by (cases ?tys) auto
    ultimately show "\<exists>u'. insert_row u (map cell_db r) = Inr u' \<and>
        tb_schema u' = sc \<and> first_is_id sc = Inr False \<and> ?tys \<noteq> [] \<and> ragged_inv ?tys (tb_columns u') (ys @ [r])"
      using u by (simp add: insert_row_def)
  qed
  then show ?thesis using t(1) by blast
qed

text \<open>
  C25. Values of later rows move into rows that were given too few. For a table without a primary
  key and insertions of rows that each fit the first columns of the schema, every insertion
  succeeds, and the row read at \<open>rid\<close> has in column \<open>c\<close> the \<open>rid\<close>-th value that any insertion
  gave to column \<open>c\<close>, or a missing value when there were fewer.
\<close>

theorem short_rows_shift:
  assumes "schema_ok sc" and "\<not> has_pk sc" and "\<forall>r \<in> set rows. fits_prefix (map cd_type (sc_columns sc)) r"
    and "length rows \<le> 31500"
  shows "\<exists>t t' t''. table_open (disk_files contents) (disk_files idx) dir name sc = Inr t \<and>
    rfold (\<lambda>r t. insert_row t (map cell_db r)) rows t = Inr t' \<and>
    materialize_row t' rid = Inr (map (\<lambda>c. nth_or_missing (cd_type (sc_columns sc ! c)) (column_values rows c) (unat rid))
        [0..<length (sc_columns sc)], t'')"
proof -
  obtain t t' where t: "table_open (disk_files contents) (disk_files idx) dir name sc = Inr t"
    "rfold (\<lambda>r t. insert_row t (map cell_db r)) rows t = Inr t'" "tb_schema t' = sc"
    "ragged_inv (map cd_type (sc_columns sc)) (tb_columns t') rows"
    using insert_rows_ragged [OF assms] by blast
  then show ?thesis
    using read_cells_ragged [OF t(4) assms(3), of rid] by (auto simp: materialize_row_def ragged_row_columns)
qed

definition pair_schema :: schema where
  "pair_schema = \<lparr>sc_columns = [\<lparr>cd_name = ''K'', cd_terminated = True, cd_type = CT_DECIMAL\<rparr>,
     \<lparr>cd_name = ''NAME'', cd_terminated = True, cd_type = CT_VARCHAR\<rparr>]\<rparr>"

theorem short_rows_shift_witness:
  "\<exists>t t' t''. table_open (disk_files (\<lambda>_ _. zero_page)) (disk_files (\<lambda>_ _. fresh_node LEAF)) ''data'' ''T'' pair_schema = Inr t \<and>
     rfold (\<lambda>r t. insert_row t (map cell_db r)) [[CNum 7], [CNum 9, CStr ''Bob'']] t = Inr t' \<and>
     materialize_row t' 0 = Inr (map cell_db [CNum 7, CStr ''Bob''], t'')"
proof -
  let ?rows = "[[CNum 7], [CNum 9, CStr ''Bob'']]"
  have pre: "schema_ok pair_schema" "\<not> has_pk pair_schema"
    "\<forall>r \<in> set ?rows. fits_prefix (map cd_type (sc_columns pair_schema)) r" "length ?rows \<le> 31500"
    by (simp_all add: schema_ok_def has_pk_def pair_schema_def char_nat_def)
  have "map (\<lambda>c. nth_or_missing (cd_type (sc_columns pair_schema ! c)) (column_values ?rows c) (unat (0 :: u64)))
      [0..<length (sc_columns pair_schema)] = map cell_db [CNum 7, CStr ''Bob'']"
    by (simp add: nth_or_missing_def column_values_def pair_schema_def)
  then show ?thesis
    using short_rows_shift [OF pre, of "\<lambda>_ _. zero_page" "\<lambda>_ _. fresh_node LEAF" "''data''" "''T''" 0] by simp
qed

end
