(* ===== verification/VarcharJoin.thy ===== *)
theory VarcharJoin
  imports JoinProofs
begin

text \<open>
  A join on a VARCHAR column. \<open>HashJoin::join\<close> reads eight bytes per key whatever the type of
  the column, and \<open>ColumnReader::read_at\<close> takes the distance of the items from the size it is
  given. In a VARCHAR column, whose items are 128 bytes apart, the key of row \<open>i\<close> is therefore
  the \<open>i mod 16\<close>-th group of eight bytes of row \<open>i div 16\<close>.
\<close>

lemma page_bytes_sub:
  "k + n \<le> m \<Longrightarrow> page_bytes pg (off + k) n = take n (drop k (page_bytes pg off m))"
  by (simp add: page_bytes_def take_map drop_map drop_upt take_upt add.assoc)

text \<open>The eight bytes that the reader takes for row \<open>i\<close>.\<close>

definition slot_bytes :: "u8 list list \<Rightarrow> nat \<Rightarrow> u8 list" where
  "slot_bytes xs i = take 8 (drop (8 * (i mod 16)) (xs ! (i div 16)))"

lemma read_slot_eighth:
  assumes ok: "fixed_ok 128 page (i div 16) x" and i: "i < 511" and x: "length x = 128"
  shows "read_slot page (of_nat i) 8 8 = Inr (take 8 (drop (8 * (i mod 16)) x))"
proof -
  have "unat (128 :: u16) = 128" by simp
  then have "page_bytes page (8 + i div 16 * 128) 128 = x" using ok x unfolding fixed_ok_def by simp
  moreover have "8 + i * 8 = (8 + i div 16 * 128) + 8 * (i mod 16)"
    using div_mult_mod_eq [of i 16] by linarith
  moreover have "8 * (i mod 16) + 8 \<le> 128" using mod_less_divisor [of 16 i] by linarith
  ultimately have "page_bytes page (8 + i * 8) 8 = take 8 (drop (8 * (i mod 16)) x)"
    using page_bytes_sub [of "8 * (i mod 16)" 8 128 page "8 + i div 16 * 128"]
    by (simp add: add.assoc)
  moreover have "unat (of_nat i * 8 :: u32) = i * 8" using i by (simp add: unat_word_ariths unat_of_nat)
  ultimately show ?thesis using i by (simp add: read_slot_def Let_def page_read_def)
qed

lemma varchar_inv: "fixed_inv 128 s xs \<longleftrightarrow> f128.col_inv s xs"
  by (simp add: fixed_inv_def)

lemma fixed_inv_read_eighth:
  assumes inv: "fixed_inv 128 s xs" and len: "length xs \<le> 31" "i < length xs" and x: "\<forall>x \<in> set xs. length x = 128"
  shows "\<exists>c. read_at (cs_cm s) (of_nat i) 8 = Inr (Some (slot_bytes xs i), c) \<and> cm_inv c \<and>
           cm_mem c = cm_mem (cs_cm s) \<and> cm_npages c = cm_npages (cs_cm s)"
proof -
  have m: "4088 div unat (128 :: u16) = 31" by simp
  let ?c = "cs_cm s"
  note holds = f128.col_inv_holds [OF inv [unfolded varchar_inv]]
  note h = holds [unfolded f128.holds_def, unfolded m]
  have "unat (cm_npages ?c) = 1" using h len by (cases "unat (cm_npages ?c)" rule: nat.exhaust) auto
  then have np: "cm_npages ?c = 1" by (simp add: word_unat_eq_iff)
  have "f128.page_holds (cm_mem ?c 0) xs" using h np len(1) by simp
  note page = this [unfolded f128.page_holds_def]
  have "i div 16 < length xs" using len(2) div_le_dividend [of i 16] by linarith
  then have ok: "fixed_ok 128 (cm_mem ?c 0) (i div 16) (xs ! (i div 16))" "length (xs ! (i div 16)) = 128"
    using page x by simp_all
  have items: "unat (hdr_items (cm_mem ?c 0)) = length xs" using page by simp
  obtain c where c: "cm_get_page ?c 0 = Inr (Some (page_addr 0), c)" "cm_deref c (Some (page_addr 0)) = Inr (cm_mem ?c 0)"
    "f128.holds c xs" "cm_mem c = cm_mem ?c" "cm_npages c = cm_npages ?c"
    using f128.fetch_page [OF holds, of 0] np by auto
  define rid where "rid = (of_nat i :: u64)"
  have i: "i < 511" "unat rid = i" using len by (simp_all add: rid_def unat_of_nat)
  then have "rid div 511 = 0" by (simp add: word_unat_eq_iff unat_div)
  moreover have "rid < ucast (hdr_items (cm_mem ?c 0))"
    using items len i(2) by (simp add: word_less_nat_alt)
  moreover have "(ucast rid :: u32) = of_nat (unat rid)" by simp
  ultimately have "read_at ?c rid 8 = Inr (Some (slot_bytes xs i), c)"
    using np c(1,2) i(2) read_slot_eighth [OF ok(1) i(1) ok(2)] by (simp add: read_at_def Let_def slot_bytes_def)
  moreover have "cm_inv c" using c(3) unfolding f128.holds_def by blast
  ultimately show ?thesis using c(4,5) by (auto simp: rid_def)
qed

section \<open>The keys of a VARCHAR column\<close>

lemma fixed_inv_same:
  assumes "fixed_inv (cell_size ty) s xs" and "cm_inv c" "cm_mem c = cm_mem (cs_cm s)" "cm_npages c = cm_npages (cs_cm s)"
  shows "fixed_inv (cell_size ty) (s\<lparr>cs_cm := c\<rparr>) xs"
  using assms by (simp add: fixed_inv_def slot_format.col_inv_def [OF cell_format])

lemma keeps_column:
  assumes t: "tabs n = Some t" and c: "c < length (sc_columns (tb_schema t))"
    and cm: "cm_inv cm" "cm_mem cm = cm_mem (cs_cm (tb_columns t ! c))" "cm_npages cm = cm_npages (cs_cm (tb_columns t ! c))"
  shows "keeps tabs (tabs(n \<mapsto> t\<lparr>tb_columns := (tb_columns t)[c := (tb_columns t ! c)\<lparr>cs_cm := cm\<rparr>]\<rparr>))"
proof (rule keeps_upd [of tabs n t, OF t])
  fix pk rows assume inv: "table_inv pk t rows"
  then have "cols_inv (table_types t) (tb_columns t) rows" "rows_ok (table_types t) rows"
    by (simp_all add: table_inv_def)
  note nth = cols_inv_nth [OF this, of c]
  then have "cols_inv (table_types t) ((tb_columns t)[c := (tb_columns t ! c)\<lparr>cs_cm := cm\<rparr>]) rows"
    using fixed_inv_same [OF _ cm] c by simp
  then show "table_inv pk (t\<lparr>tb_columns := (tb_columns t)[c := (tb_columns t ! c)\<lparr>cs_cm := cm\<rparr>]\<rparr>) rows"
    using inv by (simp add: table_inv_def)
qed simp

definition slot_keys :: "cell list list \<Rightarrow> nat \<Rightarrow> nat \<Rightarrow> u64" where
  "slot_keys rows c i = dec64 (slot_bytes (map (\<lambda>r. cell_buf (r ! c)) rows) i)"

lemma reads_keys_varchar:
  assumes ok: "tab_ok tabs n sc pk rows" and c: "c < length (sc_columns sc)" "cd_type (sc_columns sc ! c) = CT_VARCHAR"
    and len: "length rows \<le> 31"
  shows "reads_keys tabs n c (length rows) (slot_keys rows c)"
  unfolding reads_keys_def
proof (intro allI impI)
  fix tabs' i assume k: "keeps tabs tabs'" and i: "i < length rows"
  obtain t where t: "tabs' n = Some t" "tb_schema t = sc" "table_inv pk t rows"
    using keepsD [OF k ok] by (auto simp: tab_ok_def)
  let ?xs = "map (\<lambda>r. cell_buf (r ! c)) rows" and ?col = "tb_columns t ! c"
  have inv: "cols_inv (table_types t) (tb_columns t) rows" "rows_ok (table_types t) rows"
    using t(3) by (simp_all add: table_inv_def)
  have ty: "c < length (table_types t)" "table_types t ! c = CT_VARCHAR" using t(2) c by simp_all
  note nth = cols_inv_nth [OF inv ty(1)]
  have "length (cell_buf (r ! c)) = 128" if r: "r \<in> set rows" for r
    using inv(2) r ty(1) length_cell_buf list_all2_nthD by (fastforce simp: rows_ok_def)
  then have bufs: "\<forall>x \<in> set ?xs. length x = 128" by auto
  have "fixed_inv 128 ?col ?xs" using nth ty(2) by (simp add: cell_size_def)
  from fixed_inv_read_eighth [OF this _ _ bufs, of i]
  obtain cm where cm: "read_at (cs_cm ?col) (of_nat i) 8 = Inr (Some (slot_bytes ?xs i), cm)" "cm_inv cm"
    "cm_mem cm = cm_mem (cs_cm ?col)" "cm_npages cm = cm_npages (cs_cm ?col)"
    using len i by auto
  have keeps: "keeps tabs' (tabs'(n \<mapsto> t\<lparr>tb_columns := (tb_columns t)[c := ?col\<lparr>cs_cm := cm\<rparr>]\<rparr>))"
    using keeps_column [of tabs' n t c cm] t(1,2) c(1) cm(2-4) by simp
  have "take 8 (slot_bytes ?xs i) = slot_bytes ?xs i" by (simp add: slot_bytes_def)
  moreover have "get_column t c = Some ?col" using nth by (simp add: get_column_def)
  ultimately have "read_key n c (of_nat i) tabs' = Inr (Some (slot_keys rows c i),
      tabs'(n \<mapsto> t\<lparr>tb_columns := (tb_columns t)[c := ?col\<lparr>cs_cm := cm\<rparr>]\<rparr>))"
    using t(1) cm(1) by (simp add: read_key_def table_of_def slot_keys_def)
  then show "\<exists>tabs''. read_key n c (of_nat i) tabs' = Inr (Some (slot_keys rows c i), tabs'') \<and> keeps tabs' tabs''"
    using keeps by blast
qed

section \<open>Short texts\<close>

lemma pad8_inj:
  assumes "\<forall>c \<in> set a. char_nat c \<noteq> 0" "\<forall>c \<in> set b. char_nat c \<noteq> 0" "length a \<le> 8" "length b \<le> 8"
  shows "dec64 (pad_to 8 (str_bytes a)) = dec64 (pad_to 8 (str_bytes b)) \<longleftrightarrow> a = b"
proof -
  have "length (pad_to 8 (str_bytes a)) = 8" "length (pad_to 8 (str_bytes b)) = 8"
    using assms by (simp_all add: pad_to_def str_bytes_def)
  then have "dec64 (pad_to 8 (str_bytes a)) = dec64 (pad_to 8 (str_bytes b)) \<longleftrightarrow>
      pad_to 8 (str_bytes a) = pad_to 8 (str_bytes b)" by (rule c64.dec_inj)
  also have "\<dots> \<longleftrightarrow> a = b"
    using bytes_str_pad [OF assms(1)] bytes_str_pad [OF assms(2)] by (metis append.assoc pad_to_def)
  finally show ?thesis .
qed

lemma pad8_zero: "dec64 (pad_to 8 (str_bytes [])) = 0"
  by (simp add: pad_to_def str_bytes_def dec64_def numeral_eq_Suc)

text \<open>The keys of a table of up to 16 rows whose first text is short: its own for row 0, zero for all others.\<close>

lemma slot_keys_short:
  assumes "rows ! 0 ! c = CStr a" "length a \<le> 8" "length rows \<le> 16" "i < length rows"
  shows "slot_keys rows c i = (if i = 0 then dec64 (pad_to 8 (str_bytes a)) else 0)"
proof -
  have i: "i < 16" using assms(3,4) by simp
  have "0 < length rows" using assms(4) by linarith
  then have first: "map (\<lambda>r. cell_buf (r ! c)) rows ! 0 = cell_buf (rows ! 0 ! c)" by (rule nth_map)
  have "slot_bytes (map (\<lambda>r. cell_buf (r ! c)) rows) i = take 8 (drop (8 * i) (pad_to 128 (str_bytes a)))"
    using first assms(1) i by (simp add: slot_bytes_def)
  moreover have "take 8 (pad_to 128 (str_bytes a)) = pad_to 8 (str_bytes a)"
    using assms(2) by (simp add: pad_to_def str_bytes_def)
  moreover have "take 8 (drop (8 * i) (pad_to 128 (str_bytes a))) = pad_to 8 (str_bytes [])" if "0 < i"
    using that i assms(2) by (simp add: pad_to_def str_bytes_def min_def)
  ultimately show ?thesis using pad8_zero by (simp add: slot_keys_def)
qed

lemma upt_head: "0 < n \<Longrightarrow> [0..<n] = 0 # map Suc [0..<n - 1]"
  by (cases n) (simp_all add: map_Suc_upt upt_conv_Cons del: upt_Suc)

lemma concat_joined_rest:
  assumes "rows1 \<noteq> []" and "joined rows1 K1 rows2 K2 0 = []"
    and "\<And>i. 0 < i \<Longrightarrow> i < length rows1 \<Longrightarrow> joined rows1 K1 rows2 K2 i = map (\<lambda>r2. rows1 ! i @ r2) (tl rows2)"
  shows "concat (map (joined rows1 K1 rows2 K2) [0..<length rows1]) = [r1 @ r2. r1 \<leftarrow> tl rows1, r2 \<leftarrow> tl rows2]"
proof -
  have "[0..<length rows1] = 0 # map Suc [0..<length rows1 - 1]"
    using assms(1) by (simp add: upt_head)
  then have "concat (map (joined rows1 K1 rows2 K2) [0..<length rows1]) =
      concat (map (\<lambda>i. map (\<lambda>r2. rows1 ! Suc i @ r2) (tl rows2)) [0..<length rows1 - 1])"
    using assms(2,3) by (auto intro!: arg_cong [of _ _ concat])
  also have "map (\<lambda>i. map (\<lambda>r2. rows1 ! Suc i @ r2) (tl rows2)) [0..<length rows1 - 1] =
      map (\<lambda>r1. map (\<lambda>r2. r1 @ r2) (tl rows2)) (tl rows1)"
    by (rule nth_equalityI) (auto simp: nth_tl)
  finally show ?thesis by simp
qed

section \<open>The property\<close>

text \<open>
  C24. A join on VARCHAR columns pairs the wrong rows. For tables of up to 16 rows whose first
  texts in the join columns are non-empty, different and of at most eight characters, the
  result is every row but the first of the left table with every row but the first of the
  right table, whatever their texts; an equal text in a first row is never found.
\<close>

theorem varchar_join_wrong_rows:
  assumes ok1: "tab_ok tabs n1 sc1 pk1 rows1" and ok2: "tab_ok tabs n2 sc2 pk2 rows2"
    and c1: "find_column (sc_columns sc1) col1 = Inr (Some c1)" "c1 < length (sc_columns sc1)"
      "cd_type (sc_columns sc1 ! c1) = CT_VARCHAR"
    and c2: "find_column (sc_columns sc2) col2 = Inr (Some c2)" "c2 < length (sc_columns sc2)"
      "cd_type (sc_columns sc2 ! c2) = CT_VARCHAR"
    and rows1: "rows1 \<noteq> []" "length rows1 \<le> 16" "rows1 ! 0 ! c1 = CStr a" "a \<noteq> []" "length a \<le> 8"
    and rows2: "rows2 \<noteq> []" "length rows2 \<le> 16" "rows2 ! 0 ! c2 = CStr b" "b \<noteq> []" "length b \<le> 8"
    and diff: "a \<noteq> b"
  shows "\<exists>tabs'. hash_join tabs n1 n2 col1 col2 =
      Inr (map (map cell_db) [r1 @ r2. r1 \<leftarrow> tl rows1, r2 \<leftarrow> tl rows2], tabs')"
proof -
  let ?K1 = "slot_keys rows1 c1" and ?K2 = "slot_keys rows2 c2"
  obtain t1 t2 where t: "tb_schema t1 = sc1" "table_inv pk1 t1 rows1" "tb_schema t2 = sc2" "table_inv pk2 t2 rows2"
    using ok1 ok2 by (auto simp: tab_ok_def)
  have "cell_ok CT_VARCHAR (CStr a)" "cell_ok CT_VARCHAR (CStr b)"
    using rows_ok_nth [of "table_types t1" rows1 0 c1] rows_ok_nth [of "table_types t2" rows2 0 c2]
      t c1(2,3) c2(2,3) rows1(1,3) rows2(1,3) by (auto simp: table_inv_def)
  then have chars: "\<forall>c \<in> set a. char_nat c \<noteq> 0" "\<forall>c \<in> set b. char_nat c \<noteq> 0" by simp_all
  have K1: "?K1 i = (if i = 0 then dec64 (pad_to 8 (str_bytes a)) else 0)" if "i < length rows1" for i
    using slot_keys_short [OF rows1(3,5,2) that] .
  have K2: "?K2 j = (if j = 0 then dec64 (pad_to 8 (str_bytes b)) else 0)" if "j < length rows2" for j
    using slot_keys_short [OF rows2(3,5,2) that] .
  have ne: "dec64 (pad_to 8 (str_bytes a)) \<noteq> 0" "dec64 (pad_to 8 (str_bytes b)) \<noteq> 0"
    "dec64 (pad_to 8 (str_bytes b)) \<noteq> dec64 (pad_to 8 (str_bytes a))"
    using pad8_inj [OF chars(1), of "[]"] pad8_inj [OF chars(2), of "[]"] pad8_inj [OF chars(2,1)]
      pad8_zero rows1(4,5) rows2(4,5) diff by auto
  have "joined rows1 ?K1 rows2 ?K2 0 = []"
    using K1 [of 0] K2 ne rows1(1) by (auto simp: joined_def bucket_def filter_empty_conv)
  moreover have "joined rows1 ?K1 rows2 ?K2 i = map (\<lambda>r2. rows1 ! i @ r2) (tl rows2)"
    if i: "0 < i" "i < length rows1" for i
  proof -
    have "bucket ?K2 (length rows2) 0 = filter (\<lambda>j. j \<noteq> 0) [0..<length rows2]"
      unfolding bucket_def using K2 ne(2) by (intro filter_cong) auto
    also have "\<dots> = map Suc [0..<length rows2 - 1]"
      using rows2(1) upt_head [of "length rows2"] by (simp add: filter_id_conv)
    finally show ?thesis
      using K1 [OF i(2)] i(1) by (simp add: joined_def) (rule nth_equalityI, auto simp: nth_tl)
  qed
  ultimately have "concat (map (joined rows1 ?K1 rows2 ?K2) [0..<length rows1]) = [r1 @ r2. r1 \<leftarrow> tl rows1, r2 \<leftarrow> tl rows2]"
    using concat_joined_rest [OF rows1(1)] by blast
  then show ?thesis
    using hash_join_keys [OF ok1 ok2 c1(1,2) _ c2(1,2), of ?K1 ?K2] reads_keys_varchar [OF ok1 c1(2,3)]
      reads_keys_varchar [OF ok2 c2(2,3)] rows1(2) rows2(2) by auto
qed

theorem varchar_join_wrong_rows_witness:
  "\<exists>tabs tabs'. hash_join tabs ''A'' ''B'' ''NAME'' ''NAME'' = Inr (map (map cell_db)
     [[CNum 9, CStr ''Bob'', CNum 4, CStr ''Ann'']], tabs')"
proof -
  let ?r1 = "[[CNum 7, CStr ''Ann''], [CNum 9, CStr ''Bob'']]" and ?r2 = "[[CNum 3, CStr ''Bob''], [CNum 4, CStr ''Ann'']]"
  obtain a b where ab: "tb_schema a = demo_schema" "table_inv True a ?r1" "tb_schema b = demo_schema" "table_inv True b ?r2"
    using demo_table [of ?r1] demo_table [of ?r2]
    by (auto simp: demo_schema_def rows_ok_def char_nat_def)
  let ?tabs = "[''A'' \<mapsto> a, ''B'' \<mapsto> b]"
  have ok: "tab_ok ?tabs ''A'' demo_schema True ?r1" "tab_ok ?tabs ''B'' demo_schema True ?r2"
    using ab by (simp_all add: tab_ok_def)
  have col: "find_column (sc_columns demo_schema) ''NAME'' = Inr (Some 1)" "1 < length (sc_columns demo_schema)"
    "cd_type (sc_columns demo_schema ! 1) = CT_VARCHAR"
    by (simp_all add: demo_schema_def col_name_def)
  show ?thesis
    using varchar_join_wrong_rows [OF ok col col, of "''Ann''" "''Bob''"] by auto
qed

end
