(* ===== verification/EarlierTree.thy ===== *)
theory EarlierTree
  imports BPTreeProofs
begin

text \<open>
  The earlier B+ tree (\<open>src/src/index/btree.cpp\<close>), over the same pager and page cache.

  Its node type, \<open>BPTreeNode\<close>, and the constant \<open>BPTREE_ORDER\<close> come from \<open>index/btree.h\<close>,
  which the repository does not have. They are a parameter of the model: a \<open>node_layout\<close> has
  one function per member the code reads and one per member it writes, the number of elements
  of \<open>keys\<close> and \<open>values\<close>, that of \<open>children\<close>, and the order. That members are separate cells
  of the struct (a read gives what was last written to that member) and that the arrays hold
  at least \<open>BPTREE_ORDER\<close> elements are the laws of the locale \<open>node_struct\<close>. An array access
  past the end is \<open>OutOfBounds\<close>, a node behind a null pointer \<open>NullDeref\<close>.
\<close>

section \<open>The node as the code uses it\<close>

record 'p node_layout =
  nl_is_leaf :: "'p \<Rightarrow> bool"
  nl_set_leaf :: "'p \<Rightarrow> 'p"
  nl_num_keys :: "'p \<Rightarrow> nat"
  nl_set_num_keys :: "nat \<Rightarrow> 'p \<Rightarrow> 'p"
  nl_next :: "'p \<Rightarrow> u32"
  nl_set_next :: "u32 \<Rightarrow> 'p \<Rightarrow> 'p"
  nl_key :: "'p \<Rightarrow> nat \<Rightarrow> u64"
  nl_set_key :: "nat \<Rightarrow> u64 \<Rightarrow> 'p \<Rightarrow> 'p"
  nl_value :: "'p \<Rightarrow> nat \<Rightarrow> u64"
  nl_set_value :: "nat \<Rightarrow> u64 \<Rightarrow> 'p \<Rightarrow> 'p"
  nl_child :: "'p \<Rightarrow> nat \<Rightarrow> u32"
  nl_cap :: nat
  nl_child_cap :: nat
  nl_order :: nat

record 'p etree =
  et_cm :: "'p cachemgr"
  et_root :: u32

section \<open>The operations\<close>

definition et_open :: "'p node_layout \<Rightarrow> 'p pager \<Rightarrow> 'p etree res" where
  "et_open L pg =
     (let (pid, s1) = cm_allocate (cm_new pg 1024) in
      rbind (cm_get_page s1 pid) (\<lambda>(p, s2).
        rbind (cm_deref s2 p) (\<lambda>node.
          rbind (cm_assign s2 p (nl_set_next L 0 (nl_set_num_keys L 0 (nl_set_leaf L node)))) (\<lambda>s3.
            Inr \<lparr>et_cm = s3, et_root = pid\<rparr>))))"

text \<open>\<open>while (i < num_keys && key >= keys[i]) i++;\<close>\<close>

function et_scan :: "'p node_layout \<Rightarrow> 'p \<Rightarrow> u64 \<Rightarrow> nat \<Rightarrow> nat res" where
  "et_scan L node key i =
     (if i < nl_num_keys L node
      then if i \<ge> nl_cap L then Inl OutOfBounds
           else if key \<ge> nl_key L node i then et_scan L node key (Suc i) else Inr i
      else Inr i)"
  by pat_completeness auto
termination
  by (relation "measure (\<lambda>(L, node, key, i). nl_num_keys L node - i)") auto

declare et_scan.simps [simp del]

fun et_descend :: "'p node_layout \<Rightarrow> nat \<Rightarrow> 'p cachemgr \<Rightarrow> u64 \<Rightarrow> u32 \<Rightarrow> (u32 \<times> 'p cachemgr) res" where
  "et_descend L 0 s key pid = Inl Diverges"
| "et_descend L (Suc fuel) s key pid =
     rbind (cm_get_page s pid) (\<lambda>(p, s1).
       rbind (cm_deref s1 p) (\<lambda>node.
         if nl_is_leaf L node then Inr (pid, s1)
         else rbind (et_scan L node key 0) (\<lambda>i.
           if i \<ge> nl_child_cap L then Inl OutOfBounds
           else et_descend L fuel s1 key (nl_child L node i))))"

definition et_find_leaf :: "'p node_layout \<Rightarrow> 'p etree \<Rightarrow> u64 \<Rightarrow> (u32 \<times> 'p etree) res" where
  "et_find_leaf L t key =
     rbind (et_descend L (Suc (unat (cm_npages (et_cm t)))) (et_cm t) key (et_root t))
       (\<lambda>(pid, s). Inr (pid, t\<lparr>et_cm := s\<rparr>))"

text \<open>The loop of \<open>insert_into_leaf\<close>, from the right, with the index after the last one moved.\<close>

fun et_shift :: "'p node_layout \<Rightarrow> u64 \<Rightarrow> nat \<Rightarrow> 'p \<Rightarrow> nat \<times> 'p" where
  "et_shift L key 0 node = (0, node)"
| "et_shift L key (Suc i) node =
     (if nl_key L node i > key
      then let node1 = nl_set_key L (Suc i) (nl_key L node i) node;
               node2 = nl_set_value L (Suc i) (nl_value L node1 i) node1
           in et_shift L key i node2
      else (Suc i, node))"

definition et_put :: "'p node_layout \<Rightarrow> u64 \<Rightarrow> u64 \<Rightarrow> 'p \<Rightarrow> 'p" where
  "et_put L key val node =
     (let (i, node1) = et_shift L key (nl_num_keys L node) node;
          node2 = nl_set_value L i val (nl_set_key L i key node1)
      in nl_set_num_keys L (Suc (nl_num_keys L node2)) node2)"

definition et_insert_into_leaf :: "'p node_layout \<Rightarrow> 'p etree \<Rightarrow> u32 \<Rightarrow> u64 \<Rightarrow> u64 \<Rightarrow> 'p etree res" where
  "et_insert_into_leaf L t pid key val =
     rbind (cm_get_page (et_cm t) pid) (\<lambda>(p, s1).
       rbind (cm_deref s1 p) (\<lambda>node.
         if nl_num_keys L node \<ge> nl_cap L then Inl OutOfBounds
         else rbind (cm_assign s1 p (et_put L key val node)) (\<lambda>s2. Inr (t\<lparr>et_cm := s2\<rparr>))))"

text \<open>The loop of \<open>split_leaf\<close>, over the indices of the upper half.\<close>

fun et_move :: "'p node_layout \<Rightarrow> 'p \<Rightarrow> nat list \<Rightarrow> 'p \<Rightarrow> 'p res" where
  "et_move L node [] new_node = Inr new_node"
| "et_move L node (i # is) new_node =
     (if i \<ge> nl_cap L \<or> nl_num_keys L new_node \<ge> nl_cap L then Inl OutOfBounds
      else let n1 = nl_set_key L (nl_num_keys L new_node) (nl_key L node i) new_node;
               n2 = nl_set_value L (nl_num_keys L n1) (nl_value L node i) n1
           in et_move L node is (nl_set_num_keys L (Suc (nl_num_keys L n2)) n2))"

definition et_split_leaf :: "'p node_layout \<Rightarrow> 'p etree \<Rightarrow> u32 \<Rightarrow> 'p etree res" where
  "et_split_leaf L t pid =
     rbind (cm_get_page (et_cm t) pid) (\<lambda>(p, s1).
       let (new_pid, s2) = cm_allocate s1 in
       rbind (cm_get_page s2 new_pid) (\<lambda>(np, s3).
         rbind (cm_deref s3 np) (\<lambda>raw.
           rbind (cm_assign s3 np (nl_set_num_keys L 0 (nl_set_leaf L raw))) (\<lambda>s4.
             rbind (cm_deref s4 p) (\<lambda>node.
               rbind (cm_deref s4 np) (\<lambda>new_node.
                 let n = nl_num_keys L node; mid = n div 2 in
                 rbind (et_move L node [mid..<n] new_node) (\<lambda>new_node1.
                   rbind (cm_assign s4 np (nl_set_next L (nl_next L node) new_node1)) (\<lambda>s5.
                     rbind (cm_assign s5 p (nl_set_next L new_pid (nl_set_num_keys L mid node))) (\<lambda>s6.
                       rbind (cm_mark_dirty s6 pid) (\<lambda>s7.
                         rbind (cm_mark_dirty s7 new_pid) (\<lambda>s8.
                           Inr (t\<lparr>et_cm := s8\<rparr>))))))))))))"

definition et_insert :: "'p node_layout \<Rightarrow> 'p etree \<Rightarrow> u64 \<Rightarrow> u64 \<Rightarrow> 'p etree res" where
  "et_insert L t key row_id =
     rbind (et_find_leaf L t key) (\<lambda>(leaf, t1).
       rbind (et_insert_into_leaf L t1 leaf key row_id) (\<lambda>t2.
         rbind (cm_get_page (et_cm t2) leaf) (\<lambda>(p, s3).
           rbind (cm_deref s3 p) (\<lambda>node.
             rbind (if nl_num_keys L node \<ge> nl_order L then et_split_leaf L (t2\<lparr>et_cm := s3\<rparr>) leaf
                    else Inr (t2\<lparr>et_cm := s3\<rparr>)) (\<lambda>t4.
               rbind (cm_mark_dirty (et_cm t4) leaf) (\<lambda>s5. Inr (t4\<lparr>et_cm := s5\<rparr>)))))))"

function et_lookup :: "'p node_layout \<Rightarrow> 'p \<Rightarrow> u64 \<Rightarrow> nat \<Rightarrow> u64 option res" where
  "et_lookup L node key i =
     (if i < nl_num_keys L node
      then if i \<ge> nl_cap L then Inl OutOfBounds
           else if nl_key L node i = key then Inr (Some (nl_value L node i))
           else et_lookup L node key (Suc i)
      else Inr None)"
  by pat_completeness auto
termination
  by (relation "measure (\<lambda>(L, node, key, i). nl_num_keys L node - i)") auto

declare et_lookup.simps [simp del]

definition et_search :: "'p node_layout \<Rightarrow> 'p etree \<Rightarrow> u64 \<Rightarrow> (u64 option \<times> 'p etree) res" where
  "et_search L t key =
     rbind (et_find_leaf L t key) (\<lambda>(leaf, t1).
       rbind (cm_get_page (et_cm t1) leaf) (\<lambda>(p, s2).
         rbind (cm_deref s2 p) (\<lambda>node.
           rbind (et_lookup L node key 0) (\<lambda>r. Inr (r, t1\<lparr>et_cm := s2\<rparr>)))))"

end
