(* ===== verification/EarlierTreeProofs.thy ===== *)
theory EarlierTreeProofs
  imports EarlierTree
begin

text \<open>
  What the earlier B+ tree does. Its root is a leaf at the start and no statement ever gives
  it another type, so every operation works on the root page alone: the locale \<open>node_struct\<close>
  proves this for every node layout, the properties state it for searches after a sequence of
  insertions.
\<close>

section \<open>The laws of a struct\<close>

definition et_pairs :: "'p node_layout \<Rightarrow> 'p \<Rightarrow> (u64 \<times> u64) list" where
  "et_pairs L node = map (\<lambda>i. (nl_key L node i, nl_value L node i)) [0..<nl_num_keys L node]"

definition et_entries :: "'p node_layout \<Rightarrow> 'p etree \<Rightarrow> (u64 \<times> u64) list" where
  "et_entries L t = et_pairs L (cm_mem (et_cm t) (unat (et_root t)))"

definition et_inv :: "'p node_layout \<Rightarrow> 'p etree \<Rightarrow> bool" where
  "et_inv L t \<longleftrightarrow> cm_inv (et_cm t) \<and> et_root t < cm_npages (et_cm t) \<and> unat (et_root t) < max_pages \<and>
     nl_is_leaf L (cm_mem (et_cm t) (unat (et_root t))) \<and>
     length (et_entries L t) < nl_order L \<and> sorted (map fst (et_entries L t))"

text \<open>
  The specification: a sorted list; when an insertion makes it as long as the order, its upper
  half is gone.
\<close>

definition half_insert :: "nat \<Rightarrow> u64 \<times> u64 \<Rightarrow> (u64 \<times> u64) list \<Rightarrow> (u64 \<times> u64) list" where
  "half_insert order kv xs =
     (let ys = at_leaf_insert (fst kv) (snd kv) xs
      in if length ys \<ge> order then take (length ys div 2) ys else ys)"

definition half_inserts :: "nat \<Rightarrow> (u64 \<times> u64) list \<Rightarrow> (u64 \<times> u64) list" where
  "half_inserts order kvs = fold (half_insert order) kvs []"

text \<open>A run of \<open>insert\<close> calls from the first to the last pair.\<close>

definition et_inserts :: "'p node_layout \<Rightarrow> (u64 \<times> u64) list \<Rightarrow> 'p etree \<Rightarrow> 'p etree res" where
  "et_inserts L kvs t = rfold (\<lambda>(k, v) t. et_insert L t k v) kvs t"

locale node_struct =
  fixes L :: "'p node_layout"
  assumes order_pos: "0 < nl_order L"
    and order_le: "nl_order L \<le> nl_cap L"
    and leaf_laws: "nl_is_leaf L (nl_set_leaf L p)"
      "nl_is_leaf L (nl_set_num_keys L n p) \<longleftrightarrow> nl_is_leaf L p"
      "nl_is_leaf L (nl_set_next L q p) \<longleftrightarrow> nl_is_leaf L p"
      "i < nl_cap L \<Longrightarrow> nl_is_leaf L (nl_set_key L i k p) \<longleftrightarrow> nl_is_leaf L p"
      "i < nl_cap L \<Longrightarrow> nl_is_leaf L (nl_set_value L i k p) \<longleftrightarrow> nl_is_leaf L p"
    and num_keys_laws: "n \<le> nl_cap L \<Longrightarrow> nl_num_keys L (nl_set_num_keys L n p) = n"
      "nl_num_keys L (nl_set_next L q p) = nl_num_keys L p"
      "i < nl_cap L \<Longrightarrow> nl_num_keys L (nl_set_key L i k p) = nl_num_keys L p"
      "i < nl_cap L \<Longrightarrow> nl_num_keys L (nl_set_value L i k p) = nl_num_keys L p"
    and key_laws: "i < nl_cap L \<Longrightarrow> j < nl_cap L \<Longrightarrow>
        nl_key L (nl_set_key L i k p) j = (if j = i then k else nl_key L p j)"
      "i < nl_cap L \<Longrightarrow> j < nl_cap L \<Longrightarrow> nl_key L (nl_set_value L i k p) j = nl_key L p j"
      "j < nl_cap L \<Longrightarrow> nl_key L (nl_set_num_keys L n p) j = nl_key L p j"
      "j < nl_cap L \<Longrightarrow> nl_key L (nl_set_next L q p) j = nl_key L p j"
    and value_laws: "i < nl_cap L \<Longrightarrow> j < nl_cap L \<Longrightarrow>
        nl_value L (nl_set_value L i k p) j = (if j = i then k else nl_value L p j)"
      "i < nl_cap L \<Longrightarrow> j < nl_cap L \<Longrightarrow> nl_value L (nl_set_key L i k p) j = nl_value L p j"
      "j < nl_cap L \<Longrightarrow> nl_value L (nl_set_num_keys L n p) j = nl_value L p j"
      "j < nl_cap L \<Longrightarrow> nl_value L (nl_set_next L q p) j = nl_value L p j"

lemma gap_pos_cong: "(\<And>j. j < n \<Longrightarrow> f j = g j) \<Longrightarrow> gap_pos key n f = gap_pos key n g"
  by (induction n) auto

lemma length_et_pairs [simp]: "length (et_pairs L node) = nl_num_keys L node"
  by (simp add: et_pairs_def)

lemma fst_et_pairs: "map fst (et_pairs L node) = map (nl_key L node) [0..<nl_num_keys L node]"
  by (simp add: et_pairs_def comp_def)

lemma et_pairs_zip: "et_pairs L node = zip (map (nl_key L node) [0..<nl_num_keys L node])
    (map (nl_value L node) [0..<nl_num_keys L node])"
  by (simp add: et_pairs_def zip_map_map zip_same_conv_map)

section \<open>The loops on a node\<close>

lemma et_lookup_eq:
  "nl_num_keys L node \<le> nl_cap L \<Longrightarrow> i \<le> nl_num_keys L node \<Longrightarrow>
   et_lookup L node key i = Inr (map_of (drop i (et_pairs L node)) key)"
proof (induction L node key i rule: et_lookup.induct)
  case (1 L node key i)
  show ?case
  proof (cases "i < nl_num_keys L node")
    case True
    then have "drop i (et_pairs L node) = (nl_key L node i, nl_value L node i) # drop (Suc i) (et_pairs L node)"
      by (subst Cons_nth_drop_Suc [symmetric]) (simp_all add: et_pairs_def)
    then show ?thesis using True 1 by (subst et_lookup.simps) auto
  next
    case False
    then show ?thesis using 1 by (subst et_lookup.simps) simp
  qed
qed

context node_struct
begin

lemmas laws = leaf_laws num_keys_laws key_laws value_laws

lemma shift_spec:
  assumes "n < nl_cap L" and "et_shift L key n node = (i, node')"
  shows "i = gap_pos key n (nl_key L node) \<and> nl_is_leaf L node' = nl_is_leaf L node \<and>
    nl_num_keys L node' = nl_num_keys L node \<and>
    (\<forall>j < nl_cap L. nl_key L node' j = arr_shift i n (nl_key L node) j \<and>
       nl_value L node' j = arr_shift i n (nl_value L node) j)"
  using assms
proof (induction n arbitrary: node)
  case (Suc n)
  show ?case
  proof (cases "key < nl_key L node n")
    case True
    define node2 where "node2 = nl_set_value L (Suc n) (nl_value L node n)
        (nl_set_key L (Suc n) (nl_key L node n) node)"
    have n: "Suc n < nl_cap L" "n < nl_cap L" using Suc.prems(1) by simp_all
    have k2: "j < nl_cap L \<Longrightarrow> nl_key L node2 j = (if j = Suc n then nl_key L node n else nl_key L node j)"
      "j < nl_cap L \<Longrightarrow> nl_value L node2 j = (if j = Suc n then nl_value L node n else nl_value L node j)" for j
      using n by (simp_all add: node2_def laws)
    have g: "gap_pos key n (nl_key L node2) = gap_pos key n (nl_key L node)"
      using n k2 by (intro gap_pos_cong) auto
    have "et_shift L key n node2 = (i, node')"
      using Suc.prems(2) True n by (simp add: node2_def laws Let_def)
    from Suc.IH [OF n(2) this] have IH: "i = gap_pos key n (nl_key L node)"
      "nl_is_leaf L node' = nl_is_leaf L node2" "nl_num_keys L node' = nl_num_keys L node2"
      "\<And>j. j < nl_cap L \<Longrightarrow> nl_key L node' j = arr_shift i n (nl_key L node2) j \<and>
         nl_value L node' j = arr_shift i n (nl_value L node2) j"
      using g by simp_all
    have "i \<le> n" using IH(1) gap_pos_le by simp
    then have "arr_shift i n (nl_key L node2) j = arr_shift i (Suc n) (nl_key L node) j"
      "arr_shift i n (nl_value L node2) j = arr_shift i (Suc n) (nl_value L node) j"
      if "j < nl_cap L" for j
      using that n k2 by (auto simp: arr_shift_def)
    then show ?thesis using IH True n by (simp add: node2_def laws)
  next
    case False
    then show ?thesis using Suc.prems by auto
  qed
qed auto

lemma put_spec:
  assumes n: "nl_num_keys L node < nl_cap L" and s: "sorted (map fst (et_pairs L node))"
  shows "et_pairs L (et_put L key val node) = at_leaf_insert key val (et_pairs L node)"
    and "nl_is_leaf L (et_put L key val node) = nl_is_leaf L node"
proof -
  let ?n = "nl_num_keys L node"
  obtain i node1 where sh: "et_shift L key ?n node = (i, node1)" by fastforce
  note sp = shift_spec [OF n sh]
  have i: "i = ix (map fst (et_pairs L node)) key" "i \<le> ?n"
    using sp gap_pos_eq_ix [OF s [unfolded fst_et_pairs], of key] gap_pos_le [of key ?n "nl_key L node"]
    unfolding fst_et_pairs by simp_all
  let ?m = "et_put L key val node"
  have nk: "nl_num_keys L ?m = Suc ?n" and "nl_is_leaf L ?m = nl_is_leaf L node"
    using i sp n by (simp_all add: et_put_def sh laws)
  then show "nl_is_leaf L ?m = nl_is_leaf L node" by simp
  have "nl_key L ?m j = ((arr_shift i ?n (nl_key L node))(i := key)) j"
    "nl_value L ?m j = ((arr_shift i ?n (nl_value L node))(i := val)) j" if "j < Suc ?n" for j
    using that i sp n by (simp_all add: et_put_def sh laws)
  then have "map (nl_key L ?m) [0..<Suc ?n] = ins_at i key (map (nl_key L node) [0..<?n])"
    "map (nl_value L ?m) [0..<Suc ?n] = ins_at i val (map (nl_value L node) [0..<?n])"
    unfolding map_arr_shift [OF i(2), symmetric] by (auto simp del: upt_Suc)
  then show "et_pairs L ?m = at_leaf_insert key val (et_pairs L node)"
    using i by (simp add: et_pairs_zip [of L ?m] nk zip_ins_at at_leaf_insert_def et_pairs_zip del: upt_Suc)
qed

lemma move_total:
  assumes "nl_num_keys L new_node + length is \<le> nl_cap L" and "list_all (\<lambda>i. i < nl_cap L) is"
  shows "\<exists>new_node'. et_move L node is new_node = Inr new_node'"
  using assms by (induction "is" arbitrary: new_node) (auto simp: laws Let_def)

end

section \<open>The operations on the root page\<close>

lemma et_find_leaf_root:
  assumes "cm_inv (et_cm t)" and "et_root t < cm_npages (et_cm t)" and "unat (et_root t) < max_pages"
    and "nl_is_leaf L (cm_mem (et_cm t) (unat (et_root t)))"
  shows "\<exists>s. et_find_leaf L t key = Inr (et_root t, t\<lparr>et_cm := s\<rparr>) \<and> cm_inv s \<and>
           cm_mem s = cm_mem (et_cm t) \<and> cm_npages s = cm_npages (et_cm t)"
proof -
  obtain s where "cm_get_page (et_cm t) (et_root t) = Inr (Some (page_addr (et_root t)), s)"
    "cm_deref s (Some (page_addr (et_root t))) = Inr (cm_mem (et_cm t) (unat (et_root t)))"
    "cm_inv s" "cm_mem s = cm_mem (et_cm t)" "cm_npages s = cm_npages (et_cm t)"
    using cm.fetch [OF assms(1-3)] by blast
  then show ?thesis using assms(4) by (intro exI [of _ s]) (simp add: et_find_leaf_def)
qed

lemma et_insert_into_leaf_spec:
  assumes "cm_inv (et_cm t)" and "pid < cm_npages (et_cm t)" and "unat pid < max_pages"
    and "nl_num_keys L (cm_mem (et_cm t) (unat pid)) < nl_cap L"
  shows "\<exists>s. et_insert_into_leaf L t pid key val = Inr (t\<lparr>et_cm := s\<rparr>) \<and> cm_inv s \<and>
           cm_mem s = (cm_mem (et_cm t))(unat pid := et_put L key val (cm_mem (et_cm t) (unat pid))) \<and>
           cm_npages s = cm_npages (et_cm t)"
proof -
  let ?node = "cm_mem (et_cm t) (unat pid)"
  obtain s1 where s1: "cm_get_page (et_cm t) pid = Inr (Some (page_addr pid), s1)"
    "cm_deref s1 (Some (page_addr pid)) = Inr ?node"
    "cm_inv s1" "cm_mem s1 = cm_mem (et_cm t)" "cm_npages s1 = cm_npages (et_cm t)"
    using cm.fetch [OF assms(1-3)] by blast
  obtain s2 where "cm_assign s1 (Some (page_addr pid)) (et_put L key val ?node) = Inr s2" "cm_inv s2"
    "cm_mem s2 = (cm_mem s1)(unat pid := et_put L key val ?node)" "cm_npages s2 = cm_npages s1"
    using cm.assign_law [OF s1(3) assms(3)] by blast
  then show ?thesis using s1 assms(4) by (intro exI [of _ s2]) (simp add: et_insert_into_leaf_def not_le)
qed

context node_struct
begin

lemma split_spec:
  assumes inv: "cm_inv (et_cm t)" and pid: "pid < cm_npages (et_cm t)"
    and room: "unat (cm_npages (et_cm t)) < max_pages"
    and cap: "nl_num_keys L (cm_mem (et_cm t) (unat pid)) \<le> nl_cap L"
  shows "\<exists>s. et_split_leaf L t pid = Inr (t\<lparr>et_cm := s\<rparr>) \<and> cm_inv s \<and>
     cm_npages s = cm_npages (et_cm t) + 1 \<and>
     cm_mem s (unat pid) = (let node = cm_mem (et_cm t) (unat pid)
        in nl_set_next L (cm_npages (et_cm t)) (nl_set_num_keys L (nl_num_keys L node div 2) node))"
proof -
  let ?M = "cm_mem (et_cm t)" and ?np = "cm_npages (et_cm t)"
  define node where "node = ?M (unat pid)"
  define mid where "mid = nl_num_keys L node div 2"
  have p: "unat pid < max_pages" "unat pid \<noteq> unat ?np" using pid room by (auto simp: page_less_unat)
  obtain s1 where s1: "cm_get_page (et_cm t) pid = Inr (Some (page_addr pid), s1)"
    "cm_inv s1" "cm_mem s1 = ?M" "cm_npages s1 = ?np"
    using cm.fetch [OF inv pid p(1)] by blast
  obtain s2 s3 where s3: "cm_allocate s1 = (?np, s2)"
    "cm_get_page s2 ?np = Inr (Some (page_addr ?np), s3)" "cm_inv s3" "cm_mem s3 = ?M"
    "cm_npages s3 = ?np + 1"
    using cm.alloc_fetch [OF s1(2)] room s1(3,4) by fastforce
  define new0 where "new0 = nl_set_num_keys L 0 (nl_set_leaf L (?M (unat ?np)))"
  obtain s4 where s4: "cm_assign s3 (Some (page_addr ?np)) new0 = Inr s4" "cm_inv s4"
    "cm_mem s4 = ?M(unat ?np := new0)" "cm_npages s4 = ?np + 1"
    using cm.assign_law [OF s3(3) room, of new0] s3(4,5) by auto
  have d4: "cm_deref s4 (Some (page_addr pid)) = Inr node"
    "cm_deref s4 (Some (page_addr ?np)) = Inr new0" "cm_deref s3 (Some (page_addr ?np)) = Inr (?M (unat ?np))"
    using cm.deref_law [OF p(1), of s4] cm.deref_law [OF room, of s4] cm.deref_law [OF room, of s3]
      p(2) s3(4) s4(3) by (simp_all add: node_def)
  have "nl_num_keys L new0 = 0" by (simp add: new0_def laws)
  then have "nl_num_keys L new0 + length [mid..<nl_num_keys L node] \<le> nl_cap L"
    "list_all (\<lambda>i. i < nl_cap L) [mid..<nl_num_keys L node]"
    using cap by (auto simp: node_def mid_def list_all_iff)
  then obtain new1 where new1: "et_move L node [mid..<nl_num_keys L node] new0 = Inr new1"
    using move_total by blast
  let ?new = "nl_set_next L (nl_next L node) new1"
  obtain s5 where s5: "cm_assign s4 (Some (page_addr ?np)) ?new = Inr s5" "cm_inv s5"
    "cm_mem s5 = (cm_mem s4)(unat ?np := ?new)" "cm_npages s5 = ?np + 1"
    using cm.assign_law [OF s4(2) room, of ?new] s4(4) by auto
  let ?old = "nl_set_next L ?np (nl_set_num_keys L mid node)"
  obtain s6 s7 where s7: "cm_assign s5 (Some (page_addr pid)) ?old = Inr s6" "cm_mark_dirty s6 pid = Inr s7"
    "cm_inv s7" "cm_mem s7 = (cm_mem s5)(unat pid := ?old)" "cm_npages s7 = ?np + 1"
    using cm.write_page [OF s5(2) p(1), of ?old] s5(4) by auto
  obtain s8 where "cm_mark_dirty s7 ?np = Inr s8" "cm_inv s8" "cm_mem s8 = cm_mem s7" "cm_npages s8 = ?np + 1"
    using cm.mark_dirty_law [OF s7(3), of ?np] s7(5) by auto
  then show ?thesis
    using s1 s3 s4 d4 new1 s5 s7
    by (intro exI [of _ s8]) (simp add: et_split_leaf_def Let_def mid_def flip: new0_def node_def)
qed

end

section \<open>Refinement of the sorted list\<close>

lemma length_at_leaf_insert [simp]: "length (at_leaf_insert k v ps) = Suc (length ps)"
  by (simp add: at_leaf_insert_def)

lemma sorted_at_leaf_insert: "sorted (map fst ps) \<Longrightarrow> sorted (map fst (at_leaf_insert k v ps))"
  by (simp add: at_leaf_insert_def map_ins_at sorted_ins_at_ix)

lemma half_insert_sorted: "sorted (map fst ps) \<Longrightarrow> sorted (map fst (half_insert n kv ps))"
  by (simp add: half_insert_def Let_def sorted_at_leaf_insert sorted_fst_take)

lemma half_insert_length: "length ps < n \<Longrightarrow> length (half_insert n kv ps) < n"
  by (auto simp: half_insert_def Let_def)

lemma et_invI:
  assumes "cm_inv s" "r < cm_npages s" "unat r < max_pages" "nl_is_leaf L (cm_mem s (unat r))"
    "et_pairs L (cm_mem s (unat r)) = ps" "length ps < nl_order L" "sorted (map fst ps)"
  shows "et_inv L \<lparr>et_cm = s, et_root = r\<rparr>"
  using assms by (simp add: et_inv_def et_entries_def)

context node_struct
begin

lemma pairs_truncate:
  assumes "m \<le> nl_num_keys L node" and "nl_num_keys L node \<le> nl_cap L"
  shows "et_pairs L (nl_set_next L q (nl_set_num_keys L m node)) = take m (et_pairs L node)"
  using assms by (auto simp: et_pairs_def laws take_map)

lemma search_spec:
  assumes "et_inv L t"
  shows "\<exists>t'. et_search L t key = Inr (map_of (et_entries L t) key, t') \<and> et_inv L t' \<and>
           et_entries L t' = et_entries L t"
proof -
  let ?node = "cm_mem (et_cm t) (unat (et_root t))"
  have inv: "cm_inv (et_cm t)" "et_root t < cm_npages (et_cm t)" "unat (et_root t) < max_pages"
    "nl_is_leaf L ?node" and len: "nl_num_keys L ?node \<le> nl_cap L"
    using assms order_le by (simp_all add: et_inv_def et_entries_def)
  obtain s1 where s1: "et_find_leaf L t key = Inr (et_root t, t\<lparr>et_cm := s1\<rparr>)" "cm_inv s1"
    "cm_mem s1 = cm_mem (et_cm t)" "cm_npages s1 = cm_npages (et_cm t)"
    using et_find_leaf_root [OF inv, of key] by blast
  obtain s2 where s2: "cm_get_page s1 (et_root t) = Inr (Some (page_addr (et_root t)), s2)"
    "cm_deref s2 (Some (page_addr (et_root t))) = Inr ?node"
    "cm_inv s2" "cm_mem s2 = cm_mem (et_cm t)" "cm_npages s2 = cm_npages (et_cm t)"
    using cm.fetch [OF s1(2), of "et_root t"] inv(2,3) s1(3,4) by auto
  have "et_search L t key = Inr (map_of (et_entries L t) key, t\<lparr>et_cm := s2\<rparr>)"
    using s1(1) s2(1,2) et_lookup_eq [OF len, of 0 key] by (simp add: et_search_def et_entries_def)
  then show ?thesis using assms s2(3-5) by (simp add: et_inv_def et_entries_def)
qed

lemma overflow_spec:
  assumes inv: "cm_inv (et_cm t)" and r: "r < cm_npages (et_cm t)"
    and room: "unat (cm_npages (et_cm t)) < max_pages"
    and node: "cm_mem (et_cm t) (unat r) = node" "nl_is_leaf L node" "et_pairs L node = ps"
    and len: "length ps \<le> nl_cap L"
  shows "\<exists>s. (if nl_num_keys L node \<ge> nl_order L then et_split_leaf L t r else Inr t) = Inr (t\<lparr>et_cm := s\<rparr>) \<and>
     cm_inv s \<and> r < cm_npages s \<and> unat (cm_npages s) \<le> Suc (unat (cm_npages (et_cm t))) \<and>
     nl_is_leaf L (cm_mem s (unat r)) \<and>
     et_pairs L (cm_mem s (unat r)) = (if length ps \<ge> nl_order L then take (length ps div 2) ps else ps)"
proof -
  have nk: "nl_num_keys L node = length ps" using length_et_pairs [of L node] node(3) by simp
  show ?thesis
  proof (cases "length ps \<ge> nl_order L")
    case True
    obtain s where s: "et_split_leaf L t r = Inr (t\<lparr>et_cm := s\<rparr>)" "cm_inv s"
      "cm_npages s = cm_npages (et_cm t) + 1"
      "cm_mem s (unat r) = nl_set_next L (cm_npages (et_cm t)) (nl_set_num_keys L (length ps div 2) node)"
      using split_spec [OF inv r room] node(1) nk len by (auto simp: Let_def)
    have "et_pairs L (cm_mem s (unat r)) = take (length ps div 2) ps"
      unfolding s(4) using pairs_truncate [of "length ps div 2" node] len nk node(3) by simp
    then show ?thesis
      using True s node(2) r room nk by (intro exI [of _ s]) (simp add: laws page_less_unat)
  next
    case False
    then show ?thesis using inv r node nk by (intro exI [of _ "et_cm t"]) simp
  qed
qed

lemma insert_spec:
  assumes inv: "et_inv L t" and room: "unat (cm_npages (et_cm t)) < max_pages"
  shows "\<exists>t'. et_insert L t k v = Inr t' \<and> et_inv L t' \<and>
           et_entries L t' = half_insert (nl_order L) (k, v) (et_entries L t) \<and>
           unat (cm_npages (et_cm t')) \<le> Suc (unat (cm_npages (et_cm t)))"
proof -
  let ?r = "et_root t" and ?np = "cm_npages (et_cm t)" and ?ps = "at_leaf_insert k v (et_entries L t)"
  define node where "node = cm_mem (et_cm t) (unat ?r)"
  have i: "cm_inv (et_cm t)" "?r < ?np" "unat ?r < max_pages" "nl_is_leaf L (cm_mem (et_cm t) (unat ?r))"
    and nk: "nl_num_keys L node < nl_cap L" and srt: "sorted (map fst (et_pairs L node))"
    using inv order_le by (simp_all add: et_inv_def et_entries_def node_def)
  obtain s1 where s1: "et_find_leaf L t k = Inr (?r, t\<lparr>et_cm := s1\<rparr>)" "cm_inv s1"
    "cm_mem s1 = cm_mem (et_cm t)" "cm_npages s1 = ?np"
    using et_find_leaf_root [OF i, of k] by blast
  obtain s2 where s2: "et_insert_into_leaf L (t\<lparr>et_cm := s1\<rparr>) ?r k v = Inr (t\<lparr>et_cm := s2\<rparr>)" "cm_inv s2"
    "cm_mem s2 (unat ?r) = et_put L k v node" "cm_npages s2 = ?np"
    using et_insert_into_leaf_spec [of "t\<lparr>et_cm := s1\<rparr>" ?r L k v] s1 i nk by (auto simp: node_def)
  obtain s3 where s3: "cm_get_page s2 ?r = Inr (Some (page_addr ?r), s3)"
    "cm_deref s3 (Some (page_addr ?r)) = Inr (et_put L k v node)"
    "cm_inv s3" "cm_mem s3 = cm_mem s2" "cm_npages s3 = ?np"
    using cm.fetch [OF s2(2), of ?r] i(2,3) s2(3,4) by auto
  have ps: "et_pairs L (et_put L k v node) = ?ps" "nl_is_leaf L (et_put L k v node)"
    using put_spec [OF nk srt, of k v] i(4) by (simp_all add: et_entries_def node_def)
  have "length ?ps \<le> nl_cap L" using nk by (simp add: et_entries_def node_def)
  then obtain s4 where s4: "(if nl_num_keys L (et_put L k v node) \<ge> nl_order L
        then et_split_leaf L (t\<lparr>et_cm := s3\<rparr>) ?r else Inr (t\<lparr>et_cm := s3\<rparr>)) = Inr (t\<lparr>et_cm := s4\<rparr>)"
    "cm_inv s4" "?r < cm_npages s4" "unat (cm_npages s4) \<le> Suc (unat ?np)" "nl_is_leaf L (cm_mem s4 (unat ?r))"
    "et_pairs L (cm_mem s4 (unat ?r)) = half_insert (nl_order L) (k, v) (et_entries L t)"
    using overflow_spec [of "t\<lparr>et_cm := s3\<rparr>" ?r _ ?ps, OF _ _ _ _ ps(2,1)] s2(3) s3 i(2) room
    by (auto simp: half_insert_def)
  obtain s5 where s5: "cm_mark_dirty s4 ?r = Inr s5" "cm_inv s5" "cm_mem s5 = cm_mem s4"
    "cm_npages s5 = cm_npages s4"
    using cm.mark_dirty_law [OF s4(2)] by blast
  have ins: "et_insert L t k v = Inr \<lparr>et_cm = s5, et_root = ?r\<rparr>"
    using s1(1) s2(1) s3(1,2) s4(1) s5(1) by (cases t) (simp add: et_insert_def split: if_splits)
  have hl: "length (half_insert (nl_order L) (k, v) (et_entries L t)) < nl_order L"
    "sorted (map fst (half_insert (nl_order L) (k, v) (et_entries L t)))"
    using inv half_insert_length half_insert_sorted unfolding et_inv_def by blast+
  have "et_inv L \<lparr>et_cm = s5, et_root = ?r\<rparr>"
    by (rule et_invI [OF _ _ i(3) _ _ hl]) (use s5 s4 in simp_all)
  with ins show ?thesis using s4 s5 by (simp add: et_entries_def)
qed

end

section \<open>Runs of insertions\<close>

context node_struct
begin

lemma open_spec:
  assumes "pg_num_pages pg = 0"
  shows "\<exists>t. et_open L pg = Inr t \<and> et_inv L t \<and> et_entries L t = [] \<and> cm_npages (et_cm t) = 1"
proof -
  let ?s = "cm_new pg 1024"
  have s: "cm_inv ?s" "cm_npages ?s = 0" using cm_inv_new [of 1024 pg] assms by (simp_all add: cm_new_def)
  have m: "unat (0 :: u32) < max_pages" by (simp add: max_pages_def)
  obtain s1 s2 where s2: "cm_allocate ?s = (0, s1)" "cm_get_page s1 0 = Inr (Some (page_addr 0), s2)"
    "cm_inv s2" "cm_npages s2 = 1"
    using cm.alloc_fetch [OF s(1)] s(2) m by auto
  define node where "node = nl_set_next L 0 (nl_set_num_keys L 0 (nl_set_leaf L (cm_mem s2 (unat (0 :: u32)))))"
  obtain s3 where s3: "cm_assign s2 (Some (page_addr 0)) node = Inr s3" "cm_inv s3"
    "cm_mem s3 = (cm_mem s2)(unat (0 :: u32) := node)" "cm_npages s3 = 1"
    using cm.assign_law [OF s2(3) m, of node] s2(4) by auto
  have "et_open L pg = Inr \<lparr>et_cm = s3, et_root = 0\<rparr>"
    using s2(1,2) s3(1) cm.deref_law [OF m, of s2] by (simp add: et_open_def node_def)
  moreover have node: "et_pairs L node = []" "nl_is_leaf L node"
    by (simp_all add: node_def et_pairs_def laws)
  moreover have "et_inv L \<lparr>et_cm = s3, et_root = 0\<rparr>"
    by (rule et_invI [of _ _ _ "[]"]) (use s3 m node order_pos in simp_all)
  ultimately show ?thesis using s3 by (simp add: et_entries_def)
qed

lemma inserts_spec:
  assumes "et_inv L t" and "unat (cm_npages (et_cm t)) + length kvs \<le> max_pages"
  shows "\<exists>t'. et_inserts L kvs t = Inr t' \<and> et_inv L t' \<and>
           et_entries L t' = fold (half_insert (nl_order L)) kvs (et_entries L t)"
  using assms
proof (induction kvs arbitrary: t)
  case (Cons kv kvs)
  obtain k v where kv: "kv = (k, v)" by fastforce
  have "unat (cm_npages (et_cm t)) < max_pages" using Cons.prems(2) by simp
  then obtain t1 where t1: "et_insert L t k v = Inr t1" "et_inv L t1"
    "et_entries L t1 = half_insert (nl_order L) kv (et_entries L t)"
    "unat (cm_npages (et_cm t1)) \<le> Suc (unat (cm_npages (et_cm t)))"
    using insert_spec [OF Cons.prems(1), of k v] kv by blast
  then have "unat (cm_npages (et_cm t1)) + length kvs \<le> max_pages" using Cons.prems(2) by simp
  from Cons.IH [OF t1(2) this] show ?case using t1 kv by (auto simp: et_inserts_def)
qed (simp add: et_inserts_def)

lemma run_spec:
  assumes "pg_num_pages pg = 0" and "length kvs < max_pages"
  shows "\<exists>t. rbind (et_open L pg) (et_inserts L kvs) = Inr t \<and> et_inv L t \<and>
           et_entries L t = half_inserts (nl_order L) kvs"
proof -
  obtain t0 where t0: "et_open L pg = Inr t0" "et_inv L t0" "et_entries L t0 = []" "cm_npages (et_cm t0) = 1"
    using open_spec [OF assms(1)] by blast
  then show ?thesis using inserts_spec [OF t0(2), of kvs] assms(2) by (simp add: half_inserts_def)
qed

lemma search_run:
  assumes "pg_num_pages pg = 0" and "length kvs < max_pages"
  shows "\<exists>t t'. rbind (et_open L pg) (et_inserts L kvs) = Inr t \<and>
           et_search L t key = Inr (map_of (half_inserts (nl_order L) kvs) key, t')"
proof -
  obtain t where "rbind (et_open L pg) (et_inserts L kvs) = Inr t" "et_inv L t"
    "et_entries L t = half_inserts (nl_order L) kvs"
    using run_spec [OF assms] by blast
  then show ?thesis using search_spec [of t key] by auto
qed

end

text \<open>Below the order nothing is lost, and the first value inserted for a key is the one found.\<close>

lemma map_of_at_leaf_insert:
  assumes "sorted (map fst ps)"
  shows "map_of (at_leaf_insert k v ps) key = (case map_of ps key of Some w \<Rightarrow> Some w
           | None \<Rightarrow> if key = k then Some v else None)"
proof -
  let ?i = "ix (map fst ps) k"
  have low: "fst x \<le> k" if "x \<in> set (take ?i ps)" for x
    using that ix_below [of _ "map fst ps" k] ix_le [of "map fst ps" k] by (fastforce simp: in_set_conv_nth)
  have high: "k < fst x" if x: "x \<in> set (drop ?i ps)" for x
  proof -
    obtain j where j: "?i \<le> j" "j < length ps" "x = ps ! j" using in_set_drop_nth [OF x] by blast
    have "k < map fst ps ! ?i" using ix_at [of "map fst ps" k] j by simp
    also have "\<dots> \<le> map fst ps ! j" using assms j by (intro sorted_nth_mono) auto
    finally show ?thesis using j by simp
  qed
  have "map_of ps key = (case map_of (take ?i ps) key of Some w \<Rightarrow> Some w | None \<Rightarrow> map_of (drop ?i ps) key)"
    by (subst append_take_drop_id [of ?i ps, symmetric], subst map_of_append) (simp add: map_add_def split: option.splits)
  moreover have "map_of (drop ?i ps) k = None" using high by (force simp: map_of_eq_None_iff)
  ultimately show ?thesis
    by (auto simp: at_leaf_insert_def ins_at_def map_add_def split: option.splits)
qed

lemma half_inserts_snoc: "half_inserts n (kvs @ [kv]) = half_insert n kv (half_inserts n kvs)"
  by (simp add: half_inserts_def)

lemma half_inserts_sorted: "sorted (map fst (half_inserts n kvs))"
proof (induction kvs rule: rev_induct)
  case Nil
  show ?case by (simp add: half_inserts_def)
next
  case (snoc kv kvs)
  then show ?case by (simp add: half_inserts_snoc half_insert_sorted)
qed

lemma half_inserts_below:
  "length kvs < n \<Longrightarrow> length (half_inserts n kvs) = length kvs \<and> map_of (half_inserts n kvs) key = map_of kvs key"
proof (induction kvs rule: rev_induct)
  case (snoc kv kvs)
  then show ?case
    using map_of_at_leaf_insert [OF half_inserts_sorted, of "fst kv" "snd kv" n kvs key]
    by (auto simp: half_inserts_snoc half_insert_def Let_def map_add_def split: option.splits)
qed (simp add: half_inserts_def)

text \<open>Ascending keys: each insertion appends, and the one that reaches the order keeps the lower half.\<close>

lemma at_leaf_insert_last:
  assumes "sorted_wrt (<) (map fst (ps @ [(k, v)]))"
  shows "at_leaf_insert k v ps = ps @ [(k, v)]"
proof -
  have "takeWhile (\<lambda>x. x \<le> k) (map fst ps) = map fst ps"
    using assms by (force simp: sorted_wrt_append takeWhile_eq_all_conv)
  then have "ix (map fst ps) k = length (map fst ps)" unfolding ix_def by (rule arg_cong)
  then show ?thesis by (simp add: at_leaf_insert_def ins_at_def)
qed

lemma half_inserts_ascending:
  "sorted_wrt (<) (map fst kvs) \<Longrightarrow> length kvs < n \<Longrightarrow> half_inserts n kvs = kvs"
proof (induction kvs rule: rev_induct)
  case (snoc kv kvs)
  then have "half_inserts n kvs = kvs" by (simp add: sorted_wrt_append)
  then show ?case
    using at_leaf_insert_last [of kvs "fst kv" "snd kv"] snoc.prems
    by (simp add: half_inserts_snoc half_insert_def Let_def)
qed (simp add: half_inserts_def)

lemma half_inserts_full:
  assumes "sorted_wrt (<) (map fst kvs)" and "length kvs = n" and "0 < n"
  shows "half_inserts n kvs = take (n div 2) kvs"
proof -
  obtain ps kv where kvs: "kvs = ps @ [kv]" using assms(2,3) by (metis rev_exhaust length_greater_0_conv)
  then have "half_inserts n ps = ps"
    using assms by (intro half_inserts_ascending) (auto simp: sorted_wrt_append)
  then show ?thesis
    using at_leaf_insert_last [of ps "fst kv" "snd kv"] assms kvs
    by (simp add: half_inserts_snoc half_insert_def Let_def)
qed

lemma map_of_take_distinct:
  assumes "distinct (map fst kvs)" and "i < length kvs"
  shows "map_of (take m kvs) (fst (kvs ! i)) = (if i < m then Some (snd (kvs ! i)) else None)"
proof (cases "i < m")
  case True
  have "(fst (kvs ! i), snd (kvs ! i)) \<in> set (take m kvs)"
    using True assms(2) by (auto simp: in_set_conv_nth intro!: exI [of _ i])
  moreover have "distinct (map fst (take m kvs))" using assms(1) by (simp add: distinct_take flip: take_map)
  ultimately show ?thesis using True by simp
next
  case False
  have "fst (kvs ! i) \<notin> fst ` set (take m kvs)"
  proof
    assume "fst (kvs ! i) \<in> fst ` set (take m kvs)"
    then obtain j where "j < m" "j < length kvs" "map fst kvs ! i = map fst kvs ! j"
      using assms(2) by (auto simp: in_set_conv_nth)
    then show False using False assms nth_eq_iff_index_eq [OF assms(1), of i j] by simp
  qed
  then show ?thesis using False by (simp add: map_of_eq_None_iff)
qed

section \<open>The layout of the repository's other index\<close>

text \<open>
  \<open>BPTNode\<close> of \<open>index/bptree.h\<close> has the members the code uses; with any order up to the length
  of its arrays it satisfies the laws.
\<close>

definition bptnode_layout :: "nat \<Rightarrow> bptnode node_layout" where
  "bptnode_layout order = \<lparr>
     nl_is_leaf = (\<lambda>p. bn_type p = LEAF), nl_set_leaf = (\<lambda>p. p\<lparr>bn_type := LEAF\<rparr>),
     nl_num_keys = (\<lambda>p. unat (bn_num_keys p)), nl_set_num_keys = (\<lambda>n p. p\<lparr>bn_num_keys := of_nat n\<rparr>),
     nl_next = bn_next_leaf, nl_set_next = (\<lambda>q p. p\<lparr>bn_next_leaf := q\<rparr>),
     nl_key = bn_keys, nl_set_key = (\<lambda>i k p. p\<lparr>bn_keys := (bn_keys p)(i := k)\<rparr>),
     nl_value = bn_values, nl_set_value = (\<lambda>i v p. p\<lparr>bn_values := (bn_values p)(i := v)\<rparr>),
     nl_child = bn_children, nl_cap = BPT_ORDER, nl_child_cap = Suc BPT_ORDER, nl_order = order\<rparr>"

lemma bptnode_layout_struct: "0 < order \<Longrightarrow> order \<le> BPT_ORDER \<Longrightarrow> node_struct (bptnode_layout order)"
  by unfold_locales (auto simp: bptnode_layout_def BPT_ORDER_def unat_of_nat)

interpretation bptnode: node_struct "bptnode_layout BPT_ORDER"
  by (rule bptnode_layout_struct) (simp_all add: BPT_ORDER_def)

section \<open>Properties\<close>

lemma ascending_witness: "sorted_wrt (<) (map fst [(1::u64, 10::u64), (2, 20), (3, 30), (4, 40)])"
  by simp

text \<open>
  C15. For every node layout with the laws of a struct and whatever the file held before: a tree
  opened and given any sequence of insertions that fits the file never faults, and a search
  returns what lookup in the abstract list returns, where an insertion is in order of the keys
  and one that fills the leaf keeps the lower half. No sequence of insertions makes an internal
  node: the root stays a leaf with fewer than \<open>BPTREE_ORDER\<close> keys.
\<close>

theorem earlier_tree_refines:
  assumes "node_struct L" and "pg_num_pages pg = 0" and "length kvs < max_pages"
  shows "\<exists>t t'. rbind (et_open L pg) (et_inserts L kvs) = Inr t \<and>
           et_search L t key = Inr (map_of (half_inserts (nl_order L) kvs) key, t') \<and>
           nl_is_leaf L (cm_mem (et_cm t) (unat (et_root t))) \<and>
           nl_num_keys L (cm_mem (et_cm t) (unat (et_root t))) < nl_order L"
proof -
  obtain t where t: "rbind (et_open L pg) (et_inserts L kvs) = Inr t" "et_inv L t"
    "et_entries L t = half_inserts (nl_order L) kvs"
    using node_struct.run_spec [OF assms] by blast
  then show ?thesis
    using node_struct.search_spec [OF assms(1) t(2), of key] by (auto simp: et_inv_def et_entries_def)
qed

theorem earlier_tree_refines_witness:
  "\<exists>t t'. rbind (et_open (bptnode_layout 4) \<lparr>pg_mem = (\<lambda>_. fresh_node INTERNAL), pg_disk = (\<lambda>_. fresh_node INTERNAL),
       pg_num_pages = 0\<rparr>) (et_inserts (bptnode_layout 4) [(5, 50), (3, 30), (9, 90), (7, 70), (4, 40)]) = Inr t \<and>
     et_search (bptnode_layout 4) t 4 = Inr (Some 40, t')"
proof -
  have "map_of (half_inserts 4 [(5, 50), (3, 30), (9, 90), (7, 70), (4, 40)]) 4 = Some 40"
    by (simp add: half_inserts_def half_insert_def at_leaf_insert_def ins_at_def ix_def)
  then show ?thesis
    using earlier_tree_refines [OF bptnode_layout_struct, of 4
        "\<lparr>pg_mem = (\<lambda>_. fresh_node INTERNAL), pg_disk = (\<lambda>_. fresh_node INTERNAL), pg_num_pages = 0\<rparr>"
        "[(5, 50), (3, 30), (9, 90), (7, 70), (4, 40)]" 4]
    by (auto simp: BPT_ORDER_def max_pages_def bptnode_layout_def)
qed

text \<open>
  While fewer than \<open>BPTREE_ORDER\<close> pairs have been inserted, in any order and with repeated
  keys, a search finds exactly the inserted keys, each with the first value inserted for it.
\<close>

theorem earlier_tree_lookup:
  assumes "node_struct L" and "pg_num_pages pg = 0" and "length kvs < nl_order L" and "nl_order L \<le> max_pages"
  shows "\<exists>t t'. rbind (et_open L pg) (et_inserts L kvs) = Inr t \<and> et_search L t key = Inr (map_of kvs key, t')"
  using node_struct.search_run [OF assms(1,2), of kvs key] half_inserts_below [OF assms(3), of key] assms(3,4)
  by simp

theorem earlier_tree_lookup_witness:
  "\<exists>t t'. rbind (et_open (bptnode_layout 4) \<lparr>pg_mem = (\<lambda>_. fresh_node LEAF), pg_disk = (\<lambda>_. fresh_node LEAF),
       pg_num_pages = 0\<rparr>) (et_inserts (bptnode_layout 4) [(5, 50), (3, 30), (5, 51)]) = Inr t \<and>
     et_search (bptnode_layout 4) t 5 = Inr (Some 50, t')"
  using earlier_tree_lookup [OF bptnode_layout_struct, of 4
      "\<lparr>pg_mem = (\<lambda>_. fresh_node LEAF), pg_disk = (\<lambda>_. fresh_node LEAF), pg_num_pages = 0\<rparr>"
      "[(5, 50), (3, 30), (5, 51)]" 5]
  by (simp add: BPT_ORDER_def max_pages_def bptnode_layout_def)

text \<open>
  \<open>split_leaf\<close> links the new leaf behind the old one and gives neither a parent. Once
  \<open>BPTREE_ORDER\<close> ascending keys have been inserted, searches find the lower half and miss
  every key of the upper half.
\<close>

theorem earlier_tree_loses_upper_half:
  assumes "node_struct L" and "pg_num_pages pg = 0" and "sorted_wrt (<) (map fst kvs)"
    and "length kvs = nl_order L" and "nl_order L < max_pages" and "i < nl_order L"
  shows "\<exists>t t'. rbind (et_open L pg) (et_inserts L kvs) = Inr t \<and>
           et_search L t (fst (kvs ! i)) = Inr (if i < nl_order L div 2 then Some (snd (kvs ! i)) else None, t')"
proof -
  have "half_inserts (nl_order L) kvs = take (nl_order L div 2) kvs"
    using assms(3,4,6) by (intro half_inserts_full) auto
  moreover have "distinct (map fst kvs)" using assms(3) by (simp add: strict_sorted_iff)
  ultimately show ?thesis
    using node_struct.search_run [OF assms(1,2), of kvs "fst (kvs ! i)"] map_of_take_distinct [of kvs i] assms(4-6)
    by simp
qed

theorem earlier_tree_loses_upper_half_witness:
  "\<exists>t t'. rbind (et_open (bptnode_layout 4) \<lparr>pg_mem = (\<lambda>_. fresh_node LEAF), pg_disk = (\<lambda>_. fresh_node LEAF),
       pg_num_pages = 0\<rparr>) (et_inserts (bptnode_layout 4) [(1, 10), (2, 20), (3, 30), (4, 40)]) = Inr t \<and>
     et_search (bptnode_layout 4) t 3 = Inr (None, t')"
  using earlier_tree_loses_upper_half [OF bptnode_layout_struct _ ascending_witness, of 4
      "\<lparr>pg_mem = (\<lambda>_. fresh_node LEAF), pg_disk = (\<lambda>_. fresh_node LEAF), pg_num_pages = 0\<rparr>" 2]
  by (simp add: BPT_ORDER_def max_pages_def bptnode_layout_def)

end
