(* ===== verification/Registries.thy ===== *)
theory Registries
  imports IndexModel
begin

text \<open>
  The two managers that keep objects by name: \<open>TableManager\<close>
  (\<open>src/src/storage/table_manager.cpp\<close>) and \<open>IndexManager\<close> (\<open>IndexModel\<close>).

  \<open>create_table\<close> calls a constructor \<open>Table(schema, base_path)\<close> and reads a member
  \<open>table_name\<close> of \<open>TableSchema\<close>; no header declares either, so both are arguments.
  \<open>manager_mutex\<close> is held through both operations, so each is one step. The shared contract
  is the locale \<open>registry\<close>.
\<close>

section \<open>The table manager\<close>

type_synonym 't table_manager = "string \<rightharpoonup> 't"

definition tm_create_table ::
  "('s \<Rightarrow> string) \<Rightarrow> ('s \<Rightarrow> string \<Rightarrow> 't res) \<Rightarrow> 't table_manager \<Rightarrow> 's \<Rightarrow> string \<Rightarrow> 't table_manager res" where
  "tm_create_table table_name make_table m schema base_path =
     rbind (make_table schema base_path) (\<lambda>t. Inr (m(table_name schema \<mapsto> t)))"

definition tm_get_table :: "'t table_manager \<Rightarrow> string \<Rightarrow> 't option" where
  "tm_get_table m name = (if m name = None then None else m name)"

section \<open>Objects by name\<close>

locale registry =
  fixes create :: "'m \<Rightarrow> string \<Rightarrow> 'a \<Rightarrow> 'm res"
    and get :: "'m \<Rightarrow> string \<Rightarrow> 'b option"
    and build :: "'a \<Rightarrow> 'b res"
  assumes create_law: "build a = Inr b \<Longrightarrow> \<exists>m'. create m n a = Inr m' \<and> get m' = (get m)(n \<mapsto> b)"
    and create_fault: "build a = Inl e \<Longrightarrow> create m n a = Inl e"
begin

text \<open>After a sequence of creations a name has the object of the last creation with that name.\<close>

lemma get_after_creates:
  assumes "\<And>n a. (n, a) \<in> set xs \<Longrightarrow> build a = Inr (obj a)"
  shows "\<exists>m'. rfold (\<lambda>(n, a) m. create m n a) xs m = Inr m' \<and>
           get m' = get m ++ map_of (rev (map (\<lambda>(n, a). (n, obj a)) xs))"
  using assms
proof (induction xs arbitrary: m)
  case (Cons x xs)
  obtain n a where x: "x = (n, a)" by fastforce
  then obtain m1 where m1: "create m n a = Inr m1" "get m1 = (get m)(n \<mapsto> obj a)"
    using create_law [of a "obj a" m n] Cons.prems by auto
  obtain m' where "rfold (\<lambda>(n, a) m. create m n a) xs m1 = Inr m'"
    "get m' = get m1 ++ map_of (rev (map (\<lambda>(n, a). (n, obj a)) xs))"
    using Cons.IH [of m1] Cons.prems by auto
  then show ?case using m1 x by (auto simp: map_add_def fun_eq_iff split: option.splits)
qed simp

text \<open>A creation that faults ends the sequence: nothing of what follows is built.\<close>

lemma creates_fault:
  assumes "\<And>n a. (n, a) \<in> set xs \<Longrightarrow> build a = Inr (obj a)" and "build b = Inl e"
  shows "rfold (\<lambda>(n, a) m. create m n a) (xs @ (n, b) # ys) m = Inl e"
  using assms(1)
proof (induction xs arbitrary: m)
  case (Cons x xs)
  obtain n' a where x: "x = (n', a)" by fastforce
  then obtain m1 where "create m n' a = Inr m1"
    using create_law [of a "obj a" m n'] Cons.prems by auto
  then show ?case using Cons x by auto
qed (simp add: create_fault [OF assms(2)])

end

lemma tm_get_table_eq: "tm_get_table m = m"
  by (simp add: tm_get_table_def fun_eq_iff)

lemma im_get_index_eq: "im_get_index m = m"
  by (simp add: im_get_index_def fun_eq_iff)

interpretation tm: registry "\<lambda>m n a. tm_create_table (\<lambda>_. n) make_table m (fst a) (snd a)" tm_get_table
    "\<lambda>a. make_table (fst a) (snd a)"
  for make_table :: "'s \<Rightarrow> string \<Rightarrow> 't res"
  by unfold_locales (simp_all add: tm_create_table_def tm_get_table_eq)

interpretation im: registry im_create_index im_get_index "\<lambda>pf. rbind pf bpt_open"
proof (unfold_locales, goal_cases)
  case (1 pf t m n)
  then show ?case by (auto simp: im_create_index_def im_get_index_eq rbind_eq_Inr)
next
  case (2 pf e m n)
  then show ?case by (cases pf) (auto simp: im_create_index_def rbind_def split: sum.splits)
qed

text \<open>
  Indexes created on fresh files, some under the same name: every name has an index, and it is
  empty. The tree an earlier creation put there is gone.
\<close>

lemma indexes_created_empty:
  assumes "\<And>n pf. (n, pf) \<in> set xs \<Longrightarrow> \<exists>pg. pf = Inr pg \<and> pg_num_pages pg = 0"
    and "n \<in> fst ` set xs"
  shows "\<exists>m t. rfold (\<lambda>(n, pf) m. im_create_index m n pf) xs Map.empty = Inr m \<and>
           im_get_index m n = Some t \<and> idx_inv t \<and> idx_entries t = []"
proof -
  have open_ok: "\<exists>t. rbind pf bpt_open = Inr t \<and> idx_inv t \<and> idx_entries t = []"
    if x: "(n, pf) \<in> set xs" for n pf
    using assms(1) [OF x] bpt_open_spec by (fastforce simp: idx_entries_def at_entries_def at_empty_def)
  define obj where "obj pf = projr (rbind pf bpt_open)" for pf
  have obj: "rbind pf bpt_open = Inr (obj pf)" "idx_inv (obj pf)" "idx_entries (obj pf) = []"
    if x: "(n, pf) \<in> set xs" for n pf
    using open_ok [OF x] by (auto simp: obj_def)
  obtain m where m: "rfold (\<lambda>(n, pf) m. im_create_index m n pf) xs Map.empty = Inr m"
    "im_get_index m = im_get_index Map.empty ++ map_of (rev (map (\<lambda>(n, pf). (n, obj pf)) xs))"
    using im.get_after_creates [of xs obj Map.empty] obj(1) by blast
  have "n \<in> fst ` set (rev (map (\<lambda>(n, pf). (n, obj pf)) xs))" using assms(2) by (force simp: image_iff)
  then obtain t where t: "map_of (rev (map (\<lambda>(n, pf). (n, obj pf)) xs)) n = Some t"
    by (metis map_of_eq_None_iff not_None_eq)
  then have "\<exists>pf. (n, pf) \<in> set xs \<and> t = obj pf" by (auto dest!: map_of_SomeD)
  then show ?thesis using m t obj(2,3) by (auto simp: map_add_def)
qed

end
