(* ===== verification/DateTime.thy ===== *)
theory DateTime
  imports TextModel
begin

text \<open>
  \<open>parse_datetime\<close> and \<open>format_datetime\<close> (\<open>src/src/storage/row.cpp\<close>). \<open>sscanf\<close> is modelled for the
  directives that the format string has. \<open>mktime\<close> and \<open>localtime\<close> depend on the time zone of the
  machine and are arguments, as is the text of a year, which differs between C libraries for years
  with less than four digits.
\<close>

section \<open>The model\<close>

datatype directive = Conv | Lit char | Blank

text \<open>
  \<open>sscanf\<close>: the numbers converted before the first mismatch. A number outside the range of \<open>int\<close> is
  undefined behaviour.
\<close>

fun sscanf :: "directive list \<Rightarrow> string \<Rightarrow> int list res" where
  "sscanf [] s = Inr []"
| "sscanf (Blank # fs) s = sscanf fs (dropWhile is_space s)"
| "sscanf (Lit c # fs) s = (case s of [] \<Rightarrow> Inr [] | d # t \<Rightarrow> if d = c then sscanf fs t else Inr [])"
| "sscanf (Conv # fs) s =
     (let t = dropWhile is_space s; neg = (t \<noteq> [] \<and> hd t = CHR ''-'');
          u = (if t \<noteq> [] \<and> (hd t = CHR ''-'' \<or> hd t = CHR ''+'') then tl t else t);
          ds = takeWhile is_digit u; v = (if neg then - int (digits_value ds) else int (digits_value ds)) in
      if ds = [] then Inr []
      else if v < - (2 ^ 31) \<or> 2 ^ 31 \<le> v then Inl Indeterminate
      else rbind (sscanf fs (dropWhile is_digit u)) (\<lambda>vs. Inr (v # vs)))"

text \<open>\<open>%d-%d-%d %d:%d:%d\<close>\<close>

definition datetime_format :: "directive list" where
  "datetime_format = [Conv, Lit (CHR ''-''), Conv, Lit (CHR ''-''), Conv, Blank, Conv, Lit (CHR '':''), Conv, Lit (CHR '':''), Conv]"

record tm =
  tm_year :: int
  tm_mon :: int
  tm_mday :: int
  tm_hour :: int
  tm_min :: int
  tm_sec :: int
  tm_isdst :: int

record date_env =
  de_mktime :: "tm \<Rightarrow> int"
  de_localtime :: "int \<Rightarrow> tm option"
  de_year_text :: "int \<Rightarrow> string"

definition parse_datetime :: "date_env \<Rightarrow> string \<Rightarrow> int res" where
  "parse_datetime env s =
     rbind (sscanf datetime_format (c_str s)) (\<lambda>vs. case vs of
       [y, mo, d, h, mi, sec] \<Rightarrow>
         if y - 1900 < - (2 ^ 31) \<or> mo - 1 < - (2 ^ 31) then Inl Indeterminate
         else Inr (de_mktime env \<lparr>tm_year = y - 1900, tm_mon = mo - 1, tm_mday = d, tm_hour = h, tm_min = mi, tm_sec = sec, tm_isdst = - 1\<rparr>)
     | _ \<Rightarrow> Inr 0)"

text \<open>\<open>%m\<close>, \<open>%d\<close>, \<open>%H\<close>, \<open>%M\<close> and \<open>%S\<close> of \<open>strftime\<close>.\<close>

definition two_digits :: "int \<Rightarrow> string" where
  "two_digits n = (if 0 \<le> n \<and> n < 100 then [digit_char (nat n div 10), digit_char (nat n mod 10)] else to_string n)"

text \<open>\<open>strftime\<close> into a buffer of 24 bytes; when the text does not fit the buffer is unspecified.\<close>

definition format_datetime :: "date_env \<Rightarrow> int \<Rightarrow> string res" where
  "format_datetime env ts = (case de_localtime env ts of None \<Rightarrow> Inl NullDeref
     | Some t \<Rightarrow>
         let buf = de_year_text env (tm_year t + 1900) @ ''-'' @ two_digits (tm_mon t + 1) @ ''-'' @ two_digits (tm_mday t) @ '' '' @
               two_digits (tm_hour t) @ '':'' @ two_digits (tm_min t) @ '':'' @ two_digits (tm_sec t)
         in if length buf + 1 > 24 then Inl Indeterminate else Inr buf)"

section \<open>Reading numbers back\<close>

text \<open>A text of digits that stands for \<open>n\<close>.\<close>

definition number_text :: "string \<Rightarrow> int \<Rightarrow> bool" where
  "number_text ds n \<longleftrightarrow> ds \<noteq> [] \<and> (\<forall>c \<in> set ds. is_digit c) \<and> int (digits_value ds) = n \<and> n < 2 ^ 31"

lemma digit_facts:
  assumes "is_digit c"
  shows "\<not> is_space c" "c \<noteq> CHR ''-''" "c \<noteq> CHR ''+''" "char_nat c \<noteq> 0"
  using assms by (auto simp: is_digit_def is_space_def char_nat_def)

lemma sscanf_number:
  assumes "number_text ds n" and "rest = [] \<or> \<not> is_digit (hd rest)"
  shows "sscanf (Conv # fs) (ds @ rest) = rbind (sscanf fs rest) (\<lambda>vs. Inr (n # vs))"
proof -
  obtain c cs where c: "ds = c # cs" "is_digit c" using assms(1) by (cases ds) (auto simp: number_text_def)
  have "takeWhile is_digit (ds @ rest) = ds" "dropWhile is_digit (ds @ rest) = rest"
    using assms by (auto simp: number_text_def takeWhile_append dropWhile_append2) (cases rest; simp)+
  then show ?thesis
    using assms(1) c digit_facts [OF c(2)] by (simp add: number_text_def Let_def)
qed

lemma two_digits_number: "0 \<le> n \<Longrightarrow> n < 100 \<Longrightarrow> number_text (two_digits n) n"
proof -
  assume n: "0 \<le> n" "n < 100"
  have d: "nat n div 10 < 10" "nat n mod 10 < 10" using n by auto
  have "10 * (nat n div 10) + nat n mod 10 = nat n" by simp
  then show ?thesis
    using n digit_char_facts [OF d(1)] digit_char_facts [OF d(2)] by (simp add: two_digits_def number_text_def digits_value_def)
qed

lemma to_string_number: "0 \<le> n \<Longrightarrow> n < 2 ^ 31 \<Longrightarrow> number_text (to_string n) n"
  using takeWhile_nat_digits [of "nat n"] nat_digits_nonempty [of "nat n"]
  by (auto simp: number_text_def to_string_def digits_value_nat_digits dest!: nat_digits_all digit_char_facts(1))

lemma nat_digits_length: "n < 10 ^ k \<Longrightarrow> 0 < k \<Longrightarrow> length (nat_digits n) \<le> k"
proof (induction n arbitrary: k rule: nat_digits.induct)
  case (1 n)
  show ?case
  proof (cases "n < 10")
    case True
    then show ?thesis using "1.prems" by (simp add: nat_digits.simps [of n])
  next
    case False
    then have k: "1 < k" using "1.prems" by (cases "k = 1") auto
    then have "n div 10 < 10 ^ (k - 1)" using "1.prems"(1) by (cases k) (auto simp: less_mult_imp_div_less mult.commute)
    then have "length (nat_digits (n div 10)) \<le> k - 1" using "1.IH" [of "k - 1"] False k by simp
    then show ?thesis using False k by (simp add: nat_digits.simps [of n])
  qed
qed

section \<open>The round trip\<close>

definition datetime_text :: "int \<Rightarrow> int \<Rightarrow> int \<Rightarrow> int \<Rightarrow> int \<Rightarrow> int \<Rightarrow> string" where
  "datetime_text y mo d h mi s = to_string y @ ''-'' @ two_digits mo @ ''-'' @ two_digits d @ '' '' @
     two_digits h @ '':'' @ two_digits mi @ '':'' @ two_digits s"

definition fields_ok :: "int \<Rightarrow> int \<Rightarrow> int \<Rightarrow> int \<Rightarrow> int \<Rightarrow> int \<Rightarrow> bool" where
  "fields_ok y mo d h mi s \<longleftrightarrow> 1000 \<le> y \<and> y \<le> 9999 \<and> 1 \<le> mo \<and> mo \<le> 12 \<and> 1 \<le> d \<and> d \<le> 31 \<and>
     0 \<le> h \<and> h \<le> 23 \<and> 0 \<le> mi \<and> mi \<le> 59 \<and> 0 \<le> s \<and> s \<le> 60"

lemma number_no_nul: "number_text ds n \<Longrightarrow> c \<in> set ds \<Longrightarrow> char_nat c \<noteq> 0"
  using digit_facts(4) by (auto simp: number_text_def)

lemma separators: "\<not> is_digit (CHR ''-'')" "\<not> is_digit (CHR '':'')" "\<not> is_digit (CHR '' '')" "is_space (CHR '' '')"
  by (simp_all add: is_digit_def is_space_def char_nat_def)

lemma sscanf_datetime:
  assumes "fields_ok y mo d h mi s"
  shows "sscanf datetime_format (c_str (datetime_text y mo d h mi s)) = Inr [y, mo, d, h, mi, s]"
proof -
  have n: "number_text (to_string y) y" "number_text (two_digits mo) mo" "number_text (two_digits d) d" "number_text (two_digits h) h"
    "number_text (two_digits mi) mi" "number_text (two_digits s) s"
    using assms by (auto simp: fields_ok_def intro!: to_string_number two_digits_number)
  have "\<forall>c \<in> set (datetime_text y mo d h mi s). char_nat c \<noteq> 0"
    using n [THEN number_no_nul] by (auto simp: datetime_text_def char_nat_def)
  then have c: "c_str (datetime_text y mo d h mi s) = datetime_text y mo d h mi s" by (simp add: c_str_def takeWhile_eq_all_conv)
  have sp: "dropWhile is_space (two_digits h @ r) = two_digits h @ r" for r
    using n(4) digit_facts(1) by (cases "two_digits h") (auto simp: number_text_def)
  have last: "sscanf [Conv] (two_digits s) = Inr [s]" using sscanf_number [OF n(6), of "[]" "[]"] by simp
  show ?thesis
    unfolding c unfolding datetime_format_def datetime_text_def
    by (simp add: sscanf_number [OF n(1)] sscanf_number [OF n(2)] sscanf_number [OF n(3)] sscanf_number [OF n(4)]
      sscanf_number [OF n(5)] sp last separators del: sscanf.simps(4))
qed

text \<open>
  C40. A date in the form \<open>YYYY-MM-DD HH:MM:SS\<close> with a year of four digits survives parsing and formatting, for
  every time in the machine's time zone that \<open>localtime\<close> gives back for what \<open>mktime\<close> made of it (with
  \<open>tm_isdst\<close> set as it finds it, where the parser leaves it to \<open>mktime\<close>); the text fits the buffer.
\<close>

theorem datetime_roundtrip:
  assumes "fields_ok y mo d h mi s"
    and "t = \<lparr>tm_year = y - 1900, tm_mon = mo - 1, tm_mday = d, tm_hour = h, tm_min = mi, tm_sec = s, tm_isdst = - 1\<rparr>"
    and "de_localtime env (de_mktime env t) = Some (t\<lparr>tm_isdst := dst\<rparr>)" and "de_year_text env y = to_string y"
  shows "\<exists>ts. parse_datetime env (datetime_text y mo d h mi s) = Inr ts \<and> format_datetime env ts = Inr (datetime_text y mo d h mi s)"
proof -
  have "parse_datetime env (datetime_text y mo d h mi s) = Inr (de_mktime env t)"
    using sscanf_datetime [OF assms(1)] assms(1,2) by (simp add: parse_datetime_def fields_ok_def)
  moreover have "nat y < 10 ^ 4" using assms(1) by (simp add: fields_ok_def nat_less_iff)
  then have "length (to_string y) \<le> 4"
    using assms(1) nat_digits_length [of "nat y" 4] by (simp add: to_string_def fields_ok_def)
  then have "length (datetime_text y mo d h mi s) + 1 \<le> 24"
    using assms(1) by (simp add: datetime_text_def fields_ok_def two_digits_def)
  then have "format_datetime env (de_mktime env t) = Inr (datetime_text y mo d h mi s)"
    using assms(2-4) by (simp add: format_datetime_def datetime_text_def Let_def)
  ultimately show ?thesis by blast
qed

text \<open>A machine in UTC, on the first days of 1970.\<close>

definition utc_1970 :: date_env where
  "utc_1970 = \<lparr>de_mktime = (\<lambda>t. ((tm_mday t - 1) * 24 + tm_hour t) * 3600 + tm_min t * 60 + tm_sec t),
     de_localtime = (\<lambda>ts. Some \<lparr>tm_year = 70, tm_mon = 0, tm_mday = ts div 86400 + 1, tm_hour = ts mod 86400 div 3600,
       tm_min = ts mod 3600 div 60, tm_sec = ts mod 60, tm_isdst = 0\<rparr>),
     de_year_text = to_string\<rparr>"

theorem datetime_roundtrip_witness:
  "\<exists>ts. parse_datetime utc_1970 (datetime_text 1970 1 2 3 4 5) = Inr ts \<and> format_datetime utc_1970 ts = Inr (datetime_text 1970 1 2 3 4 5)"
  by (rule datetime_roundtrip [OF _ refl, of _ _ _ _ _ _ _ 0]) (simp_all add: fields_ok_def utc_1970_def)

end
