(* ===== verification/ScanModel.thy ===== *)
theory ScanModel
  imports ColumnModel
begin

text \<open>
  The scan and join helpers beside the executor (\<open>src/src/executor/scan.cpp\<close>,
  \<open>real_scan.cpp\<close>, \<open>parallel_scan.cpp\<close>, \<open>join.cpp\<close>) and the optimizer
  (\<open>src/src/optimizer/optimizer.cpp\<close>). The executor does not call them.

  The threads of the parallel scan write to one vector each and the results are joined in
  order after all of them have ended, so the result does not depend on how they interleave.
\<close>

section \<open>Scans\<close>

text \<open>\<open>TableScanner::full_scan\<close>: a placeholder, the same for every table.\<close>

definition full_scan :: "u64 list" where
  "full_scan = map of_nat [0..<1000000]"

text \<open>\<open>for (uint64_t i = start; i < end; i++) push_back(i)\<close>.\<close>

definition push_range :: "u64 \<Rightarrow> u64 \<Rightarrow> u64 list" where
  "push_range start stop_at = map of_nat [unat start..<unat stop_at]"

definition scan_all :: "pagedata cachemgr \<Rightarrow> (u64 list \<times> pagedata cachemgr) res" where
  "scan_all cm = rbind (reader_total_rows cm) (\<lambda>(rows, cm'). Inr (push_range 0 rows, cm'))"

text \<open>The range of thread \<open>t\<close>.\<close>

definition thread_range :: "u64 \<Rightarrow> int \<Rightarrow> int \<Rightarrow> u64 list" where
  "thread_range rows num_threads t =
     (let chunk = rows div of_int num_threads; start = of_int t * chunk;
          stop_at = (if t = num_threads - 1 then rows else start + chunk)
      in push_range start stop_at)"

text \<open>
  A negative number of threads asks for a vector of about \<open>2 ^ 64\<close> elements
  (\<open>std::length_error\<close>); with zero threads the division faults.
\<close>

definition parallel_scan :: "pagedata cachemgr \<Rightarrow> int \<Rightarrow> (u64 list \<times> pagedata cachemgr) res" where
  "parallel_scan cm num_threads =
     rbind (reader_total_rows cm) (\<lambda>(rows, cm').
       if num_threads < 0 then Inl LengthError
       else if num_threads = 0 then Inl DivByZero
       else Inr (concat (map (\<lambda>t. thread_range rows num_threads (int t)) [0..<nat num_threads]), cm'))"

definition nested_loop_join :: "u64 list \<Rightarrow> u64 list \<Rightarrow> (u64 \<times> u64) list" where
  "nested_loop_join left right = concat (map (\<lambda>l. map (\<lambda>r. (l, r)) (filter (\<lambda>r. l = r) right)) left)"

section \<open>The optimizer\<close>

datatype plan_type = FULL_SCAN | INDEX_SCAN | HASH_JOIN

datatype query_type = CREATE_QUERY | INSERT_QUERY | SELECT_QUERY

record condition =
  co_column :: string
  co_value :: string

record query_join =
  qj_table :: string
  qj_left_col :: string
  qj_right_col :: string

record query =
  qu_type :: query_type
  qu_table :: string
  qu_columns :: "(string \<times> string) list"
  qu_values :: "string list"
  qu_select_columns :: "string list"
  qu_where :: condition
  qu_has_where :: bool
  qu_join :: query_join
  qu_has_join :: bool

record execution_plan =
  pl_type :: plan_type
  pl_index_name :: string
  pl_use_where :: bool
  pl_use_join :: bool

definition optimize :: "query \<Rightarrow> execution_plan" where
  "optimize q =
     (let plan = \<lparr>pl_type = FULL_SCAN, pl_index_name = [], pl_use_where = qu_has_where q, pl_use_join = qu_has_join q\<rparr> in
      if qu_has_join q then plan\<lparr>pl_type := HASH_JOIN\<rparr>
      else if qu_has_where q
      then (if co_column (qu_where q) = ''id'' then plan\<lparr>pl_type := INDEX_SCAN, pl_index_name := ''id''\<rparr> else plan)
      else plan)"

section \<open>The parallel scan is the sequential one\<close>

lemma concat_ranges:
  "concat (map (\<lambda>t. [t * c..<t * c + c]) [0..<n]) = [0..<n * c]"
proof (induction n)
  case (Suc n)
  then show ?case using upt_add_eq_append [of 0 "n * c" c] by (simp add: add.commute)
qed simp

lemma thread_range_nat:
  fixes rows :: u64
  assumes "0 < n" and "t < n" and "n < 2 ^ 31"
  shows "thread_range rows (int n) (int t) =
    map of_nat [t * (unat rows div n)..<(if t = n - 1 then unat rows else t * (unat rows div n) + unat rows div n)]"
proof -
  let ?c = "unat rows div n"
  have T: "unat rows < 2 ^ 64" using unsigned_less [of rows] by simp
  have n: "unat (of_nat n :: u64) = n" using assms(3) by (simp add: unat_of_nat)
  have chunk: "rows div of_int (int n) = of_nat ?c"
  proof -
    have "unat rows div n < 2 ^ 64" using T div_le_dividend le_less_trans by blast
    moreover have "n mod 2 ^ 64 = n" using assms(3) by simp
    ultimately show ?thesis by (simp add: word_unat_eq_iff unat_div unat_of_nat)
  qed
  have le: "(t + 1) * ?c \<le> unat rows"
  proof -
    have "(t + 1) * ?c \<le> n * ?c" using assms(2) by (intro mult_le_mono1) simp
    also have "\<dots> \<le> unat rows" by (rule times_div_less_eq_dividend)
    finally show ?thesis .
  qed
  have start: "unat (of_int (int t) * of_nat ?c :: u64) = t * ?c"
    using le T by (simp add: unat_of_nat flip: of_nat_mult)
  have stop: "unat (of_int (int t) * of_nat ?c + of_nat ?c :: u64) = t * ?c + ?c"
  proof -
    have "of_int (int t) * of_nat ?c + of_nat ?c = (of_nat (t * ?c + ?c) :: u64)" by simp
    moreover have "t * ?c + ?c < 2 ^ 64" using le T by simp
    ultimately show ?thesis by (simp only: unat_of_nat) simp
  qed
  have "int t = int n - 1 \<longleftrightarrow> t = n - 1" using assms(1) by auto
  then show ?thesis
    unfolding thread_range_def Let_def chunk push_range_def using start stop by simp
qed

lemma ranges_joined:
  assumes "0 < n" and "n < 2 ^ 31"
  shows "concat (map (\<lambda>t. thread_range rows (int n) (int t)) [0..<n]) = push_range 0 rows"
proof -
  let ?c = "unat rows div n"
  obtain m where m: "n = Suc m" using assms(1) by (cases n) auto
  have "concat (map (\<lambda>t. thread_range rows (int n) (int t)) [0..<n]) =
      concat (map (\<lambda>t. map of_nat [t * ?c..<(if t = n - 1 then unat rows else t * ?c + ?c)]) [0..<n])"
    using thread_range_nat [OF assms(1) _ assms(2), of _ rows] by (intro arg_cong [where f = concat] map_cong) simp_all
  also have "\<dots> = map of_nat (concat (map (\<lambda>t. [t * ?c..<t * ?c + ?c]) [0..<m])) @ map of_nat [m * ?c..<unat rows]"
  proof -
    have eq: "map (\<lambda>t. map of_nat [t * ?c..<(if t = m then unat rows else t * ?c + ?c)]) [0..<m] =
        map (\<lambda>t. map of_nat [t * ?c..<t * ?c + ?c] :: u64 list) [0..<m]"
      by (intro map_cong) auto
    have "[0..<n] = [0..<m] @ [m]" "n - 1 = m" by (simp_all add: m)
    then show ?thesis by (simp only: map_append concat_append eq) (simp add: map_concat comp_def)
  qed
  also have "\<dots> = map of_nat ([0..<m * ?c] @ [m * ?c..<unat rows])" by (simp add: concat_ranges)
  also have "\<dots> = map of_nat [0..<unat rows]"
  proof -
    have "m * ?c \<le> n * ?c" using m by (intro mult_le_mono1) simp
    also have "\<dots> \<le> unat rows" by (rule times_div_less_eq_dividend)
    finally have "m * ?c \<le> unat rows" .
    then show ?thesis using upt_add_eq_append [of 0 "m * ?c" "unat rows - m * ?c"] by simp
  qed
  finally show ?thesis by (simp add: push_range_def)
qed

text \<open>
  C36. For every positive number of threads, the parallel scan of a column gives the row ids of the
  sequential scan, in the same order, and leaves the column as the sequential one does; the
  remainder of the division goes to the last thread.
\<close>

theorem parallel_scan_sequential:
  assumes "0 < num_threads" and "num_threads < 2 ^ 31"
  shows "parallel_scan cm num_threads = scan_all cm"
proof -
  have n: "0 < nat num_threads" "nat num_threads < 2 ^ 31" "int (nat num_threads) = num_threads" using assms by (auto simp: nat_less_iff)
  show ?thesis
    using ranges_joined [OF n(1,2)] n(3) assms(1) by (simp add: parallel_scan_def scan_all_def)
qed

theorem parallel_scan_sequential_witness:
  "parallel_scan (cm_new \<lparr>pg_mem = (\<lambda>_. zero_page), pg_disk = (\<lambda>_. zero_page), pg_num_pages = 0\<rparr> 4) 3 =
   scan_all (cm_new \<lparr>pg_mem = (\<lambda>_. zero_page), pg_disk = (\<lambda>_. zero_page), pg_num_pages = 0\<rparr> 4)"
  by (rule parallel_scan_sequential) simp_all

end
