(* ===== verification/TokenizerModel.thy ===== *)
theory TokenizerModel
  imports TextModel
begin

text \<open>
  The tokenizer (\<open>src/src/parser/tokenizer.cpp\<close>, \<open>token.h\<close>). It works on a position in the
  input; \<open>peek\<close> gives NUL at the end. \<open>input[pos]\<close> is defined up to and including the position
  of the terminator, beyond it \<open>advance\<close> is \<open>OutOfBounds\<close>.
\<close>

section \<open>The model\<close>

datatype token_type = KEYWORD | IDENTIFIER | NUMBER | STRING | SYMBOL | END_TOKEN

type_synonym token = "token_type \<times> string"

abbreviation nul :: char where
  "nul \<equiv> CHR 0x00"

definition is_alpha :: "char \<Rightarrow> bool" where
  "is_alpha c \<longleftrightarrow> (65 \<le> char_nat c \<and> char_nat c \<le> 90) \<or> (97 \<le> char_nat c \<and> char_nat c \<le> 122)"

definition is_name :: "char \<Rightarrow> bool" where
  "is_name c \<longleftrightarrow> is_alpha c \<or> is_digit c \<or> c = CHR ''_''"

definition peek :: "string \<Rightarrow> nat \<Rightarrow> char" where
  "peek input pos = (if pos \<ge> length input then nul else input ! pos)"

definition advance :: "string \<Rightarrow> nat \<Rightarrow> (char \<times> nat) res" where
  "advance input pos = (if pos > length input then Inl OutOfBounds else Inr (peek input pos, pos + 1))"

text \<open>
  The loops \<open>while (P(peek())) val += advance()\<close>. They have no test of the position of their own: a
  condition that holds for the NUL that \<open>peek\<close> gives at the end runs beyond the terminator, where \<open>advance\<close>
  is \<open>OutOfBounds\<close>.
\<close>

function scan_while :: "(char \<Rightarrow> bool) \<Rightarrow> string \<Rightarrow> nat \<Rightarrow> (string \<times> nat) res" where
  "scan_while P input pos =
     (if \<not> P (peek input pos) then Inr ([], pos)
      else case advance input pos of Inl e \<Rightarrow> Inl e
        | Inr (c, pos1) \<Rightarrow> (case scan_while P input pos1 of Inl e \<Rightarrow> Inl e | Inr (val, pos2) \<Rightarrow> Inr (c # val, pos2)))"
  by pat_completeness auto
termination
  by (relation "measure (\<lambda>(P, input, pos). length input + 1 - pos)") (auto simp: advance_def split: if_splits)

declare scan_while.simps [simp del]

definition skip_whitespace :: "string \<Rightarrow> nat \<Rightarrow> nat res" where
  "skip_whitespace input pos = rbind (scan_while is_space input pos) (\<lambda>(_, pos1). Inr pos1)"

definition parse_identifier :: "string \<Rightarrow> nat \<Rightarrow> (token \<times> nat) res" where
  "parse_identifier input pos = rbind (scan_while is_name input pos) (\<lambda>(val, pos1). Inr ((IDENTIFIER, val), pos1))"

definition parse_number :: "string \<Rightarrow> nat \<Rightarrow> (token \<times> nat) res" where
  "parse_number input pos = rbind (scan_while is_digit input pos) (\<lambda>(val, pos1). Inr ((NUMBER, val), pos1))"

definition parse_string :: "string \<Rightarrow> nat \<Rightarrow> (token \<times> nat) res" where
  "parse_string input pos =
     rbind (advance input pos) (\<lambda>(_, pos1).
       rbind (scan_while (\<lambda>c. c \<noteq> CHR 0x27 \<and> c \<noteq> nul) input pos1) (\<lambda>(val, pos2).
         rbind (advance input pos2) (\<lambda>(_, pos3). Inr ((STRING, val), pos3))))"

definition is_symbol :: "char \<Rightarrow> bool" where
  "is_symbol c \<longleftrightarrow> c \<in> set '',()=*''"

text \<open>One turn of the main loop: the token found, if any, and the new position.\<close>

definition token_step :: "string \<Rightarrow> nat \<Rightarrow> (token option \<times> nat) res" where
  "token_step input pos0 =
     rbind (skip_whitespace input pos0) (\<lambda>pos.
       let c = peek input pos in
       if is_alpha c then rbind (parse_identifier input pos) (\<lambda>(t, p). Inr (Some t, p))
       else if is_digit c then rbind (parse_number input pos) (\<lambda>(t, p). Inr (Some t, p))
       else if c = CHR 0x27 then rbind (parse_string input pos) (\<lambda>(t, p). Inr (Some t, p))
       else if is_symbol c then rbind (advance input pos) (\<lambda>(d, p). Inr (Some (SYMBOL, [d]), p))
       else rbind (advance input pos) (\<lambda>(_, p). Inr (None, p)))"

text \<open>The main loop; a turn that does not move is \<open>Diverges\<close> (there is none, see below).\<close>

function tokens_from :: "string \<Rightarrow> nat \<Rightarrow> token list res" where
  "tokens_from input pos =
     (if pos \<ge> length input then Inr [(END_TOKEN, [])]
      else case token_step input pos of Inl e \<Rightarrow> Inl e
        | Inr (t, pos1) \<Rightarrow> if pos1 \<le> pos then Inl Diverges
            else (case tokens_from input pos1 of Inl e \<Rightarrow> Inl e
                  | Inr ts \<Rightarrow> Inr ((case t of None \<Rightarrow> [] | Some tok \<Rightarrow> [tok]) @ ts)))"
  by pat_completeness auto
termination
  by (relation "measure (\<lambda>(input, pos). length input - pos)") auto

declare tokens_from.simps [simp del]

definition tokenize :: "string \<Rightarrow> token list res" where
  "tokenize input = tokens_from input 0"

section \<open>Positions and rests\<close>

lemma peek_drop: "peek input pos = (case drop pos input of [] \<Rightarrow> nul | c # _ \<Rightarrow> c)"
proof (cases "pos < length input")
  case True
  then show ?thesis by (simp add: peek_def Cons_nth_drop_Suc [symmetric])
qed (simp add: peek_def)

text \<open>A condition that is false for NUL ends the loop at the terminator at the latest.\<close>

lemma scan_while_drop:
  assumes "pos \<le> length input" and "\<not> P nul"
  shows "scan_while P input pos =
    Inr (takeWhile P (drop pos input), pos + length (takeWhile P (drop pos input)))"
  using assms
proof (induction P input pos rule: scan_while.induct)
  case (1 P input pos)
  show ?case
  proof (cases "P (peek input pos)")
    case False
    then have "takeWhile P (drop pos input) = []"
      by (cases "pos < length input") (auto simp: peek_def Cons_nth_drop_Suc [symmetric])
    then show ?thesis using False by (subst scan_while.simps) auto
  next
    case True
    then have pos: "pos < length input" using "1.prems"(2) by (auto simp: peek_def split: if_splits)
    have a: "advance input pos = Inr (peek input pos, pos + 1)" using pos by (simp add: advance_def)
    have "drop pos input = peek input pos # drop (pos + 1) input"
      using pos by (simp add: peek_def Cons_nth_drop_Suc)
    then show ?thesis
      using True pos "1.prems"(2) a "1.IH" [of "(peek input pos, pos + 1)" "peek input pos" "pos + 1"] by (subst scan_while.simps) simp
  qed
qed

lemma takeWhile_bound: "pos \<le> length input \<Longrightarrow> pos + length (takeWhile P (drop pos input)) \<le> length input"
  using length_takeWhile_le [of P "drop pos input"] by simp

lemma class_facts: "\<not> is_alpha nul" "\<not> is_digit nul" "\<not> is_space nul" "\<not> is_symbol nul" "\<not> is_name nul" "is_alpha c \<Longrightarrow> is_name c"
  by (simp_all add: is_alpha_def is_digit_def is_space_def is_symbol_def is_name_def char_nat_def)

text \<open>A turn that starts inside the input succeeds, moves on and stays within the terminator.\<close>

lemma token_step_moves:
  assumes "pos < length input"
  shows "\<exists>t p. token_step input pos = Inr (t, p) \<and> pos < p \<and> p \<le> length input + 1"
proof -
  let ?w = "takeWhile is_space (drop pos input)" and ?q = "pos + length (takeWhile is_space (drop pos input))"
  have q: "?q \<le> length input" using takeWhile_bound [of pos input is_space] assms by simp
  have ws: "skip_whitespace input pos = Inr ?q" using assms class_facts by (simp add: skip_whitespace_def scan_while_drop)
  have fin: "peek input ?q \<noteq> nul \<Longrightarrow> ?q < length input" by (auto simp: peek_def split: if_splits)
  have adv: "advance input ?q = Inr (peek input ?q, ?q + 1)" using q by (simp add: advance_def)
  have sc: "\<exists>v p. scan_while P input ?q = Inr (v, p) \<and> ?q < p \<and> p \<le> length input" if "P (peek input ?q)" "\<not> P nul" for P
  proof -
    have "drop ?q input = peek input ?q # drop (?q + 1) input" using fin that by (fastforce simp: peek_def Cons_nth_drop_Suc)
    then have "length (takeWhile P (drop ?q input)) > 0" using that(1) by simp
    then show ?thesis using scan_while_drop [OF q, of P, OF that(2)] takeWhile_bound [OF q, of P] by auto
  qed
  have str: "\<exists>t p. parse_string input ?q = Inr (t, p) \<and> ?q < p \<and> p \<le> length input + 1" if "?q < length input"
  proof -
    have "?q + 1 \<le> length input" using that by simp
    then show ?thesis
      using scan_while_drop [of "?q + 1" input "\<lambda>c. c \<noteq> CHR 0x27 \<and> c \<noteq> nul"] takeWhile_bound [of "?q + 1" input "\<lambda>c. c \<noteq> CHR 0x27 \<and> c \<noteq> nul"]
      by (auto simp: parse_string_def adv advance_def)
  qed
  consider "is_alpha (peek input ?q)" | "\<not> is_alpha (peek input ?q)" "is_digit (peek input ?q)"
    | "\<not> is_alpha (peek input ?q)" "\<not> is_digit (peek input ?q)" "peek input ?q = CHR 0x27"
    | "\<not> is_alpha (peek input ?q)" "\<not> is_digit (peek input ?q)" "peek input ?q \<noteq> CHR 0x27" by blast
  then show ?thesis
  proof cases
    case 1
    then show ?thesis using sc [of is_name] class_facts ws by (fastforce simp: token_step_def parse_identifier_def Let_def)
  next
    case 2
    then show ?thesis using sc [of is_digit] class_facts ws by (fastforce simp: token_step_def parse_number_def Let_def)
  next
    case 3
    then show ?thesis using str fin ws by (fastforce simp: token_step_def Let_def)
  next
    case 4
    then show ?thesis using q ws adv by (auto simp: token_step_def Let_def)
  qed
qed

text \<open>
  C38. The tokenizer returns on every input: no turn of its loop stands still, no read goes beyond the
  terminator of the string (an unclosed quote included), and the list of tokens ends with END.
\<close>

theorem tokenize_total: "\<exists>ts. tokenize input = Inr (ts @ [(END_TOKEN, [])])"
proof -
  have "\<exists>ts. tokens_from input pos = Inr (ts @ [(END_TOKEN, [])])" for pos
  proof (induction input pos rule: tokens_from.induct)
    case (1 input pos)
    show ?case
    proof (cases "pos \<ge> length input")
      case True
      then show ?thesis by (subst tokens_from.simps) simp
    next
      case False
      then obtain t p where t: "token_step input pos = Inr (t, p)" "pos < p" using token_step_moves by (meson not_le)
      then obtain ts where "tokens_from input p = Inr (ts @ [(END_TOKEN, [])])" using "1.IH" False by fastforce
      then show ?thesis using False t by (subst tokens_from.simps) auto
    qed
  qed
  then show ?thesis by (simp add: tokenize_def)
qed

section \<open>Round trip\<close>

fun tok_text :: "token \<Rightarrow> string" where
  "tok_text (STRING, v) = CHR 0x27 # v @ [CHR 0x27]"
| "tok_text (_, v) = v"

fun tok_ok :: "token \<Rightarrow> bool" where
  "tok_ok (IDENTIFIER, v) = (v \<noteq> [] \<and> is_alpha (hd v) \<and> list_all is_name v)"
| "tok_ok (NUMBER, v) = (v \<noteq> [] \<and> list_all is_digit v)"
| "tok_ok (STRING, v) = list_all (\<lambda>c. c \<noteq> CHR 0x27 \<and> c \<noteq> nul) v"
| "tok_ok (SYMBOL, v) = (length v = 1 \<and> is_symbol (hd v))"
| "tok_ok _ = False"

lemma class_disjoint:
  "is_alpha c \<Longrightarrow> \<not> is_space c" "is_digit c \<Longrightarrow> \<not> is_space c \<and> \<not> is_alpha c"
  "is_symbol c \<Longrightarrow> \<not> is_space c \<and> \<not> is_alpha c \<and> \<not> is_digit c \<and> c \<noteq> CHR 0x27"
  "\<not> is_space (CHR 0x27) \<and> \<not> is_alpha (CHR 0x27) \<and> \<not> is_digit (CHR 0x27)"
  "is_space (CHR '' '')" "\<not> is_name (CHR '' '')" "\<not> is_digit (CHR '' '')"
  by (auto simp: is_alpha_def is_digit_def is_space_def is_symbol_def is_name_def char_nat_def)

lemma takeWhile_word:
  assumes "list_all P v" and "r = [] \<or> hd r = CHR '' ''" and "\<not> P (CHR '' '')"
  shows "takeWhile P (v @ r) = v"
  using assms by (cases r) (auto simp: list_all_iff takeWhile_append)

lemma tok_text_hd:
  assumes "tok_ok t"
  shows "tok_text t \<noteq> []" "\<not> is_space (hd (tok_text t))"
  using assms class_disjoint by (cases t rule: tok_ok.cases; auto simp: list_all_iff length_Suc_conv; fastforce)+

lemma drop_len: "drop p s = x @ r \<Longrightarrow> drop (p + length x) s = r"
  by (metis add.commute append_eq_conv_conj drop_drop)

text \<open>One token, after at most one space and before a space or the end.\<close>

lemma token_step_text:
  assumes t: "tok_ok t" and sp: "sp = [] \<or> sp = '' ''" and r: "r = [] \<or> hd r = CHR '' ''"
    and d: "drop pos input = sp @ tok_text t @ r"
  shows "\<exists>p. token_step input pos = Inr (Some t, p) \<and> pos < p \<and> drop p input = r"
proof -
  note hd = tok_text_hd [OF t]
  let ?q = "pos + length sp"
  have ne: "drop pos input \<noteq> []" using d hd(1) by simp
  then have pos: "pos < length input" by simp
  have dq: "drop ?q input = tok_text t @ r" using drop_len [OF d] by simp
  then have q: "?q < length input" using hd(1) by (metis append_is_Nil_conv drop_all not_le)
  have "takeWhile is_space (drop pos input) = sp"
    using d sp hd class_disjoint(5) by (cases "tok_text t") auto
  then have ws: "skip_whitespace input pos = Inr ?q" using pos class_facts by (simp add: skip_whitespace_def scan_while_drop)
  have pk: "peek input ?q = hd (tok_text t)" using dq hd(1) by (cases "tok_text t") (simp_all add: peek_drop)
  have sw: "scan_while P input ?q = Inr (v, ?q + length v) \<and> drop (?q + length v) input = r"
    if "tok_text t = v" "list_all P v" "\<not> P (CHR '' '')" "\<not> P nul" for P v
    using scan_while_drop [of ?q input P] q dq that takeWhile_word [OF that(2) r that(3)] drop_len [of ?q input v r] by simp
  have adv: "advance input ?q = Inr (peek input ?q, ?q + 1)" using q by (simp add: advance_def)
  obtain ty v where ty: "t = (ty, v)" by (cases t) auto
  show ?thesis
  proof (cases ty)
    case IDENTIFIER
    then have v: "v \<noteq> []" "is_alpha (hd v)" "list_all is_name v" "tok_text t = v" using t ty by auto
    from sw [OF v(4,3) class_disjoint(6) class_facts(5)] show ?thesis
      using ws pk v IDENTIFIER ty by (auto simp: token_step_def parse_identifier_def Let_def)
  next
    case NUMBER
    then have v: "v \<noteq> []" "list_all is_digit v" "tok_text t = v" using t ty by auto
    then have "is_digit (hd v)" by (cases v) auto
    then show ?thesis
      using sw [OF v(3,2) class_disjoint(7) class_facts(2)] ws pk v NUMBER ty class_disjoint(2)
      by (auto simp: token_step_def parse_number_def Let_def)
  next
    case STRING
    then have v: "list_all (\<lambda>c. c \<noteq> CHR 0x27 \<and> c \<noteq> nul) v" "tok_text t = CHR 0x27 # v @ [CHR 0x27]" using t ty by auto
    have d1: "drop (?q + 1) input = v @ CHR 0x27 # r" using drop_len [of ?q input "[CHR 0x27]" "v @ CHR 0x27 # r"] dq v(2) by simp
    then have q1: "?q + 1 < length input" by (metis append_is_Nil_conv drop_all list.distinct(1) not_le)
    have tw: "takeWhile (\<lambda>c. c \<noteq> CHR 0x27 \<and> c \<noteq> nul) (v @ CHR 0x27 # r) = v"
      using v(1) by (auto simp: list_all_iff takeWhile_append)
    have d2: "drop (?q + 1 + length v) input = CHR 0x27 # r" using drop_len [OF d1] .
    have "?q + 1 + length v \<le> length input" using takeWhile_bound [of "?q + 1" input "\<lambda>c. c \<noteq> CHR 0x27 \<and> c \<noteq> nul"] q1 d1 tw by simp
    then have "parse_string input ?q = Inr ((STRING, v), ?q + 1 + length v + 1)"
      using scan_while_drop [of "?q + 1" input "\<lambda>c. c \<noteq> CHR 0x27 \<and> c \<noteq> nul"] q1 d1 tw adv
      by (simp add: parse_string_def advance_def)
    moreover have "drop (?q + 1 + length v + 1) input = r" using drop_len [of "?q + 1 + length v" input "[CHR 0x27]" r] d2 by simp
    ultimately show ?thesis
      using ws pk v(2) STRING ty class_disjoint(4) by (auto simp: token_step_def Let_def)
  next
    case SYMBOL
    then obtain c where c: "v = [c]" "is_symbol c" using t ty by (auto simp: length_Suc_conv)
    then have "drop (?q + 1) input = r" using drop_len [of ?q input "[c]" r] dq SYMBOL ty by simp
    then show ?thesis
      using ws pk adv c SYMBOL ty class_disjoint(3) [OF c(2)] by (auto simp: token_step_def Let_def)
  qed (use t ty in auto)
qed

lemma tokens_from_text:
  assumes "list_all tok_ok ts" and "sp = [] \<or> (sp = '' '' \<and> ts \<noteq> [])" and "drop pos input = sp @ sep_by '' '' (map tok_text ts)"
  shows "tokens_from input pos = Inr (ts @ [(END_TOKEN, [])])"
  using assms
proof (induction ts arbitrary: sp pos)
  case Nil
  then show ?case by (subst tokens_from.simps) simp
next
  case (Cons t ts)
  let ?r = "(if ts = [] then [] else '' '') @ sep_by '' '' (map tok_text ts)"
  have d: "drop pos input = sp @ tok_text t @ ?r" using Cons.prems(3) by (cases ts) auto
  have "?r = [] \<or> hd ?r = CHR '' ''" by auto
  then obtain p where p: "token_step input pos = Inr (Some t, p)" "pos < p" "drop p input = ?r"
    using token_step_text [of t sp ?r pos input] Cons.prems d by auto
  have "drop pos input \<noteq> []" using d tok_text_hd(1) [of t] Cons.prems(1) by simp
  then have "pos < length input" by simp
  moreover have "tokens_from input p = Inr (ts @ [(END_TOKEN, [])])"
    using Cons.IH [of "if ts = [] then [] else '' ''" p] Cons.prems(1) p(3) by auto
  ultimately show ?case using p by (subst tokens_from.simps) simp
qed

text \<open>
  C37. The tokens of a text of tokens written with spaces between them are these tokens, END after
  them: names, numbers, quoted strings (with any characters but the quote and NUL) and symbols.
\<close>

theorem tokenize_roundtrip:
  assumes "list_all tok_ok ts"
  shows "tokenize (sep_by '' '' (map tok_text ts)) = Inr (ts @ [(END_TOKEN, [])])"
  unfolding tokenize_def using tokens_from_text [OF assms, of "[]" 0] by simp

theorem tokenize_roundtrip_witness:
  "tokenize (''SELECT * FROM t1 = 42 '' @ [CHR 0x27] @ ''a b'' @ [CHR 0x27]) =
     Inr [(IDENTIFIER, ''SELECT''), (SYMBOL, ''*''), (IDENTIFIER, ''FROM''), (IDENTIFIER, ''t1''), (SYMBOL, ''=''),
          (NUMBER, ''42''), (STRING, ''a b''), (END_TOKEN, [])]"
proof -
  let ?ts = "[(IDENTIFIER, ''SELECT''), (SYMBOL, ''*''), (IDENTIFIER, ''FROM''), (IDENTIFIER, ''t1''), (SYMBOL, ''=''),
          (NUMBER, ''42''), (STRING, ''a b'')]"
  have "list_all tok_ok ?ts" by (simp add: is_alpha_def is_name_def is_digit_def is_symbol_def char_nat_def)
  from tokenize_roundtrip [OF this] show ?thesis by simp
qed

end
