(* ===== verification/RowModel.thy ===== *)
theory RowModel
  imports ExecProofs
begin

text \<open>
  Storage helpers that the executor's path does not use: the row layout, the comparison and
  the printing of values (\<open>src/src/storage/row.cpp\<close>), the serializer (\<open>serializer.cpp\<close>), the
  batch buffer (\<open>batch_buffer.cpp\<close>) and the records of a page (\<open>column_ops.cpp\<close>).

  Floating-point comparison, printing of floats and of dates (\<open>localtime\<close>) and the current
  time are arguments.
\<close>

section \<open>Row layout\<close>

text \<open>The type and the \<open>length\<close> field of each column.\<close>

type_synonym layout = "(column_type \<times> u16) list"

definition type_width :: "column_type \<Rightarrow> u16 \<Rightarrow> u32" where
  "type_width ty len = (case ty of CT_INT \<Rightarrow> 4 | CT_FLOAT \<Rightarrow> 4 | CT_DECIMAL \<Rightarrow> 8 | CT_CHAR \<Rightarrow> ucast len
     | CT_VARCHAR \<Rightarrow> 2 + ucast len | CT_DATETIME \<Rightarrow> 8)"

fun finalize_from :: "u32 \<Rightarrow> layout \<Rightarrow> u16 list \<times> u32" where
  "finalize_from off [] = ([], off)"
| "finalize_from off ((ty, len) # cols) =
     (let (offs, end_off) = finalize_from (off + type_width ty len) cols in (ucast off # offs, end_off))"

definition schema_finalize :: "layout \<Rightarrow> u16 list \<times> u32" where
  "schema_finalize cols = finalize_from 0 cols"

definition column_count :: "layout \<Rightarrow> nat" where
  "column_count cols = length cols"

definition is_fixed :: "layout \<Rightarrow> bool" where
  "is_fixed cols \<longleftrightarrow> snd (schema_finalize cols) > 0"

section \<open>Values\<close>

definition from_int :: "u32 \<Rightarrow> dbvalue" where
  "from_int v = \<lparr>v_type = CT_INT, v_num = I32 v, v_str = []\<rparr>"

definition from_float :: "u32 \<Rightarrow> dbvalue" where
  "from_float v = \<lparr>v_type = CT_FLOAT, v_num = F32 v, v_str = []\<rparr>"

definition from_decimal :: "u64 \<Rightarrow> dbvalue" where
  "from_decimal v = \<lparr>v_type = CT_DECIMAL, v_num = I64 v, v_str = []\<rparr>"

definition from_string :: "string \<Rightarrow> column_type \<Rightarrow> dbvalue" where
  "from_string s t = \<lparr>v_type = t, v_num = Uninit, v_str = s\<rparr>"

definition from_datetime :: "u64 \<Rightarrow> dbvalue" where
  "from_datetime ts = \<lparr>v_type = CT_DATETIME, v_num = I64 ts, v_str = []\<rparr>"

record value_env =
  ve_float_eq :: "u32 \<Rightarrow> u32 \<Rightarrow> bool"
  ve_float_lt :: "u32 \<Rightarrow> u32 \<Rightarrow> bool"
  ve_float_str :: "u32 \<Rightarrow> string"
  ve_date_str :: "int \<Rightarrow> string"
  ve_now :: int

definition value_eq :: "value_env \<Rightarrow> dbvalue \<Rightarrow> dbvalue \<Rightarrow> bool res" where
  "value_eq ve a b =
     (if v_type a \<noteq> v_type b then Inr False
      else case v_type a of
        CT_INT \<Rightarrow> rbind (read_word (v_num a)) (\<lambda>x. rbind (read_word (v_num b)) (\<lambda>y. Inr (x = y)))
      | CT_FLOAT \<Rightarrow> rbind (read_word (v_num a)) (\<lambda>x. rbind (read_word (v_num b)) (\<lambda>y. Inr (ve_float_eq ve x y)))
      | CT_DECIMAL \<Rightarrow> rbind (read_i64 (v_num a)) (\<lambda>x. rbind (read_i64 (v_num b)) (\<lambda>y. Inr (x = y)))
      | CT_DATETIME \<Rightarrow> rbind (read_i64 (v_num a)) (\<lambda>x. rbind (read_i64 (v_num b)) (\<lambda>y. Inr (x = y)))
      | _ \<Rightarrow> Inr (v_str a = v_str b))"

text \<open>The type of the right operand is not looked at.\<close>

definition value_less :: "value_env \<Rightarrow> dbvalue \<Rightarrow> dbvalue \<Rightarrow> bool res" where
  "value_less ve a b = (case v_type a of
       CT_INT \<Rightarrow> rbind (read_word (v_num a)) (\<lambda>x. rbind (read_word (v_num b)) (\<lambda>y. Inr (sint x < sint y)))
     | CT_FLOAT \<Rightarrow> rbind (read_word (v_num a)) (\<lambda>x. rbind (read_word (v_num b)) (\<lambda>y. Inr (ve_float_lt ve x y)))
     | CT_DECIMAL \<Rightarrow> rbind (read_i64 (v_num a)) (\<lambda>x. rbind (read_i64 (v_num b)) (\<lambda>y. Inr (sint x < sint y)))
     | CT_DATETIME \<Rightarrow> rbind (read_i64 (v_num a)) (\<lambda>x. rbind (read_i64 (v_num b)) (\<lambda>y. Inr (sint x < sint y)))
     | _ \<Rightarrow> Inr (str_less (v_str a) (v_str b)))"

definition value_greater :: "value_env \<Rightarrow> dbvalue \<Rightarrow> dbvalue \<Rightarrow> bool res" where
  "value_greater ve a b = value_less ve b a"

definition value_to_string :: "value_env \<Rightarrow> dbvalue \<Rightarrow> string res" where
  "value_to_string ve a = (case v_type a of
       CT_INT \<Rightarrow> rbind (read_word (v_num a)) (\<lambda>x. Inr (to_string (sint x)))
     | CT_FLOAT \<Rightarrow> rbind (read_word (v_num a)) (\<lambda>x. Inr (ve_float_str ve x))
     | CT_DECIMAL \<Rightarrow> rbind (read_i64 (v_num a)) (\<lambda>x. Inr (to_string (sint x)))
     | CT_DATETIME \<Rightarrow> rbind (read_i64 (v_num a)) (\<lambda>x. Inr (ve_date_str ve (sint x)))
     | _ \<Rightarrow> Inr (v_str a))"

text \<open>\<open>Row::serialize\<close> and \<open>Row::deserialize\<close> do nothing.\<close>

definition row_serialize :: "dbrow \<Rightarrow> u16" where
  "row_serialize row = 0"

definition row_deserialize :: "dbrow \<Rightarrow> u8 list \<Rightarrow> bool \<times> dbrow" where
  "row_deserialize row buf = (False, row)"

definition row_is_expired :: "value_env \<Rightarrow> u16 \<Rightarrow> dbrow \<Rightarrow> bool res" where
  "row_is_expired ve expiry_col_idx row =
     (if unat expiry_col_idx \<ge> length row then Inr False
      else rbind (read_i64 (v_num (row ! unat expiry_col_idx))) (\<lambda>e. Inr (sint e \<noteq> 0 \<and> sint e < ve_now ve)))"

section \<open>Serializer\<close>

text \<open>\<open>std::stoi\<close>: \<open>stoll\<close> with the range of 32 bits; both encoders give 0 when it throws.\<close>

definition stoi :: "string \<Rightarrow> int res" where
  "stoi s = rbind (stoll s) (\<lambda>v. if v < - (2 ^ 31) \<or> 2 ^ 31 \<le> v then Inl OutOfRange else Inr v)"

definition encode_int :: "string \<Rightarrow> u32" where
  "encode_int s = (case stoi s of Inl _ \<Rightarrow> 0 | Inr v \<Rightarrow> word_of_int v)"

definition encode_datetime :: "string \<Rightarrow> u64" where
  "encode_datetime s = (case stoll s of Inl _ \<Rightarrow> 0 | Inr v \<Rightarrow> word_of_int v)"

definition encode_varchar :: "string \<Rightarrow> u8 list" where
  "encode_varchar s = str_bytes s"

definition encode_value :: "dbvalue \<Rightarrow> u8 list res" where
  "encode_value v = (case v_type v of
       CT_INT \<Rightarrow> rbind (read_word (v_num v)) (\<lambda>w. Inr (enc32 w))
     | CT_DATETIME \<Rightarrow> rbind (read_i64 (v_num v)) (\<lambda>w. Inr (enc64 w))
     | CT_DECIMAL \<Rightarrow> rbind (read_i64 (v_num v)) (\<lambda>w. Inr (enc64 w))
     | CT_FLOAT \<Rightarrow> rbind (read_word (v_num v)) (\<lambda>w. Inr (enc32 w))
     | _ \<Rightarrow> Inr (encode_varchar (v_str v)))"

text \<open>The loop over the columns: entries without a value in the row keep what they held.\<close>

fun serialize_values :: "u8 list list \<Rightarrow> dbrow \<Rightarrow> u8 list list res" where
  "serialize_values [] row = Inr []"
| "serialize_values old [] = Inr old"
| "serialize_values (o1 # old) (v # row) =
     rbind (encode_value v) (\<lambda>bs. rbind (serialize_values old row) (\<lambda>rest. Inr (bs # rest)))"

definition resize_list :: "nat \<Rightarrow> 'a \<Rightarrow> 'a list \<Rightarrow> 'a list" where
  "resize_list n x xs = take n xs @ replicate (n - length xs) x"

definition serialize_row :: "value_env \<Rightarrow> nat \<Rightarrow> u16 \<Rightarrow> dbrow \<Rightarrow> u8 list list \<Rightarrow> u8 list list res" where
  "serialize_row ve n expiry_col_idx row column_data =
     (let data = resize_list (n + 1) [] column_data in
      rbind (serialize_values (take n data) row) (\<lambda>cols.
        rbind (if unat expiry_col_idx < n \<and> unat expiry_col_idx < length row
               then read_i64 (v_num (row ! unat expiry_col_idx)) else Inr (word_of_int (ve_now ve + 315360000)))
          (\<lambda>expiry. Inr (cols @ [enc64 expiry]))))"

section \<open>Batch buffer\<close>

record batch =
  ba_buffer :: "u8 list list"
  ba_max :: nat

definition batch_new :: "nat \<Rightarrow> batch" where
  "batch_new n = \<lparr>ba_buffer = [], ba_max = n\<rparr>"

definition batch_add :: "u8 list \<Rightarrow> batch \<Rightarrow> batch" where
  "batch_add v b = b\<lparr>ba_buffer := ba_buffer b @ [v]\<rparr>"

definition batch_is_full :: "batch \<Rightarrow> bool" where
  "batch_is_full b \<longleftrightarrow> length (ba_buffer b) \<ge> ba_max b"

definition batch_get_data :: "batch \<Rightarrow> u8 list list" where
  "batch_get_data b = ba_buffer b"

definition batch_clear :: "batch \<Rightarrow> batch" where
  "batch_clear b = b\<lparr>ba_buffer := []\<rparr>"

section \<open>Records of a page\<close>

text \<open>\<open>PageHeader\<close>: \<open>num_items\<close> in bytes 0 and 1, \<open>free_space_offset\<close> in bytes 2 and 3.\<close>

definition ph_items :: "pagedata \<Rightarrow> u16" where
  "ph_items pg = dec16 (page_bytes pg 0 2)"

definition ph_offset :: "pagedata \<Rightarrow> u16" where
  "ph_offset pg = dec16 (page_bytes pg 2 2)"

text \<open>After the copies: advance the offset, then count the item.\<close>

definition ph_bump :: "pagedata \<Rightarrow> u16 \<Rightarrow> pagedata" where
  "ph_bump pg n = (let pg1 = page_put pg 2 (enc16 (ph_offset pg + n)) in page_put pg1 0 (enc16 (ph_items pg1 + 1)))"

definition page_insert_fixed :: "pagedata \<Rightarrow> u8 list \<Rightarrow> u16 \<Rightarrow> (bool \<times> pagedata) res" where
  "page_insert_fixed pg data sz =
     (if unat (ph_offset pg) + unat sz > 4096 then Inr (False, pg)
      else if length data < unat sz then Inl OutOfBounds
      else rbind (page_write pg (unat (ph_offset pg)) (take (unat sz) data)) (\<lambda>pg1. Inr (True, ph_bump pg1 sz)))"

definition page_insert_variable :: "pagedata \<Rightarrow> u8 list \<Rightarrow> u16 \<Rightarrow> (bool \<times> pagedata) res" where
  "page_insert_variable pg data sz =
     (if unat (ph_offset pg) + 2 + unat sz > 4096 then Inr (False, pg)
      else if length data < unat sz then Inl OutOfBounds
      else rbind (page_write pg (unat (ph_offset pg)) (enc16 sz)) (\<lambda>pg1.
        rbind (page_write pg1 (unat (ph_offset pg1) + 2) (take (unat sz) data)) (\<lambda>pg2. Inr (True, ph_bump pg2 (2 + sz)))))"

section \<open>Properties\<close>

text \<open>The widths that the comments of \<open>ColumnType\<close> in \<open>row.h\<close> give, as numbers.\<close>

fun doc_width :: "column_type \<times> u16 \<Rightarrow> nat" where
  "doc_width (CT_INT, n) = 4"
| "doc_width (CT_FLOAT, n) = 4"
| "doc_width (CT_DECIMAL, n) = 8"
| "doc_width (CT_CHAR, n) = unat n"
| "doc_width (CT_VARCHAR, n) = 2 + unat n"
| "doc_width (CT_DATETIME, n) = 8"

definition widths :: "layout \<Rightarrow> nat" where
  "widths cols = sum_list (map doc_width cols)"

lemma type_width_doc: "unat (type_width ty len) = doc_width (ty, len)"
proof -
  have len: "unat len < 2 ^ 16" using unsigned_less [of len] by simp
  then have "unat (2 + ucast len :: u32) = 2 + unat len" by (simp add: unat_word_ariths unsigned_ucast_eq take_bit_nat_eq_self)
  then show ?thesis using len by (cases ty) (simp_all add: type_width_def unsigned_ucast_eq take_bit_nat_eq_self)
qed

lemma finalize_from_sums:
  assumes "unat off + widths cols < 2 ^ 32"
  shows "fst (finalize_from off cols) = map (\<lambda>i. ucast (off + of_nat (widths (take i cols)))) [0..<length cols] \<and>
    unat (snd (finalize_from off cols)) = unat off + widths cols"
  using assms
proof (induction cols arbitrary: off)
  case Nil
  then show ?case by (simp add: widths_def)
next
  case (Cons c cols)
  obtain ty len where c: "c = (ty, len)" by (cases c) auto
  let ?w = "type_width ty len"
  have w: "widths (c # xs) = unat ?w + widths xs" for xs by (simp add: widths_def c type_width_doc)
  have u: "unat (off + ?w) = unat off + unat ?w" using Cons.prems w by (simp add: unat_word_ariths)
  note IH = Cons.IH [of "off + ?w"]
  have "unat (off + ?w) + widths cols < 2 ^ 32" using Cons.prems u w by simp
  note IH = IH [OF this]
  have "map (\<lambda>i. ucast (off + of_nat (widths (take i (c # cols))))) [0..<length (c # cols)] =
      (ucast off :: u16) # map (\<lambda>i. ucast (off + ?w + of_nat (widths (take i cols)))) [0..<length cols]"
  proof -
    have "widths (take (Suc i) (c # cols)) = unat ?w + widths (take i cols)" for i by (simp add: w)
    then have "off + of_nat (widths (take (Suc i) (c # cols))) = off + ?w + of_nat (widths (take i cols))" for i
      by (simp add: add.assoc)
    then show ?thesis by (simp add: upt_conv_Cons map_Suc_upt [symmetric] comp_def widths_def add.assoc del: upt_Suc)
  qed
  then show ?case using IH u w by (simp add: c case_prod_beta Let_def)
qed

text \<open>
  C39. \<open>Schema::finalize\<close> lays the columns out one after the other with the widths that \<open>row.h\<close> documents for
  the types (a VARCHAR with its two bytes of length): if they add up to less than 64K, the offset of column \<open>i\<close>
  is the sum of the widths before it, so no two columns overlap, and \<open>fixed_row_size\<close> is the sum of all. So
  \<open>is_fixed\<close> holds for a schema with a VARCHAR too, where \<open>row.h\<close> says that 0 stands for variable width.
\<close>

theorem finalize_layout:
  assumes "sum_list (map doc_width cols) < 2 ^ 16"
  shows "map unat (fst (schema_finalize cols)) = map (\<lambda>i. sum_list (map doc_width (take i cols))) [0..<length cols] \<and>
    unat (snd (schema_finalize cols)) = sum_list (map doc_width cols) \<and>
    (\<forall>len. (CT_VARCHAR, len) \<in> set cols \<longrightarrow> is_fixed cols)"
proof (intro conjI)
  note f = finalize_from_sums [of 0 cols]
  show size: "unat (snd (schema_finalize cols)) = sum_list (map doc_width cols)"
    using f assms by (simp add: schema_finalize_def widths_def)
  have "widths (take i cols) < 2 ^ 16" for i
  proof -
    have "widths cols = widths (take i cols) + widths (drop i cols)"
      by (metis append_take_drop_id map_append sum_list.append widths_def)
    then show ?thesis using assms by (simp add: widths_def)
  qed
  moreover have "unat (ucast (of_nat n :: u32) :: u16) = n" if "n < 2 ^ 16" for n
    using that by (simp add: unsigned_ucast_eq unat_of_nat take_bit_nat_eq_self)
  ultimately show "map unat (fst (schema_finalize cols)) = map (\<lambda>i. sum_list (map doc_width (take i cols))) [0..<length cols]"
    using f assms by (simp add: schema_finalize_def widths_def)
  show "\<forall>len. (CT_VARCHAR, len) \<in> set cols \<longrightarrow> is_fixed cols"
  proof (intro allI impI)
    fix len assume "(CT_VARCHAR, len) \<in> set cols"
    then have "2 + unat len \<le> sum_list (map doc_width cols)"
      using member_le_sum_list [of "doc_width (CT_VARCHAR, len)" "map doc_width cols"] by force
    then show "is_fixed cols" using size by (simp add: is_fixed_def word_less_nat_alt)
  qed
qed

theorem finalize_layout_witness:
  "map unat (fst (schema_finalize [(CT_DECIMAL, 0), (CT_VARCHAR, 64), (CT_INT, 0)])) = [0, 8, 74] \<and>
    is_fixed [(CT_DECIMAL, 0), (CT_VARCHAR, 64), (CT_INT, 0)]"
  using finalize_layout [of "[(CT_DECIMAL, 0), (CT_VARCHAR, 64), (CT_INT, 0)]"] by (auto simp: upt_rec)

text \<open>Values whose union holds the member of their type.\<close>

definition value_set :: "dbvalue \<Rightarrow> bool" where
  "value_set v = (case v_type v of CT_INT \<Rightarrow> (\<exists>w. v_num v = I32 w) | CT_FLOAT \<Rightarrow> False | CT_DECIMAL \<Rightarrow> (\<exists>w. v_num v = I64 w)
     | CT_DATETIME \<Rightarrow> (\<exists>w. v_num v = I64 w) | _ \<Rightarrow> True)"

definition ve0 :: value_env where
  "ve0 = \<lparr>ve_float_eq = (=), ve_float_lt = (\<lambda>_ _. False), ve_float_str = (\<lambda>_. []), ve_date_str = (\<lambda>_. []), ve_now = 0\<rparr>"

lemmas value_defs = value_eq_def value_less_def value_greater_def value_set_def read_i64_def read_word_def

text \<open>
  Between initialised values of one type other than FLOAT, the operators of \<open>Value\<close> are a linear
  order: they read only what was set, exactly one of \<open>==\<close>, \<open><\<close> and \<open>>\<close> holds, and \<open><\<close> is transitive.
\<close>

theorem value_order:
  assumes "value_set a" and "value_set b" and "value_set c" and "v_type a = v_type b" and "v_type b = v_type c"
  shows "\<exists>eq lt gt. value_eq ve a b = Inr eq \<and> value_less ve a b = Inr lt \<and> value_greater ve a b = Inr gt \<and>
    (eq \<or> lt \<or> gt) \<and> \<not> (eq \<and> lt) \<and> \<not> (eq \<and> gt) \<and> \<not> (lt \<and> gt) \<and>
    (lt \<and> value_less ve b c = Inr True \<longrightarrow> value_less ve a c = Inr True)"
proof -
  have s: "sint x = sint y \<longleftrightarrow> x = y" for x y :: "('w :: len) word" by (auto intro: signed_word_eqI)
  note st = str_less_total [of "v_str a" "v_str b"] str_less_irrefl [of "v_str a"]
    str_less_trans [of "v_str a" "v_str b" "v_str a"] str_less_trans [of "v_str a" "v_str b" "v_str c"]
  show ?thesis
  proof (cases "v_type a")
    case CT_CHAR
    then show ?thesis using assms st by (simp add: value_defs) (use st in metis)
  next
    case CT_VARCHAR
    then show ?thesis using assms st by (simp add: value_defs) (use st in metis)
  qed (use assms in \<open>auto simp: value_defs s [symmetric]\<close>)
qed

theorem value_order_witness:
  "value_eq ve0 (cell_db (CNum 3)) (cell_db (CNum 5)) = Inr False \<and> value_less ve0 (cell_db (CNum 3)) (cell_db (CNum 5)) = Inr True"
  using value_order [of "cell_db (CNum 3)" "cell_db (CNum 5)" "cell_db (CNum 5)" ve0]
  by (simp add: value_defs)

text \<open>The serialized bytes of a cell.\<close>

fun cell_bytes :: "cell \<Rightarrow> u8 list" where
  "cell_bytes (CNum w) = enc64 w"
| "cell_bytes (CStr s) = str_bytes s"

lemma encode_value_cell: "encode_value (cell_db c) = Inr (cell_bytes c)"
  by (cases c) (simp_all add: encode_value_def read_i64_def encode_varchar_def)

lemma serialize_values_cells:
  "length old = length row \<Longrightarrow> serialize_values old (map cell_db row) = Inr (map cell_bytes row)"
  by (induction old "map cell_db row" arbitrary: row rule: serialize_values.induct) (auto simp: encode_value_cell)

lemma cell_bytes_value: "cell_ok ty c \<Longrightarrow> cell_value ty (Some (cell_bytes c)) = cell_db c"
  using bytes_str_pad [of _ 0] by (cases ty; cases c) (auto simp: cell_value_def)

text \<open>
  The serializer writes one byte string for each cell and one for the expiry (ten years from now
  when the table has no expiry column), whatever the vector held before, and reading a byte string as
  the executor reads a cell gives the cell back.
\<close>

theorem serialize_roundtrip:
  assumes "row_fits ds row" and "length row \<le> unat expiry_col_idx"
  shows "\<exists>cols. serialize_row ve (length ds) expiry_col_idx (map cell_db row) column_data =
      Inr (cols @ [enc64 (word_of_int (ve_now ve + 315360000))]) \<and>
    length cols = length ds \<and> (\<forall>i < length ds. cell_value (cd_type (ds ! i)) (Some (cols ! i)) = cell_db (row ! i))"
proof -
  have len: "length row = length ds" using assms(1) by (auto simp: row_fits_def dest: list_all2_lengthD)
  have "length (take (length ds) (resize_list (length ds + 1) [] column_data)) = length row" by (simp add: resize_list_def len)
  then have "serialize_row ve (length ds) expiry_col_idx (map cell_db row) column_data =
      Inr (map cell_bytes row @ [enc64 (word_of_int (ve_now ve + 315360000))])"
    using assms(2) len serialize_values_cells by (simp add: serialize_row_def Let_def)
  moreover have "\<forall>i < length ds. cell_value (cd_type (ds ! i)) (Some (map cell_bytes row ! i)) = cell_db (row ! i)"
    using row_fits_nth [OF assms(1)] cell_bytes_value len by simp
  ultimately show ?thesis using len by (intro exI [of _ "map cell_bytes row"]) simp
qed

theorem serialize_roundtrip_witness:
  "\<exists>cols. serialize_row (ve0\<lparr>ve_now := 5\<rparr>) 2 0xFFFF (map cell_db [CNum 7, CStr ''Ann'']) [] =
      Inr (cols @ [enc64 315360005]) \<and> length cols = 2"
proof -
  have "row_fits (sc_columns demo_schema) [CNum 7, CStr ''Ann'']" by (simp add: row_fits_def demo_schema_def char_nat_def)
  moreover have "length [CNum 7, CStr ''Ann''] \<le> unat (0xFFFF :: u16)" by simp
  moreover have "length (sc_columns demo_schema) = 2" by (simp add: demo_schema_def)
  moreover have "word_of_int (ve_now (ve0\<lparr>ve_now := 5\<rparr>) + 315360000) = (315360005 :: u64)" by simp
  ultimately show ?thesis
    using serialize_roundtrip [of "sc_columns demo_schema" "[CNum 7, CStr ''Ann'']" "0xFFFF" "ve0\<lparr>ve_now := 5\<rparr>" "[]"]
    by metis
qed

lemma ph_bump_facts:
  "ph_offset (ph_bump pg n) = ph_offset pg + n" "ph_items (ph_bump pg n) = ph_items pg + 1"
  "4 \<le> off \<Longrightarrow> page_bytes (ph_bump pg n) off k = page_bytes pg off k"
  by (simp_all add: ph_bump_def ph_offset_def ph_items_def Let_def)

text \<open>
  Appending a record to a page whose free space starts behind the header: the page is left as it is
  and the call returns false exactly when the two bytes of length and the data do not fit; otherwise
  they are written at the free offset, nothing before it changes, the offset moves behind them, inside
  the page, and the item is counted.
\<close>

theorem page_insert_variable_appends:
  assumes "4 \<le> unat (ph_offset pg)" and "unat sz \<le> length data"
  shows "if unat (ph_offset pg) + 2 + unat sz > 4096 then page_insert_variable pg data sz = Inr (False, pg)
    else \<exists>pg'. page_insert_variable pg data sz = Inr (True, pg') \<and>
      page_bytes pg' (unat (ph_offset pg)) 2 = enc16 sz \<and>
      page_bytes pg' (unat (ph_offset pg) + 2) (unat sz) = take (unat sz) data \<and>
      (\<forall>off k. 4 \<le> off \<and> off + k \<le> unat (ph_offset pg) \<longrightarrow> page_bytes pg' off k = page_bytes pg off k) \<and>
      unat (ph_offset pg') = unat (ph_offset pg) + 2 + unat sz \<and> ph_items pg' = ph_items pg + 1"
proof (cases "unat (ph_offset pg) + 2 + unat sz > 4096")
  case True
  then show ?thesis by (simp add: page_insert_variable_def)
next
  case False
  let ?o = "unat (ph_offset pg)" and ?d = "take (unat sz) data"
  let ?pg1 = "page_put pg ?o (enc16 sz)"
  let ?pg2 = "page_put ?pg1 (?o + 2) ?d"
  have o1: "ph_offset ?pg1 = ph_offset pg" "ph_items ?pg1 = ph_items pg" using assms(1) by (simp_all add: ph_offset_def ph_items_def)
  have o2: "ph_offset ?pg2 = ph_offset pg" "ph_items ?pg2 = ph_items pg"
    using assms(1) by (simp_all add: ph_offset_def ph_items_def)
  have r: "page_insert_variable pg data sz = Inr (True, ph_bump ?pg2 (2 + sz))"
    using False assms(2) o1(1) by (simp add: page_insert_variable_def page_write_def)
  have "unat (ph_offset pg + (2 + sz)) = ?o + 2 + unat sz"
    using False by (simp add: unat_word_ariths)
  moreover have "page_bytes (ph_bump ?pg2 (2 + sz)) ?o 2 = enc16 sz" using assms(1) by (simp add: ph_bump_facts)
  moreover have "page_bytes (ph_bump ?pg2 (2 + sz)) (?o + 2) (unat sz) = ?d" using assms by (simp add: ph_bump_facts)
  ultimately show ?thesis
    using False r o2 ph_bump_facts(1,2) [of ?pg2] by (auto simp: ph_bump_facts(3))
qed

theorem page_insert_variable_appends_witness:
  "\<exists>pg'. page_insert_variable (page_put zero_page 2 (enc16 4)) [1, 2, 3] 3 = Inr (True, pg') \<and> unat (ph_offset pg') = 9"
proof -
  have "ph_offset (page_put zero_page 2 (enc16 4)) = 4" by (simp add: ph_offset_def)
  then show ?thesis using page_insert_variable_appends [of "page_put zero_page 2 (enc16 4)" 3 "[1, 2, 3]"] by auto
qed

end
