(* ===== verification/Spec2Isabelle.thy ===== *)
theory Spec2Isabelle
  imports Programs ConcurrentInsert FloatColumn TableRuns ShortRows VarcharJoin EarlierTreeProofs Registries DateTime ScanModel
    TokenizerModel RowModel
begin

text \<open>
  FlexQL, a small column-oriented SQL server in C++: a verification of its storage engine,
  index, executor, parser, protocol, server and client.

  \<^bold>\<open>The program.\<close> Below \<open>src/\<close> are the repository's directories \<open>src\<close>, \<open>include\<close>, \<open>tests\<close> and
  \<open>benchmarks\<close>. A \<open>Pager\<close> maps a file of pages; a \<open>CacheManager\<close> with an \<open>LRUCache\<close> tracks which pages
  are in use and dirty. On this stand \<open>ColumnStore\<close> and \<open>ColumnReader\<close> (one file for each column) and
  \<open>BPTree\<close> (the primary-key index, reached through \<open>IndexManager\<close>). A \<open>Table\<close> is its columns and
  perhaps the index \<open>PK\<close>. The \<open>Executor\<close> keeps the tables by name and runs the statements that the \<open>Parser\<close>
  produces, with \<open>HashJoin\<close> for joins. \<open>Server::handle_client\<close> reads statements that end with a
  semicolon from a connection, executes them and answers in lines; a \<open>ThreadPool\<close> runs one handler for
  each connection. \<open>flexql_exec\<close> is the client's side of the protocol, and \<open>main_client\<close> an
  interactive client over it.

  \<^bold>\<open>The theories, in order of dependency.\<close>
  \<^item> \<open>Prelude\<close>: word types, faults, the result type \<open>res\<close> with \<open>rbind\<close> and folds over it, byte
    encodings (locale \<open>byte_codec\<close>, interpreted for 2, 4 and 8 bytes), pages of bytes.
  \<^item> \<open>TextModel\<close>: what the sources use of \<open>std::string\<close>, streams and number conversion.
  \<^item> \<open>PagerModel\<close>: \<open>src/storage/pager.cpp\<close>. The mapping and the file behind it are functions from page
    numbers to pages.
  \<^item> \<open>CacheModel\<close>: \<open>src/cache\<close>. The list with its iterators, eviction and write-back; the cache holds the
    most recently used pages, and a page that is fetched, written and marked is in the file after a
    flush. The locale \<open>page_source\<close> states what the layers above rely on.
  \<^item> \<open>BPTreeModel\<close>, \<open>IndexSpec\<close>, \<open>BPTreeProofs\<close>, \<open>IndexCapacity\<close>, \<open>IndexModel\<close>: \<open>src/index/bptree.cpp\<close> and
    \<open>index_manager.cpp\<close>. The tree over the cache refines an abstract tree of two levels; the locale
    \<open>key_index\<close> is the contract of the table with it.
  \<^item> \<open>EarlierTree\<close>, \<open>EarlierTreeProofs\<close>: \<open>src/index/btree.cpp\<close>, an earlier tree that is not built, over the same
    cache. Its node type is a parameter (\<open>node_layout\<close>), the laws of its members are the locale
    \<open>node_struct\<close>, interpreted on the node of \<open>bptree.h\<close>.
  \<^item> \<open>Registries\<close>: \<open>src/storage/table_manager.cpp\<close>, not built either, and what it has in common with
    \<open>IndexManager\<close> (locale \<open>registry\<close>, interpreted for both).
  \<^item> \<open>ColumnModel\<close>, \<open>ColumnProofs\<close>: \<open>src/storage/column_store.cpp\<close> and \<open>column_reader.cpp\<close>. The locale
    \<open>slot_format\<close> covers the fixed and the variable layout.
  \<^item> \<open>TableModel\<close>, \<open>TableProofs\<close>: \<open>src/storage/table.cpp\<close> with the values of \<open>row.h\<close>.
    \<open>TableRuns\<close>: sequences of all table operations against a list of rows.
    \<open>ConcurrentInsert\<close>: \<open>insert_row\<close> cut into steps, for several threads. \<open>FloatColumn\<close>: what a table
    with FLOAT columns reads back. \<open>ShortRows\<close>: rows with fewer values than columns.
  \<^item> \<open>Ast\<close>, \<open>JoinModel\<close>, \<open>JoinProofs\<close>, \<open>ExecModel\<close>, \<open>ExecProofs\<close>, \<open>InsertProofs\<close>, \<open>ExecProps\<close>, \<open>ExecErrors\<close>:
    \<open>include/parser/ast.h\<close>, \<open>src/executor/hash_join.cpp\<close> and \<open>executor.cpp\<close>. \<open>VarcharJoin\<close>: joins on
    VARCHAR columns. \<open>ExecProps\<close> has the abstract
    database \<open>spec_step\<close> and the simulation, \<open>ExecErrors\<close> the behaviour outside of it. The specification
    leaves out DATETIME columns (rows never expire), the star (printed as NULL), columns that do not exist
    in conditions, orders and joins, quoted values in conditions, descending order, DELETE and repeated keys
    with a primary key, and a search by \<open>ID\<close> without one.
  \<^item> \<open>ParserModel\<close>, \<open>ParserProofs\<close>: \<open>src/parser/parser.cpp\<close>; printing and parsing are inverse.
  \<^item> \<open>ServerModel\<close>, \<open>ServerProofs\<close>, \<open>SessionProps\<close>: the handler of a connection and \<open>flexql_exec\<close>.
  \<^item> \<open>ThreadPool\<close>: \<open>src/server/thread_pool.cpp\<close> as a transition system, with the threads that sleep on
    the condition variables and the notifications that wake them up.
  \<^item> \<open>ServerRun\<close>: \<open>Server\<close> as a transition system over the pool and the executor. \<open>Programs\<close>: the main
    programs and the composition of client, network and server.
  \<^item> \<open>ScanModel\<close>, \<open>TokenizerModel\<close>, \<open>RowModel\<close>, \<open>DateTime\<close>: files that the server does not use: the scans, the
    nested-loop join and the optimizer; the tokenizer; row layout, values, serializer, batch buffer
    and page records; dates.

  \<^bold>\<open>What is shown.\<close> Layer by layer: a fetch-write-mark cycle of the cache is durable; a column gives back
  what was inserted; the index is exact; a table refines a list of rows under any sequence of its
  operations; the hash join on numbers is the nested-loop join; every statement that
  \<open>spec_step\<close> covers has the outcome of a database that keeps each table as a list of rows; parsing is the
  inverse of printing; the protocol carries results for every way the network cuts the streams; a
  server with one worker serves the accepted connections in order, as one database; and the
  terminal of the interactive client shows what that database answers. The thread pool starts
  tasks in order, finishes each once, loses no notification and comes to rest with every task finished. The theorems about errors state what the code
  does where it leaves this specification: faults, lost entries, rows that are not found.

  \<^bold>\<open>Bounds and fuel.\<close> The index is exact for 31500 insertions: a root with 251 children whose leaves are
  at least half full; the insertion behind it can lose half a leaf, which is a theorem. Up to 131071
  insertions return in any case, two new pages each at most, within the \<open>2 ^ 18\<close> pages of the mapping.
  The descents of the trees run on fuel, one unit per page and one more: a longer descent would visit a
  page twice and never end. \<open>index_sound\<close> and \<open>earlier_tree_refines\<close> show that the fuel is enough in every
  state insertions can reach. A column takes \<open>2 ^ 18\<close> pages, at least 8126464 rows. All other loops are
  structural or have a measure.

  \<^bold>\<open>Errors.\<close> Every fault (null or wild pointers, reads out of bounds, indeterminate values, exceptions that
  nobody catches, a comparison that \<open>std::sort\<close> does not accept) is a value of \<open>fault\<close>, so a result
  \<open>Inr\<close> says that none happened.

  \<^bold>\<open>Parameters.\<close> \<open>std::sort\<close> (\<open>env_sort\<close>, assumed to give a sorted permutation for a strict weak order),
  \<open>std::stof\<close> (only the bytes of a FLOAT), opening of files (\<open>disk_env\<close> for one that succeeds), \<open>mktime\<close>,
  \<open>localtime\<close>, the clock, floating-point comparison, and the results of the system calls of the
  server and the client. For the two files that the build leaves out: the node layout and the order of
  \<open>index/btree.h\<close>, which the repository does not have, and the constructor of \<open>Table\<close> and the name of a
  schema that \<open>table_manager.cpp\<close> uses and no header declares.

  \<^bold>\<open>Not modelled.\<close> Data races below the steps of \<open>ConcurrentInsert\<close>, and overlapping handlers of a pool with
  more than one worker: the tables have no lock. Two columns whose paths coincide share a file
  (\<open>files_apart\<close> excludes it). Limits on threads and memory, partial \<open>send\<close>s.
  \<open>src/storage/schema.cpp\<close> defines members of a class that the header has replaced by an alias, and
  \<open>src/server/main.cpp\<close> starts classes that nothing implements; neither is built. Headers with declarations only, tests and benchmarks.
\<close>

end
